(* ===== verification/Prelude.thy ===== *)
theory Prelude
  imports Main "HOL-Library.Word"
begin

text \<open>
  Shared vocabulary of the development: the machine integers of the C++ sources, the outcome
  of a C++ call (a value, a thrown exception, a call of \<open>std::terminate\<close>, behaviour the
  language leaves undefined, or no return at all), the \<open>std::vector\<close> operations the components use, and the
  generic facts on rows of a flat vector and on 64-bit products that their proofs share.
\<close>

section \<open>Machine integers\<close>

text \<open>\<open>std::size_t\<close> and \<open>std::uint64_t\<close> are 64 bits wide and wrap around; \<open>int\<close> is 32 bits.\<close>

type_synonym size_t = "64 word"
type_synonym u64 = "64 word"
type_synonym i32 = "32 word"

text \<open>An abstract device or host address; \<open>0\<close> is \<open>nullptr\<close>.\<close>

type_synonym addr = "64 word"

abbreviation (input) nullptr :: addr where
  "nullptr \<equiv> 0"

named_theorems res_simps \<open>evaluation of outcomes\<close>
named_theorems vec_simps \<open>rows, slices and sizes of vectors\<close>
named_theorems word_bounds \<open>64-bit products and sizes that do not wrap\<close>

section \<open>Outcomes of C++ calls\<close>

datatype exn =
    InferenceError string
  | CudaError string
  | InvalidArgument string
  | OutOfRange string
  | LengthError string
  | RuntimeError string
  | ValueError string
  | OrtException string
  | FutureError string

datatype 'a res =
    Ret 'a
  | Throw exn
  | Terminate
  | Undef
  | Hang

primrec res_bind :: "'a res \<Rightarrow> ('a \<Rightarrow> 'b res) \<Rightarrow> 'b res" where
  "res_bind (Ret x) f = f x"
| "res_bind (Throw e) f = Throw e"
| "res_bind Terminate f = Terminate"
| "res_bind Undef f = Undef"
| "res_bind Hang f = Hang"

primrec is_ret :: "'a res \<Rightarrow> bool" where
  "is_ret (Ret x) = True"
| "is_ret (Throw e) = False"
| "is_ret Terminate = False"
| "is_ret Undef = False"
| "is_ret Hang = False"

text \<open>Returned or threw: the call came back to its caller through a defined path.\<close>

primrec defined_res :: "'a res \<Rightarrow> bool" where
  "defined_res (Ret x) = True"
| "defined_res (Throw e) = True"
| "defined_res Terminate = False"
| "defined_res Undef = False"
| "defined_res Hang = False"

lemma res_bind_assoc: "res_bind (res_bind m f) g = res_bind m (\<lambda>x. res_bind (f x) g)"
  by (cases m) simp_all

lemma res_bind_eq_Ret [res_simps]:
  "res_bind m f = Ret y \<longleftrightarrow> (\<exists>x. m = Ret x \<and> f x = Ret y)"
  by (cases m) simp_all

lemma res_bind_eq_Throw [res_simps]:
  "res_bind m f = Throw e \<longleftrightarrow> m = Throw e \<or> (\<exists>x. m = Ret x \<and> f x = Throw e)"
  by (cases m) auto

lemma is_ret_iff: "is_ret m \<longleftrightarrow> (\<exists>x. m = Ret x)"
  by (cases m) simp_all

lemma defined_res_bind:
  "defined_res m \<Longrightarrow> (\<And>x. m = Ret x \<Longrightarrow> defined_res (f x)) \<Longrightarrow> defined_res (res_bind m f)"
  by (cases m) simp_all

section \<open>Commands\<close>

text \<open>
  Code that works on a state and may throw: the state reached so far survives the exception.
  \<open>cfinally\<close> runs a destructor when a scope is left by return or by exception.
\<close>

type_synonym ('s, 'a) cmd = "'s \<Rightarrow> 'a res \<times> 's"

definition cret :: "'a \<Rightarrow> ('s, 'a) cmd" where
  "cret x s = (Ret x, s)"

definition cthrow :: "exn \<Rightarrow> ('s, 'a) cmd" where
  "cthrow e s = (Throw e, s)"

definition cbind :: "('s, 'a) cmd \<Rightarrow> ('a \<Rightarrow> ('s, 'b) cmd) \<Rightarrow> ('s, 'b) cmd" where
  "cbind m f s =
     (case m s of
        (Ret x, s') \<Rightarrow> f x s'
      | (Throw e, s') \<Rightarrow> (Throw e, s')
      | (Terminate, s') \<Rightarrow> (Terminate, s')
      | (Undef, s') \<Rightarrow> (Undef, s')
      | (Hang, s') \<Rightarrow> (Hang, s'))"

definition cfinally :: "('s, 'a) cmd \<Rightarrow> ('s \<Rightarrow> 's) \<Rightarrow> ('s, 'a) cmd" where
  "cfinally m cleanup s =
     (case m s of (r, s') \<Rightarrow> (r, if defined_res r then cleanup s' else s'))"

lemma cbind_Ret [res_simps]: "m s = (Ret x, s') \<Longrightarrow> cbind m f s = f x s'"
  by (simp add: cbind_def)

lemma cbind_Throw [res_simps]: "m s = (Throw e, s') \<Longrightarrow> cbind m f s = (Throw e, s')"
  by (simp add: cbind_def)

lemma cbind_eq_Ret [res_simps]:
  "cbind m f s = (Ret y, s'') \<longleftrightarrow> (\<exists>x s'. m s = (Ret x, s') \<and> f x s' = (Ret y, s''))"
  by (auto simp: cbind_def split: prod.splits res.splits)

lemma cfinally_eq_Ret [res_simps]:
  "cfinally m c s = (Ret y, s'') \<longleftrightarrow> (\<exists>s'. m s = (Ret y, s') \<and> s'' = c s')"
  by (auto simp: cfinally_def split: prod.splits)

section \<open>Vectors\<close>

text \<open>
  \<open>v.size()\<close> is a \<open>size_t\<close>. A vector of 4-byte elements cannot hold more than
  \<open>PTRDIFF_MAX / 4\<close> of them: \<open>reserve\<close> and the sized constructor throw
  \<open>std::length_error\<close> beyond that.
\<close>

definition vsize :: "'a list \<Rightarrow> size_t" where
  "vsize xs = of_nat (length xs)"

definition vec_max_size :: nat where
  "vec_max_size = 2 ^ 61 - 1"

definition vec_filled :: "size_t \<Rightarrow> 'a \<Rightarrow> 'a list res" where
  "vec_filled n x =
     (if vec_max_size < unat n
      then Throw (LengthError ''cannot create std::vector larger than max_size()'')
      else Ret (replicate (unat n) x))"

text \<open>The elements between two iterators; undefined when they do not bound a range of the vector.\<close>

definition vec_slice :: "'a list \<Rightarrow> size_t \<Rightarrow> size_t \<Rightarrow> 'a list res" where
  "vec_slice xs b e =
     (if b \<le> e \<and> unat e \<le> length xs
      then Ret (take (unat e - unat b) (drop (unat b) xs)) else Undef)"

text \<open>
  \<open>std::copy\<close> of a block over the elements of a vector from an offset on; undefined when the
  block does not fit.
\<close>

definition overwrite :: "nat \<Rightarrow> 'a list \<Rightarrow> 'a list \<Rightarrow> 'a list" where
  "overwrite k ys xs = take k xs @ ys @ drop (k + length ys) xs"

definition vec_copy_to :: "'a list \<Rightarrow> 'a list \<Rightarrow> size_t \<Rightarrow> 'a list res" where
  "vec_copy_to ys xs b =
     (if unat b + length ys \<le> length xs then Ret (overwrite (unat b) ys xs) else Undef)"

subsection \<open>Sizes and products that do not wrap\<close>

lemma unat_vsize [word_bounds]: "length xs < 2 ^ 64 \<Longrightarrow> unat (vsize xs) = length xs"
  by (simp add: vsize_def unat_of_nat)

lemma vsize_eq_iff:
  "length xs < 2 ^ 64 \<Longrightarrow> vsize xs = n \<longleftrightarrow> length xs = unat n"
  by (metis unat_vsize word_unat_eq_iff)

lemma unat_mult_fits [word_bounds]:
  fixes a b :: size_t
  shows "unat a * unat b < 2 ^ 64 \<Longrightarrow> unat (a * b) = unat a * unat b"
  using unat_mult_lem [of a b] by simp

lemma unat_of_nat_mult_fits [word_bounds]:
  fixes b :: size_t
  assumes "i * unat b < 2 ^ 64" and "i < 2 ^ 64"
  shows "unat (of_nat i * b) = i * unat b"
  using assms unat_mult_fits [of "of_nat i" b] by (simp add: unat_of_nat)

lemma mult_lt_mono_le: "(a::nat) \<le> b \<Longrightarrow> b * c < n \<Longrightarrow> a * c < n"
  by (meson le_less_trans mult_le_mono1)

subsection \<open>Rows of a flat vector\<close>

text \<open>Row \<open>i\<close> of a row-major matrix with rows of \<open>n\<close> elements.\<close>

definition row :: "nat \<Rightarrow> nat \<Rightarrow> 'a list \<Rightarrow> 'a list" where
  "row n i xs = take n (drop (i * n) xs)"

definition rows :: "nat \<Rightarrow> nat \<Rightarrow> 'a list \<Rightarrow> 'a list list" where
  "rows n k xs = map (\<lambda>i. row n i xs) [0..<k]"

lemma length_rows [simp, vec_simps]: "length (rows n k xs) = k"
  by (simp add: rows_def)

lemma nth_rows [simp, vec_simps]: "i < k \<Longrightarrow> rows n k xs ! i = row n i xs"
  by (simp add: rows_def)

lemma length_row [vec_simps]: "(i + 1) * n \<le> length xs \<Longrightarrow> length (row n i xs) = n"
  by (simp add: row_def)

lemma row_0 [vec_simps]: "row n 0 xs = take n xs"
  by (simp add: row_def)

lemma row_Suc [vec_simps]: "row n (Suc i) xs = row n i (drop n xs)"
  by (simp add: row_def add.commute)

lemma rows_Suc: "rows n (Suc k) xs = take n xs # rows n k (drop n xs)"
  by (simp add: rows_def upt_conv_Cons row_0 map_Suc_upt [symmetric] row_Suc del: upt_Suc)

lemma rows_length_row:
  "length xs = k * n \<Longrightarrow> r \<in> set (rows n k xs) \<Longrightarrow> length r = n"
proof -
  assume len: "length xs = k * n" and "r \<in> set (rows n k xs)"
  then obtain i where "i < k" and r: "r = row n i xs"
    by (auto simp: rows_def)
  then have "(i + 1) * n \<le> k * n"
    by (intro mult_le_mono1) simp
  with len r show ?thesis
    by (simp add: length_row)
qed

lemma concat_rows: "length xs = k * n \<Longrightarrow> concat (rows n k xs) = xs"
proof (induction k arbitrary: xs)
  case 0
  then show ?case by (simp add: rows_def)
next
  case (Suc k)
  then have "concat (rows n k (drop n xs)) = drop n xs" by simp
  then show ?case by (simp add: rows_Suc)
qed

lemma length_concat_uniform:
  "(\<And>x. x \<in> set xss \<Longrightarrow> length x = n) \<Longrightarrow> length (concat xss) = length xss * n"
  by (induction xss) auto

lemma rows_concat:
  "(\<And>x. x \<in> set xss \<Longrightarrow> length x = n) \<Longrightarrow> k = length xss \<Longrightarrow> rows n k (concat xss) = xss"
proof (induction xss arbitrary: k)
  case Nil
  then show ?case by (simp add: rows_def)
next
  case (Cons x xss)
  then show ?case by (simp add: rows_Suc)
qed

lemma row_concat:
  assumes "\<And>x. x \<in> set xss \<Longrightarrow> length x = n" and "i < length xss"
  shows "row n i (concat xss) = xss ! i"
  using rows_concat [OF assms(1) refl] nth_rows [OF assms(2), of n "concat xss"] by simp

lemma vec_slice_row:
  assumes "length xs = k * unat n" and "i < k" and "k * unat n < 2 ^ 64" and "k < 2 ^ 64"
  shows "vec_slice xs (of_nat i * n) ((of_nat i + 1) * n) = Ret (row (unat n) i xs)"
proof -
  have le: "(i + 1) * unat n \<le> k * unat n"
    using assms(2) by (intro mult_le_mono1) simp
  have b: "unat (of_nat i * n) = i * unat n"
    using assms le by (intro unat_of_nat_mult_fits) auto
  have e: "unat ((of_nat i + 1) * n) = (i + 1) * unat n"
    using assms le unat_of_nat_mult_fits [of "i + 1" n] by (simp add: add.commute)
  show ?thesis
    using assms(1) le by (simp add: vec_slice_def b e word_le_nat_alt row_def)
qed

subsection \<open>Overwriting a block\<close>

lemma length_overwrite [simp, vec_simps]:
  "k + length ys \<le> length xs \<Longrightarrow> length (overwrite k ys xs) = length xs"
  by (simp add: overwrite_def)

lemma overwrite_all [simp, vec_simps]: "length ys = length xs \<Longrightarrow> overwrite 0 ys xs = ys"
  by (simp add: overwrite_def)

lemma take_overwrite_0 [vec_simps]: "n = length ys \<Longrightarrow> take n (overwrite 0 ys xs) = ys"
  by (simp add: overwrite_def)

lemma overwrite_0 [vec_simps]: "overwrite 0 ys xs = ys @ drop (length ys) xs"
  by (simp add: overwrite_def)

lemma overwrite_append [vec_simps]:
  "overwrite (length us) ys (us @ xs) = us @ overwrite 0 ys xs"
  by (simp add: overwrite_def)

end
