(* ===== verification/Floats.thy ===== *)
theory Floats
  imports Prelude Complex_Main "HOL-Library.Log_Nat"
begin

text \<open>
  IEEE-754 values as the C++ \<open>float\<close> (binary32) and \<open>double\<close> (binary64) of the sources
  compute with them: not-a-number, the two infinities, and finite values kept as a sign and an
  exact rational magnitude. Subtraction, division and the integer conversion compute the exact
  result and round it to the format, nearest value first and ties to the even significand.
  The facts proved are the ones the statistics and the kernels rest on: rounding keeps a
  magnitude below a power of two below it, so a quotient of counters is a finite number.
\<close>

section \<open>Values and rounding\<close>

datatype fp = NaN | Inf bool | Fin bool rat

type_synonym f32 = fp
type_synonym f64 = fp

definition fzero :: fp where
  "fzero = Fin False 0"

text \<open>Round a rational to the nearest integer, ties to even.\<close>

definition rne :: "rat \<Rightarrow> int" where
  "rne q =
     (let f = \<lfloor>q\<rfloor>; r = q - of_int f
      in if r < 1 / 2 then f else if 1 / 2 < r then f + 1 else if even f then f else f + 1)"

text \<open>The binary exponent of a positive rational.\<close>

definition ilog2 :: "rat \<Rightarrow> int" where
  "ilog2 q =
     (case quotient_of q of (a, b) \<Rightarrow>
        (let e = bitlen a - bitlen b in if 2 powi e \<le> q then e else e - 1))"

text \<open>
  Round the magnitude \<open>m\<close> to a format with \<open>p\<close> significand bits and largest exponent
  \<open>emax\<close>; exponents below \<open>1 - emax\<close> are subnormal and share the spacing of that exponent.
\<close>

definition fround :: "int \<Rightarrow> int \<Rightarrow> bool \<Rightarrow> rat \<Rightarrow> fp" where
  "fround p emax s m =
     (if m = 0 then Fin s 0
      else let ulp = 2 powi (max (ilog2 m) (1 - emax) - (p - 1));
               v = of_int (rne (m / ulp)) * ulp
           in if 2 powi (emax + 1) \<le> v then Inf s else Fin s v)"

definition round32 :: "bool \<Rightarrow> rat \<Rightarrow> f32" where
  "round32 = fround 24 127"

definition round64 :: "bool \<Rightarrow> rat \<Rightarrow> f64" where
  "round64 = fround 53 1023"

section \<open>Arithmetic\<close>

fun sval :: "bool \<Rightarrow> rat \<Rightarrow> rat" where
  "sval s m = (if s then - m else m)"

fun fsub :: "(bool \<Rightarrow> rat \<Rightarrow> fp) \<Rightarrow> fp \<Rightarrow> fp \<Rightarrow> fp" where
  "fsub rd NaN y = NaN"
| "fsub rd x NaN = NaN"
| "fsub rd (Inf s) (Inf t) = (if s = t then NaN else Inf s)"
| "fsub rd (Inf s) (Fin t b) = Inf s"
| "fsub rd (Fin s a) (Inf t) = Inf (\<not> t)"
| "fsub rd (Fin s a) (Fin t b) =
     (let d = sval s a - sval t b
      in if d = 0 then Fin (a = 0 \<and> s \<and> \<not> t) 0 else rd (d < 0) \<bar>d\<bar>)"

fun fdiv :: "(bool \<Rightarrow> rat \<Rightarrow> fp) \<Rightarrow> fp \<Rightarrow> fp \<Rightarrow> fp" where
  "fdiv rd NaN y = NaN"
| "fdiv rd x NaN = NaN"
| "fdiv rd (Inf s) (Inf t) = NaN"
| "fdiv rd (Inf s) (Fin t b) = Inf (s \<noteq> t)"
| "fdiv rd (Fin s a) (Inf t) = Fin (s \<noteq> t) 0"
| "fdiv rd (Fin s a) (Fin t b) =
     (if b = 0 then (if a = 0 then NaN else Inf (s \<noteq> t)) else rd (s \<noteq> t) (a / b))"

text \<open>\<open>operator==\<close>: signed zeros compare equal, not-a-number compares unequal to everything.\<close>

fun feq :: "fp \<Rightarrow> fp \<Rightarrow> bool" where
  "feq (Inf s) (Inf t) = (s = t)"
| "feq (Fin s a) (Fin t b) = (sval s a = sval t b)"
| "feq _ _ = False"

text \<open>\<open>static_cast<double>\<close> of a 64-bit unsigned integer.\<close>

definition f64_of_u64 :: "u64 \<Rightarrow> f64" where
  "f64_of_u64 w = round64 False (of_nat (unat w))"

definition f64_div :: "f64 \<Rightarrow> f64 \<Rightarrow> f64" where
  "f64_div = fdiv round64"

fun fp_finite :: "fp \<Rightarrow> bool" where
  "fp_finite (Fin s m) = (0 \<le> m)"
| "fp_finite _ = False"

section \<open>Rounding bounds\<close>

lemma rne_le: "q \<le> of_int n \<Longrightarrow> rne q \<le> n"
proof -
  assume q: "q \<le> of_int n"
  then have f: "\<lfloor>q\<rfloor> \<le> n" by linarith
  show ?thesis
  proof (cases "\<lfloor>q\<rfloor> = n")
    case True
    with q have "q = of_int n"
      using of_int_floor_le [of q] by simp
    then show ?thesis by (simp add: rne_def)
  next
    case False
    with f show ?thesis by (auto simp: rne_def Let_def)
  qed
qed

lemma rne_ge: "of_int n \<le> q \<Longrightarrow> n \<le> rne q"
proof -
  assume "of_int n \<le> q"
  then have "n \<le> \<lfloor>q\<rfloor>" by linarith
  then show ?thesis by (auto simp: rne_def Let_def)
qed

lemma ilog2_lower:
  assumes "0 < q"
  shows "2 powi (ilog2 q) \<le> q"
proof -
  obtain a b where ab: "quotient_of q = (a, b)" by (cases "quotient_of q")
  then have b: "0 < b" by (rule quotient_of_denom_pos)
  have q: "q = of_int a / of_int b" using ab by (rule quotient_of_div)
  with b assms have a: "0 < a" by (simp add: zero_less_divide_iff)
  define e where "e = bitlen a - bitlen b"
  have "(2::rat) powi (bitlen b) = of_int (2 ^ nat (bitlen b))"
    using bitlen_nonneg [of b] by (simp add: power_int_def)
  then have "of_int b < (2::rat) powi (bitlen b)"
    using bitlen_bounds [OF b] by (simp del: of_int_power)
  moreover have "(2::rat) powi (bitlen a - 1) \<le> of_int a"
  proof -
    have "0 < bitlen a"
      using a bitlen_nonneg [of a] bitlen_eq_zero_iff [of a] by linarith
    then have "(2::rat) powi (bitlen a - 1) = of_int (2 ^ nat (bitlen a - 1))"
      by (simp add: power_int_def)
    also have "\<dots> \<le> of_int a" using bitlen_bounds [OF a] by (simp del: of_int_power)
    finally show ?thesis .
  qed
  ultimately have "2 powi (bitlen a - 1) * of_int b \<le> of_int a * (2::rat) powi (bitlen b)"
    using a b by (intro mult_mono) auto
  then have "2 powi (bitlen a - 1) / 2 powi (bitlen b) \<le> q"
    using b by (simp add: q field_simps)
  then have "2 powi (e - 1) \<le> q"
    by (simp add: e_def power_int_diff [symmetric] algebra_simps)
  then show ?thesis
    by (simp add: ilog2_def ab e_def [symmetric] Let_def)
qed

lemma ilog2_le:
  assumes "0 < q" and "q < 2 powi (j + 1)"
  shows "ilog2 q \<le> j"
proof -
  have "(2::rat) powi (ilog2 q) < 2 powi (j + 1)"
    using ilog2_lower [OF assms(1)] assms(2) by simp
  then have "ilog2 q < j + 1"
    using power_int_increasing [of "j + 1" "ilog2 q" "2::rat"] by (cases "ilog2 q < j + 1") auto
  then show ?thesis by simp
qed

lemma powi_split:
  "e \<le> j \<Longrightarrow> (2::rat) powi j = of_int (2 ^ nat (j - e)) * 2 powi e"
proof -
  assume "e \<le> j"
  moreover have "(2::rat) powi j = 2 powi (j - e) * 2 powi e"
    by (simp add: power_int_add [symmetric])
  ultimately show ?thesis by (simp add: power_int_def [of _ "j - e"])
qed

text \<open>Scaled rounding respects every power of two that is a multiple of the spacing.\<close>

lemma rne_scale_le:
  assumes "m \<le> 2 powi j" "e \<le> j"
  shows "of_int (rne (m / 2 powi e)) * 2 powi e \<le> (2::rat) powi j"
proof -
  have "m / 2 powi e \<le> of_int (2 ^ nat (j - e))"
    using assms(1) by (simp add: powi_split [OF assms(2)] divide_le_eq del: of_int_power)
  then have "rne (m / 2 powi e) \<le> 2 ^ nat (j - e)" by (rule rne_le)
  then have "(of_int (rne (m / 2 powi e)) :: rat) \<le> of_int (2 ^ nat (j - e))"
    by (simp only: of_int_le_iff)
  then show ?thesis
    unfolding powi_split [OF assms(2)] by (intro mult_right_mono) auto
qed

lemma rne_scale_ge:
  assumes "2 powi j \<le> m" "e \<le> j"
  shows "(2::rat) powi j \<le> of_int (rne (m / 2 powi e)) * 2 powi e"
proof -
  have "of_int (2 ^ nat (j - e)) \<le> m / 2 powi e"
    using assms(1) by (simp add: powi_split [OF assms(2)] le_divide_eq del: of_int_power)
  then have "2 ^ nat (j - e) \<le> rne (m / 2 powi e)" by (rule rne_ge)
  then have "(of_int (2 ^ nat (j - e)) :: rat) \<le> of_int (rne (m / 2 powi e))"
    by (simp only: of_int_le_iff)
  then show ?thesis
    unfolding powi_split [OF assms(2)] by (intro mult_right_mono) auto
qed

lemma fround_le_power:
  assumes m: "0 \<le> m" "m \<le> 2 powi j" and j: "1 - emax \<le> j" "j \<le> emax" and p: "1 \<le> p"
  shows "\<exists>v. fround p emax s m = Fin s v \<and> 0 \<le> v \<and> v \<le> 2 powi j"
proof (cases "m = 0")
  case True
  then show ?thesis by (simp add: fround_def)
next
  case False
  with m have pos: "0 < m" by simp
  define e where "e = max (ilog2 m) (1 - emax) - (p - 1)"
  define v :: rat where "v = of_int (rne (m / 2 powi e)) * 2 powi e"
  have "m < 2 powi (j + 1)"
    using m(2) power_int_strict_increasing [of j "j + 1" "2::rat"] by simp
  with pos have "ilog2 m \<le> j" by (rule ilog2_le)
  with j(1) p have ej: "e \<le> j" by (simp add: e_def)
  from m(2) ej have hi: "v \<le> 2 powi j"
    unfolding v_def by (rule rne_scale_le)
  have "of_int 0 \<le> m / 2 powi e" using pos by simp
  then have "0 \<le> rne (m / 2 powi e)" by (rule rne_ge)
  then have lo: "0 \<le> v" by (simp add: v_def)
  have "(2::rat) powi j < 2 powi (emax + 1)"
    using j(2) by (intro power_int_strict_increasing) auto
  with hi have "\<not> 2 powi (emax + 1) \<le> v" by linarith
  then have "fround p emax s m = Fin s v"
    using False by (simp add: fround_def Let_def v_def e_def)
  with lo hi show ?thesis by blast
qed

lemma round64_le_power:
  assumes "0 \<le> m" "m \<le> 2 ^ j" "j \<le> 1023"
  shows "\<exists>v. round64 s m = Fin s v \<and> 0 \<le> v \<and> v \<le> 2 ^ j"
  using fround_le_power [of m "int j" 1023 53 s] assms by (simp add: round64_def)

lemma fround_0 [simp]: "fround p emax s 0 = Fin s 0"
  by (simp add: fround_def)

lemma round64_0 [simp]: "round64 s 0 = Fin s 0"
  by (simp add: round64_def)

text \<open>Rounding never takes a magnitude below a power of two it reaches.\<close>

lemma fround_ge_power:
  assumes "fround p emax s m = Fin s v" and m: "2 powi j \<le> m" and j: "1 - emax \<le> j"
    and p: "1 \<le> p"
  shows "2 powi j \<le> v"
proof -
  have "(0::rat) < 2 powi j" by simp
  with m have pos: "0 < m" by linarith
  define e where "e = max (ilog2 m) (1 - emax) - (p - 1)"
  have v: "v = of_int (rne (m / 2 powi e)) * 2 powi e"
    using assms(1) pos by (simp add: fround_def Let_def e_def split: if_splits)
  show ?thesis
  proof (cases "e \<le> j")
    case True
    with m show ?thesis unfolding v by (rule rne_scale_ge)
  next
    case False
    with j p have "e \<le> ilog2 m" by (simp add: e_def split: if_splits)
    then have "(2::rat) powi e \<le> m"
      using ilog2_lower [OF pos] power_int_increasing [of e "ilog2 m" "2::rat"] by simp
    then have "2 powi e \<le> v" unfolding v by (intro rne_scale_ge) simp_all
    moreover have "(2::rat) powi j \<le> 2 powi e"
      using False by (intro power_int_increasing) auto
    ultimately show ?thesis by simp
  qed
qed

lemma round64_ge_1:
  "round64 s m = Fin s v \<Longrightarrow> 1 \<le> m \<Longrightarrow> 1 \<le> v"
  using fround_ge_power [of 53 1023 s m v 0] by (simp add: round64_def)

lemma f64_of_u64_finite: "\<exists>v. f64_of_u64 w = Fin False v \<and> 0 \<le> v \<and> v \<le> 2 ^ 64"
proof -
  have "unat w \<le> 2 ^ 64" using unsigned_less [of w, where ?'a = nat] by simp
  then have "(of_nat (unat w) :: rat) \<le> of_nat (2 ^ 64)" by (simp only: of_nat_le_iff)
  then show ?thesis
    unfolding f64_of_u64_def by (intro round64_le_power) (auto simp del: of_nat_unat)
qed

lemma f64_of_u64_ge_1:
  assumes "w \<noteq> 0"
  shows "\<exists>v. f64_of_u64 w = Fin False v \<and> 1 \<le> v \<and> v \<le> 2 ^ 64"
proof -
  obtain v where v: "f64_of_u64 w = Fin False v" "v \<le> 2 ^ 64"
    using f64_of_u64_finite [of w] by blast
  have "1 \<le> unat w" using assms by (simp add: Suc_le_eq unat_gt_0)
  then have "(1::rat) \<le> of_nat (unat w)" by (simp del: of_nat_unat)
  with v have "1 \<le> v"
    unfolding f64_of_u64_def by (blast intro: round64_ge_1)
  with v show ?thesis by blast
qed

text \<open>Dividing by a number that is at least one keeps a finite value finite and within its bound.\<close>

lemma f64_div_ge_1:
  assumes "0 \<le> a" "a \<le> 2 ^ j" "j \<le> 1023" "1 \<le> b"
  shows "\<exists>v. f64_div (Fin False a) (Fin False b) = Fin False v \<and> 0 \<le> v \<and> v \<le> 2 ^ j"
proof -
  have "a / b \<le> a" using assms by (simp add: divide_le_eq mult_le_cancel_left1)
  then have "0 \<le> a / b" "a / b \<le> 2 ^ j" using assms by auto
  then show ?thesis
    using round64_le_power [of "a / b" j False] assms by (simp add: f64_div_def)
qed

end
