(* ===== verification/Cuda_Runtime.thy ===== *)
theory Cuda_Runtime
  imports Floats
begin

text \<open>
  The CUDA runtime library as the sources call it. The library is not part of the repository, so
  its functions are a parameter: a record of calls on an abstract driver state together with one
  observer of that state, and the documented behaviour the code relies on as the predicate
  \<open>cuda_laws\<close>. A small simulated runtime shows that the laws can hold. Here too is the
  repository's own \<open>cuda_check\<close> (cpp/include/cuda_db/memory/cuda_error.hpp).
\<close>

section \<open>Calls and observations\<close>

type_synonym cuda_status = nat
type_synonym stream = "64 word"

abbreviation (input) cudaSuccess :: cuda_status where
  "cudaSuccess \<equiv> 0"

text \<open>
  What can be observed: the allocations and streams that exist, the floats each block holds once
  the work queued so far has run, and the blocks that queued work of each stream still touches.
\<close>

record gview =
  dev_live :: "addr set"
  host_live :: "addr set"
  stream_live :: "stream set"
  dev_data :: "addr \<Rightarrow> f32 list"
  host_data :: "addr \<Rightarrow> f32 list"
  inflight :: "stream \<Rightarrow> addr set"

text \<open>A kernel reads two constant blocks and rewrites a data block.\<close>

type_synonym kernel = "f32 list \<Rightarrow> f32 list \<Rightarrow> f32 list \<Rightarrow> f32 list"

record 'g cuda_api =
  cudaMalloc :: "size_t \<Rightarrow> 'g \<Rightarrow> cuda_status \<times> addr \<times> 'g"
  cudaFree :: "addr \<Rightarrow> 'g \<Rightarrow> 'g"
  cudaHostAlloc :: "size_t \<Rightarrow> 'g \<Rightarrow> cuda_status \<times> addr \<times> 'g"
  cudaFreeHost :: "addr \<Rightarrow> 'g \<Rightarrow> 'g"
  cudaSetDevice :: "i32 \<Rightarrow> 'g \<Rightarrow> cuda_status \<times> 'g"
  cudaStreamCreate :: "'g \<Rightarrow> cuda_status \<times> stream \<times> 'g"
  cudaStreamDestroy :: "stream \<Rightarrow> 'g \<Rightarrow> 'g"
  cudaStreamSynchronize :: "stream \<Rightarrow> 'g \<Rightarrow> cuda_status \<times> 'g"
  cudaMemcpyAsyncH2D :: "addr \<Rightarrow> addr \<Rightarrow> size_t \<Rightarrow> stream \<Rightarrow> 'g \<Rightarrow> cuda_status \<times> 'g"
  cudaMemcpyAsyncD2H :: "addr \<Rightarrow> addr \<Rightarrow> size_t \<Rightarrow> stream \<Rightarrow> 'g \<Rightarrow> cuda_status \<times> 'g"
  cudaMemcpyToDevice :: "addr \<Rightarrow> f32 list \<Rightarrow> 'g \<Rightarrow> cuda_status \<times> 'g"
  cudaLaunch :: "kernel \<Rightarrow> addr \<Rightarrow> addr \<Rightarrow> addr \<Rightarrow> stream \<Rightarrow> 'g \<Rightarrow> cuda_status \<times> 'g"
  host_store :: "addr \<Rightarrow> f32 list \<Rightarrow> 'g \<Rightarrow> 'g"
  host_load :: "addr \<Rightarrow> nat \<Rightarrow> 'g \<Rightarrow> f32 list"
  cudaGetErrorString :: "cuda_status \<Rightarrow> string"
  view :: "'g \<Rightarrow> gview"

text \<open>The device context the code runs in: the runtime and its current state.\<close>

record 'g gpu =
  api :: "'g cuda_api"
  gst :: 'g

definition gview_of :: "'g gpu \<Rightarrow> gview" where
  "gview_of g = view (api g) (gst g)"

lemma gview_of_upd [simp]: "gview_of (g\<lparr>gst := s\<rparr>) = view (api g) s"
  by (simp add: gview_of_def)

section \<open>Checked calls\<close>

definition cuda_check :: "'g gpu \<Rightarrow> cuda_status \<Rightarrow> string \<Rightarrow> unit res" where
  "cuda_check g status what =
     (if status \<noteq> cudaSuccess
      then Throw (CudaError (what @ '': '' @ cudaGetErrorString (api g) status))
      else Ret ())"

definition checked :: "('g \<Rightarrow> cuda_status \<times> 'g) \<Rightarrow> string \<Rightarrow> ('g gpu, unit) cmd" where
  "checked call what g =
     (case call (gst g) of (status, g') \<Rightarrow> (cuda_check g status what, g\<lparr>gst := g'\<rparr>))"

definition checked_new :: "('g \<Rightarrow> cuda_status \<times> 'a \<times> 'g) \<Rightarrow> string \<Rightarrow> ('g gpu, 'a) cmd" where
  "checked_new call what g =
     (case call (gst g) of
        (status, x, g') \<Rightarrow> (res_bind (cuda_check g status what) (\<lambda>_. Ret x), g\<lparr>gst := g'\<rparr>))"

section \<open>Documented behaviour\<close>

text \<open>Floats in a block of so many bytes.\<close>

definition floats :: "size_t \<Rightarrow> nat" where
  "floats bytes = unat bytes div 4"

text \<open>
  Allocation returns a block that is not in use; a failed call allocates nothing; freeing gives
  the block back and leaves the others alone.
\<close>

definition malloc_law :: "'g cuda_api \<Rightarrow> bool" where
  "malloc_law a \<longleftrightarrow> (\<forall>n g c p g'. cudaMalloc a n g = (c, p, g') \<longrightarrow>
     (if c = cudaSuccess
      then p \<noteq> nullptr \<and> p \<notin> dev_live (view a g) \<and>
        (\<exists>d. length d = floats n \<and>
           view a g' = (view a g)\<lparr>dev_live := insert p (dev_live (view a g)),
             dev_data := (dev_data (view a g))(p := d)\<rparr>)
      else view a g' = view a g))"

definition host_alloc_law :: "'g cuda_api \<Rightarrow> bool" where
  "host_alloc_law a \<longleftrightarrow> (\<forall>n g c p g'. cudaHostAlloc a n g = (c, p, g') \<longrightarrow>
     (if c = cudaSuccess
      then p \<noteq> nullptr \<and> p \<notin> host_live (view a g) \<and>
        (\<exists>d. length d = floats n \<and>
           view a g' = (view a g)\<lparr>host_live := insert p (host_live (view a g)),
             host_data := (host_data (view a g))(p := d)\<rparr>)
      else view a g' = view a g))"

definition free_law :: "'g cuda_api \<Rightarrow> bool" where
  "free_law a \<longleftrightarrow>
     (\<forall>p g. p \<in> dev_live (view a g) \<longrightarrow>
        view a (cudaFree a p g) = (view a g)\<lparr>dev_live := dev_live (view a g) - {p}\<rparr>) \<and>
     (\<forall>p g. p \<in> host_live (view a g) \<longrightarrow>
        view a (cudaFreeHost a p g) = (view a g)\<lparr>host_live := host_live (view a g) - {p}\<rparr>)"

definition device_law :: "'g cuda_api \<Rightarrow> bool" where
  "device_law a \<longleftrightarrow> (\<forall>i g. view a (snd (cudaSetDevice a i g)) = view a g)"

text \<open>Streams: creation returns one that is not in use and is not the default stream \<open>0\<close>.\<close>

definition stream_law :: "'g cuda_api \<Rightarrow> bool" where
  "stream_law a \<longleftrightarrow>
     (\<forall>g c s g'. cudaStreamCreate a g = (c, s, g') \<longrightarrow>
        (if c = cudaSuccess
         then s \<noteq> 0 \<and> s \<notin> stream_live (view a g) \<and>
           view a g' = (view a g)\<lparr>stream_live := insert s (stream_live (view a g))\<rparr>
         else view a g' = view a g)) \<and>
     (\<forall>s g. view a (cudaStreamDestroy a s g) =
        (view a g)\<lparr>stream_live := stream_live (view a g) - {s}\<rparr>)"

text \<open>A block no other stream's queued work touches.\<close>

definition exclusive :: "gview \<Rightarrow> stream \<Rightarrow> addr \<Rightarrow> bool" where
  "exclusive v s p \<longleftrightarrow> (\<forall>s'. s' \<noteq> s \<longrightarrow> p \<notin> inflight v s')"

definition idle :: "gview \<Rightarrow> addr \<Rightarrow> bool" where
  "idle v p \<longleftrightarrow> (\<forall>s. p \<notin> inflight v s)"

text \<open>
  Work queued on one stream runs in the order it was issued. A copy within the bounds of two
  live blocks moves their first bytes; a kernel rewrites its data block; synchronising waits for
  the stream's queued work. A call that reports an error leaves the allocations as they were.
\<close>

definition h2d_law :: "'g cuda_api \<Rightarrow> bool" where
  "h2d_law a \<longleftrightarrow> (\<forall>d h n s g c g'. cudaMemcpyAsyncH2D a d h n s g = (c, g') \<longrightarrow>
     (let v = view a g in
      if c = cudaSuccess
      then d \<in> dev_live v \<longrightarrow> h \<in> host_live v \<longrightarrow> s \<in> stream_live v \<longrightarrow>
        floats n \<le> length (dev_data v d) \<longrightarrow> floats n \<le> length (host_data v h) \<longrightarrow>
        exclusive v s d \<longrightarrow> exclusive v s h \<longrightarrow>
        view a g' = v\<lparr>dev_data := (dev_data v)(d :=
            overwrite 0 (take (floats n) (host_data v h)) (dev_data v d)),
          inflight := (inflight v)(s := insert d (insert h (inflight v s)))\<rparr>
      else view a g' = v))"

definition d2h_law :: "'g cuda_api \<Rightarrow> bool" where
  "d2h_law a \<longleftrightarrow> (\<forall>h d n s g c g'. cudaMemcpyAsyncD2H a h d n s g = (c, g') \<longrightarrow>
     (let v = view a g in
      if c = cudaSuccess
      then d \<in> dev_live v \<longrightarrow> h \<in> host_live v \<longrightarrow> s \<in> stream_live v \<longrightarrow>
        floats n \<le> length (dev_data v d) \<longrightarrow> floats n \<le> length (host_data v h) \<longrightarrow>
        exclusive v s d \<longrightarrow> exclusive v s h \<longrightarrow>
        view a g' = v\<lparr>host_data := (host_data v)(h :=
            overwrite 0 (take (floats n) (dev_data v d)) (host_data v h)),
          inflight := (inflight v)(s := insert d (insert h (inflight v s)))\<rparr>
      else view a g' = v))"

definition memcpy_law :: "'g cuda_api \<Rightarrow> bool" where
  "memcpy_law a \<longleftrightarrow> (\<forall>d xs g c g'. cudaMemcpyToDevice a d xs g = (c, g') \<longrightarrow>
     (let v = view a g in
      if c = cudaSuccess
      then d \<in> dev_live v \<longrightarrow> length xs \<le> length (dev_data v d) \<longrightarrow> idle v d \<longrightarrow>
        view a g' = v\<lparr>dev_data := (dev_data v)(d := overwrite 0 xs (dev_data v d))\<rparr>
      else view a g' = v))"

definition launch_law :: "'g cuda_api \<Rightarrow> bool" where
  "launch_law a \<longleftrightarrow> (\<forall>k d m t s g c g'. cudaLaunch a k d m t s g = (c, g') \<longrightarrow>
     (let v = view a g in
      if c = cudaSuccess
      then d \<in> dev_live v \<longrightarrow> m \<in> dev_live v \<longrightarrow> t \<in> dev_live v \<longrightarrow> s \<in> stream_live v \<longrightarrow>
        d \<noteq> m \<longrightarrow> d \<noteq> t \<longrightarrow> exclusive v s d \<longrightarrow>
        view a g' = v\<lparr>dev_data := (dev_data v)(d :=
            k (dev_data v d) (dev_data v m) (dev_data v t)),
          inflight := (inflight v)(s := {d, m, t} \<union> inflight v s)\<rparr>
      else view a g' = v))"

definition sync_law :: "'g cuda_api \<Rightarrow> bool" where
  "sync_law a \<longleftrightarrow> (\<forall>s g c g'. cudaStreamSynchronize a s g = (c, g') \<longrightarrow>
     (let v = view a g in
      if c = cudaSuccess then view a g' = v\<lparr>inflight := (inflight v)(s := {})\<rparr>
      else view a g' = v))"

text \<open>The process reads and writes page-locked memory that no queued work touches.\<close>

definition host_law :: "'g cuda_api \<Rightarrow> bool" where
  "host_law a \<longleftrightarrow>
     (\<forall>h xs g. let v = view a g in
        h \<in> host_live v \<longrightarrow> length xs \<le> length (host_data v h) \<longrightarrow> idle v h \<longrightarrow>
        view a (host_store a h xs g) =
          v\<lparr>host_data := (host_data v)(h := overwrite 0 xs (host_data v h))\<rparr>) \<and>
     (\<forall>h n g. let v = view a g in
        h \<in> host_live v \<longrightarrow> n \<le> length (host_data v h) \<longrightarrow> idle v h \<longrightarrow>
        host_load a h n g = take n (host_data v h))"

definition cuda_laws :: "'g cuda_api \<Rightarrow> bool" where
  "cuda_laws a \<longleftrightarrow> malloc_law a \<and> host_alloc_law a \<and> free_law a \<and> device_law a \<and> stream_law a \<and>
     h2d_law a \<and> d2h_law a \<and> memcpy_law a \<and> launch_law a \<and> sync_law a \<and> host_law a"

text \<open>A runtime on which every call succeeds from a given state on.\<close>

definition copies_succeed :: "'g cuda_api \<Rightarrow> bool" where
  "copies_succeed a \<longleftrightarrow>
     (\<forall>d h n s g. fst (cudaMemcpyAsyncH2D a d h n s g) = cudaSuccess) \<and>
     (\<forall>h d n s g. fst (cudaMemcpyAsyncD2H a h d n s g) = cudaSuccess) \<and>
     (\<forall>k d m t s g. fst (cudaLaunch a k d m t s g) = cudaSuccess) \<and>
     (\<forall>s g. fst (cudaStreamSynchronize a s g) = cudaSuccess)"

section \<open>A simulated runtime\<close>

text \<open>
  Addresses are handed out in order and blocks start zero-filled; queued work runs at once but is
  remembered as in flight until its stream is synchronised. Allocation fails when the counter
  has run into an address that is still in use, and at a given limit.
\<close>

record sim =
  sim_next :: addr
  sim_limit :: addr
  sim_view :: gview

definition sim_malloc :: "size_t \<Rightarrow> sim \<Rightarrow> cuda_status \<times> addr \<times> sim" where
  "sim_malloc n g =
     (let p = sim_next g; v = sim_view g
      in if p = nullptr \<or> p \<in> dev_live v \<or> sim_limit g \<le> p then (2, nullptr, g)
         else (cudaSuccess, p, g\<lparr>sim_next := p + 1,
           sim_view := v\<lparr>dev_live := insert p (dev_live v),
             dev_data := (dev_data v)(p := replicate (floats n) fzero)\<rparr>\<rparr>))"

definition sim_host_alloc :: "size_t \<Rightarrow> sim \<Rightarrow> cuda_status \<times> addr \<times> sim" where
  "sim_host_alloc n g =
     (let p = sim_next g; v = sim_view g
      in if p = nullptr \<or> p \<in> host_live v \<or> sim_limit g \<le> p then (2, nullptr, g)
         else (cudaSuccess, p, g\<lparr>sim_next := p + 1,
           sim_view := v\<lparr>host_live := insert p (host_live v),
             host_data := (host_data v)(p := replicate (floats n) fzero)\<rparr>\<rparr>))"

definition sim_stream_create :: "sim \<Rightarrow> cuda_status \<times> stream \<times> sim" where
  "sim_stream_create g =
     (let s = sim_next g; v = sim_view g
      in if s = 0 \<or> s \<in> stream_live v \<or> sim_limit g \<le> s then (2, 0, g)
         else (cudaSuccess, s, g\<lparr>sim_next := s + 1,
           sim_view := v\<lparr>stream_live := insert s (stream_live v)\<rparr>\<rparr>))"

definition sim_upd :: "(gview \<Rightarrow> gview) \<Rightarrow> sim \<Rightarrow> cuda_status \<times> sim" where
  "sim_upd f g = (cudaSuccess, g\<lparr>sim_view := f (sim_view g)\<rparr>)"

definition sim_api :: "sim cuda_api" where
  "sim_api =
     \<lparr>cudaMalloc = sim_malloc,
      cudaFree = (\<lambda>p g. snd (sim_upd (\<lambda>v. v\<lparr>dev_live := dev_live v - {p}\<rparr>) g)),
      cudaHostAlloc = sim_host_alloc,
      cudaFreeHost = (\<lambda>p g. snd (sim_upd (\<lambda>v. v\<lparr>host_live := host_live v - {p}\<rparr>) g)),
      cudaSetDevice = (\<lambda>i g. (cudaSuccess, g)),
      cudaStreamCreate = sim_stream_create,
      cudaStreamDestroy = (\<lambda>s g. snd (sim_upd (\<lambda>v. v\<lparr>stream_live := stream_live v - {s}\<rparr>) g)),
      cudaStreamSynchronize = (\<lambda>s. sim_upd (\<lambda>v. v\<lparr>inflight := (inflight v)(s := {})\<rparr>)),
      cudaMemcpyAsyncH2D = (\<lambda>d h n s. sim_upd (\<lambda>v. v\<lparr>dev_data := (dev_data v)(d :=
          overwrite 0 (take (floats n) (host_data v h)) (dev_data v d)),
        inflight := (inflight v)(s := insert d (insert h (inflight v s)))\<rparr>)),
      cudaMemcpyAsyncD2H = (\<lambda>h d n s. sim_upd (\<lambda>v. v\<lparr>host_data := (host_data v)(h :=
          overwrite 0 (take (floats n) (dev_data v d)) (host_data v h)),
        inflight := (inflight v)(s := insert d (insert h (inflight v s)))\<rparr>)),
      cudaMemcpyToDevice = (\<lambda>d xs. sim_upd (\<lambda>v. v\<lparr>dev_data := (dev_data v)(d :=
          overwrite 0 xs (dev_data v d))\<rparr>)),
      cudaLaunch = (\<lambda>k d m t s. sim_upd (\<lambda>v. v\<lparr>dev_data := (dev_data v)(d :=
          k (dev_data v d) (dev_data v m) (dev_data v t)),
        inflight := (inflight v)(s := {d, m, t} \<union> inflight v s)\<rparr>)),
      host_store = (\<lambda>h xs g. snd (sim_upd (\<lambda>v. v\<lparr>host_data := (host_data v)(h :=
          overwrite 0 xs (host_data v h))\<rparr>) g)),
      host_load = (\<lambda>h n g. take n (host_data (sim_view g) h)),
      cudaGetErrorString = (\<lambda>_. ''out of memory''),
      view = sim_view\<rparr>"

definition empty_view :: gview where
  "empty_view = \<lparr>dev_live = {}, host_live = {}, stream_live = {}, dev_data = (\<lambda>_. []),
     host_data = (\<lambda>_. []), inflight = (\<lambda>_. {})\<rparr>"

definition sim_gpu :: "addr \<Rightarrow> sim gpu" where
  "sim_gpu limit = \<lparr>api = sim_api, gst = \<lparr>sim_next = 1, sim_limit = limit, sim_view = empty_view\<rparr>\<rparr>"

lemma sim_api_simps [simp]:
  "cudaMalloc sim_api = sim_malloc" "cudaHostAlloc sim_api = sim_host_alloc"
  "cudaFree sim_api p = (\<lambda>g. snd (sim_upd (\<lambda>v. v\<lparr>dev_live := dev_live v - {p}\<rparr>) g))"
  "cudaFreeHost sim_api p = (\<lambda>g. snd (sim_upd (\<lambda>v. v\<lparr>host_live := host_live v - {p}\<rparr>) g))"
  "cudaSetDevice sim_api i = (\<lambda>g. (cudaSuccess, g))"
  "cudaStreamCreate sim_api = sim_stream_create"
  "cudaStreamDestroy sim_api s = (\<lambda>g. snd (sim_upd (\<lambda>v. v\<lparr>stream_live := stream_live v - {s}\<rparr>) g))"
  "cudaStreamSynchronize sim_api s = sim_upd (\<lambda>v. v\<lparr>inflight := (inflight v)(s := {})\<rparr>)"
  "cudaGetErrorString sim_api c = ''out of memory''" "view sim_api = sim_view"
  by (simp_all add: sim_api_def)

lemma sim_gpu_simps [simp]:
  "api (sim_gpu l) = sim_api"
  "gst (sim_gpu l) = \<lparr>sim_next = 1, sim_limit = l, sim_view = empty_view\<rparr>"
  by (simp_all add: sim_gpu_def)

lemma sim_laws: "cuda_laws sim_api"
  unfolding cuda_laws_def malloc_law_def host_alloc_law_def free_law_def device_law_def
    stream_law_def h2d_law_def d2h_law_def memcpy_law_def launch_law_def sync_law_def host_law_def
  by (auto simp: sim_api_def sim_malloc_def sim_host_alloc_def sim_stream_create_def sim_upd_def
      Let_def split: if_splits)
    (rule exI, rule conjI, rule length_replicate, rule refl)+

lemma sim_copies_succeed: "copies_succeed sim_api"
  by (simp add: copies_succeed_def sim_api_def sim_upd_def)

lemmas sim_evals = sim_malloc_def sim_host_alloc_def sim_stream_create_def sim_upd_def empty_view_def
  checked_def checked_new_def cuda_check_def cbind_def cret_def cthrow_def

end
