(* ===== verification/Memory_Buffers.thy ===== *)
theory Memory_Buffers
  imports Cuda_Runtime "HOL-Library.Multiset"
begin

text \<open>
  The move-only owners of raw allocations, \<open>DeviceBuffer\<close> and \<open>PinnedBuffer\<close>
  (cpp/include/cuda_db/memory). What both promise is the locale \<open>raii_buffer\<close>: creating one
  allocates a block nobody else owns, destroying or overwriting one frees exactly its block, and
  moving transfers it. Its consequence, proved once: whatever variables a program creates,
  moves, overwrites and destroys, the blocks they hold are exactly the allocated ones and no block
  has two owners, so nothing leaks and nothing is freed twice.
\<close>

section \<open>DeviceBuffer\<close>

record DeviceBuffer =
  dev_ptr :: addr
  dev_bytes :: size_t

definition device_blank :: DeviceBuffer where
  "device_blank = \<lparr>dev_ptr = nullptr, dev_bytes = 0\<rparr>"

definition device_new :: "size_t \<Rightarrow> ('g gpu, DeviceBuffer) cmd" where
  "device_new bytes g =
     (if 0 < bytes
      then cbind (\<lambda>g. checked_new (cudaMalloc (api g) bytes) ''cudaMalloc'' g)
             (\<lambda>p. cret \<lparr>dev_ptr = p, dev_bytes = bytes\<rparr>) g
      else cret \<lparr>dev_ptr = nullptr, dev_bytes = bytes\<rparr> g)"

definition device_destroy :: "DeviceBuffer \<Rightarrow> 'g gpu \<Rightarrow> 'g gpu" where
  "device_destroy b g =
     (if dev_ptr b \<noteq> nullptr then g\<lparr>gst := cudaFree (api g) (dev_ptr b) (gst g)\<rparr> else g)"

text \<open>Move construction: the new object, and what is left of the source.\<close>

definition device_move :: "DeviceBuffer \<Rightarrow> DeviceBuffer \<times> DeviceBuffer" where
  "device_move other = (\<lparr>dev_ptr = dev_ptr other, dev_bytes = dev_bytes other\<rparr>, device_blank)"

text \<open>Move assignment; the flag says that both sides are the same object.\<close>

definition device_assign ::
    "bool \<Rightarrow> DeviceBuffer \<Rightarrow> DeviceBuffer \<Rightarrow> 'g gpu \<Rightarrow> (DeviceBuffer \<times> DeviceBuffer) \<times> 'g gpu" where
  "device_assign same this other g =
     (if same then ((this, other), g)
      else ((this\<lparr>dev_ptr := dev_ptr other, dev_bytes := dev_bytes other\<rparr>,
             other\<lparr>dev_ptr := nullptr, dev_bytes := 0\<rparr>),
            if dev_ptr this \<noteq> nullptr then g\<lparr>gst := cudaFree (api g) (dev_ptr this) (gst g)\<rparr> else g))"

definition device_empty :: "DeviceBuffer \<Rightarrow> bool" where
  "device_empty b \<longleftrightarrow> dev_ptr b = nullptr"

definition copy_from_host_async ::
    "DeviceBuffer \<Rightarrow> addr \<Rightarrow> size_t \<Rightarrow> stream \<Rightarrow> ('g gpu, unit) cmd" where
  "copy_from_host_async b src bytes s g =
     (if dev_bytes b < bytes
      then cthrow (CudaError ''copy_from_host_async: bytes exceeds buffer capacity'') g
      else checked (cudaMemcpyAsyncH2D (api g) (dev_ptr b) src bytes s) ''cudaMemcpyAsync (H2D)'' g)"

definition copy_to_host_async ::
    "DeviceBuffer \<Rightarrow> addr \<Rightarrow> size_t \<Rightarrow> stream \<Rightarrow> ('g gpu, unit) cmd" where
  "copy_to_host_async b dst bytes s g =
     (if dev_bytes b < bytes
      then cthrow (CudaError ''copy_to_host_async: bytes exceeds buffer capacity'') g
      else checked (cudaMemcpyAsyncD2H (api g) dst (dev_ptr b) bytes s) ''cudaMemcpyAsync (D2H)'' g)"

section \<open>PinnedBuffer\<close>

record PinnedBuffer =
  pin_ptr :: addr
  pin_bytes :: size_t

definition pinned_blank :: PinnedBuffer where
  "pinned_blank = \<lparr>pin_ptr = nullptr, pin_bytes = 0\<rparr>"

definition pinned_new :: "size_t \<Rightarrow> ('g gpu, PinnedBuffer) cmd" where
  "pinned_new bytes g =
     (if 0 < bytes
      then cbind (\<lambda>g. checked_new (cudaHostAlloc (api g) bytes) ''cudaHostAlloc'' g)
             (\<lambda>p. cret \<lparr>pin_ptr = p, pin_bytes = bytes\<rparr>) g
      else cret \<lparr>pin_ptr = nullptr, pin_bytes = bytes\<rparr> g)"

definition pinned_destroy :: "PinnedBuffer \<Rightarrow> 'g gpu \<Rightarrow> 'g gpu" where
  "pinned_destroy b g =
     (if pin_ptr b \<noteq> nullptr then g\<lparr>gst := cudaFreeHost (api g) (pin_ptr b) (gst g)\<rparr> else g)"

definition pinned_move :: "PinnedBuffer \<Rightarrow> PinnedBuffer \<times> PinnedBuffer" where
  "pinned_move other = (\<lparr>pin_ptr = pin_ptr other, pin_bytes = pin_bytes other\<rparr>, pinned_blank)"

definition pinned_assign ::
    "bool \<Rightarrow> PinnedBuffer \<Rightarrow> PinnedBuffer \<Rightarrow> 'g gpu \<Rightarrow> (PinnedBuffer \<times> PinnedBuffer) \<times> 'g gpu" where
  "pinned_assign same this other g =
     (if same then ((this, other), g)
      else ((this\<lparr>pin_ptr := pin_ptr other, pin_bytes := pin_bytes other\<rparr>,
             other\<lparr>pin_ptr := nullptr, pin_bytes := 0\<rparr>),
            if pin_ptr this \<noteq> nullptr
            then g\<lparr>gst := cudaFreeHost (api g) (pin_ptr this) (gst g)\<rparr> else g))"

definition pinned_empty :: "PinnedBuffer \<Rightarrow> bool" where
  "pinned_empty b \<longleftrightarrow> pin_ptr b = nullptr"

section \<open>Programs over buffer variables\<close>

text \<open>
  Statements on a list of variables: declare one, end the life of one, move-construct a new one,
  move-assign. A variable whose life has ended is left as a blank one; statements on variables
  that do not exist do nothing; a declaration whose constructor throws adds no variable.
\<close>

datatype bufop = BCreate size_t | BDestroy nat | BMove nat | BAssign nat nat

fun buf_step ::
    "'b \<Rightarrow> (size_t \<Rightarrow> ('s, 'b) cmd) \<Rightarrow> ('b \<Rightarrow> 's \<Rightarrow> 's) \<Rightarrow> ('b \<Rightarrow> 'b \<times> 'b) \<Rightarrow>
     (bool \<Rightarrow> 'b \<Rightarrow> 'b \<Rightarrow> 's \<Rightarrow> ('b \<times> 'b) \<times> 's) \<Rightarrow> bufop \<Rightarrow> 'b list \<times> 's \<Rightarrow> 'b list \<times> 's" where
  "buf_step blank create destroy move assign (BCreate n) (xs, s) =
     (case create n s of (Ret b, s') \<Rightarrow> (xs @ [b], s') | (_, s') \<Rightarrow> (xs, s'))"
| "buf_step blank create destroy move assign (BDestroy i) (xs, s) =
     (if i < length xs then (xs[i := blank], destroy (xs ! i) s) else (xs, s))"
| "buf_step blank create destroy move assign (BMove i) (xs, s) =
     (if i < length xs
      then (case move (xs ! i) of (new, old) \<Rightarrow> (xs[i := old] @ [new], s)) else (xs, s))"
| "buf_step blank create destroy move assign (BAssign i j) (xs, s) =
     (if i < length xs \<and> j < length xs
      then (case assign (i = j) (xs ! i) (xs ! j) s of
              ((this, other), s') \<Rightarrow> (xs[j := other, i := this], s'))
      else (xs, s))"

fun buf_run ::
    "(bufop \<Rightarrow> 'b list \<times> 's \<Rightarrow> 'b list \<times> 's) \<Rightarrow> bufop list \<Rightarrow> 'b list \<times> 's \<Rightarrow> 'b list \<times> 's" where
  "buf_run step [] c = c"
| "buf_run step (op # ops) c = buf_run step ops (step op c)"

text \<open>Every variable owns its own block, and together they own what was allocated since \<open>L\<close>.\<close>

definition owners :: "('b \<Rightarrow> addr) \<Rightarrow> addr set \<Rightarrow> 'b list \<Rightarrow> addr set \<Rightarrow> bool" where
  "owners ptr_of L xs live \<longleftrightarrow>
     distinct (filter (\<lambda>p. p \<noteq> nullptr) (map ptr_of xs)) \<and>
     (\<forall>p \<in> set (filter (\<lambda>p. p \<noteq> nullptr) (map ptr_of xs)). p \<notin> L) \<and>
     live = L \<union> set (filter (\<lambda>p. p \<noteq> nullptr) (map ptr_of xs))"

lemma owners_live:
  "owners ptr_of L xs live \<Longrightarrow> i < length xs \<Longrightarrow> ptr_of (xs ! i) \<noteq> nullptr \<Longrightarrow> ptr_of (xs ! i) \<in> live"
  by (auto simp: owners_def)

lemma owners_mset_cong:
  "mset (map ptr_of xs) = mset (map ptr_of ys) \<Longrightarrow> owners ptr_of L xs live = owners ptr_of L ys live"
proof -
  assume "mset (map ptr_of xs) = mset (map ptr_of ys)"
  then have "mset (filter (\<lambda>p. p \<noteq> nullptr) (map ptr_of xs)) = mset (filter (\<lambda>p. p \<noteq> nullptr) (map ptr_of ys))"
    by (simp only: mset_filter)
  from mset_eq_setD [OF this] mset_eq_imp_distinct_iff [OF this] show ?thesis
    by (simp only: owners_def)
qed

lemma owners_append:
  assumes "owners ptr_of L xs live" and "ptr_of b = nullptr \<or> ptr_of b \<notin> live"
  shows "owners ptr_of L (xs @ [b])
    (if ptr_of b = nullptr then live else insert (ptr_of b) live)"
  using assms by (auto simp: owners_def)

text \<open>The list with one element at the front is as good as the list itself.\<close>

lemma owners_rotate:
  assumes "i < length xs"
  shows "owners ptr_of L (xs[i := b]) live = owners ptr_of L (b # take i xs @ drop (Suc i) xs) live"
  using assms by (intro owners_mset_cong) (simp add: upd_conv_take_nth_drop)

lemma owners_blank_front:
  "owners ptr_of L (x # xs) live \<Longrightarrow> ptr_of b = nullptr \<Longrightarrow>
   owners ptr_of L (b # xs) (if ptr_of x = nullptr then live else live - {ptr_of x})"
  by (auto simp: owners_def)

lemma owners_blank:
  assumes "owners ptr_of L xs live" "i < length xs" "ptr_of b = nullptr"
  shows "owners ptr_of L (xs[i := b])
    (if ptr_of (xs ! i) = nullptr then live else live - {ptr_of (xs ! i)})"
proof -
  have "owners ptr_of L (xs ! i # take i xs @ drop (Suc i) xs) live"
    using owners_rotate [OF assms(2), of ptr_of L "xs ! i" live] assms(1) by simp
  from owners_blank_front [OF this assms(3)] show ?thesis
    by (simp only: owners_rotate [OF assms(2)])
qed

text \<open>Handing a block from one variable to a blank one.\<close>

lemma owners_hand_over:
  assumes "owners ptr_of L xs live" "i < length xs" "j < length xs" "i \<noteq> j"
    and "ptr_of (xs ! i) = nullptr" "ptr_of a = ptr_of (xs ! j)" "ptr_of b = nullptr"
  shows "owners ptr_of L (xs[j := b, i := a]) live"
proof -
  have "map ptr_of (xs[j := b, i := a]) =
      (map ptr_of xs)[j := map ptr_of xs ! i, i := map ptr_of xs ! j]"
    using assms by (simp add: map_update)
  then have "mset (map ptr_of (xs[j := b, i := a])) = mset (map ptr_of xs)"
    using assms(2,3) mset_swap [of i "map ptr_of xs" j] by simp
  then show ?thesis using assms(1) owners_mset_cong by blast
qed

locale raii_buffer =
  fixes ok :: "'s \<Rightarrow> bool"
    and live :: "'s \<Rightarrow> addr set"
    and ptr_of :: "'b \<Rightarrow> addr"
    and blank :: 'b
    and create :: "size_t \<Rightarrow> ('s, 'b) cmd"
    and destroy :: "'b \<Rightarrow> 's \<Rightarrow> 's"
    and move :: "'b \<Rightarrow> 'b \<times> 'b"
    and assign :: "bool \<Rightarrow> 'b \<Rightarrow> 'b \<Rightarrow> 's \<Rightarrow> ('b \<times> 'b) \<times> 's"
  assumes ptr_blank: "ptr_of blank = nullptr"
    and create_ret: "ok s \<Longrightarrow> create n s = (Ret b, s') \<Longrightarrow> ok s' \<and>
      (ptr_of b = nullptr \<or> ptr_of b \<notin> live s) \<and>
      live s' = (if ptr_of b = nullptr then live s else insert (ptr_of b) (live s))"
    and create_fails: "ok s \<Longrightarrow> create n s = (r, s') \<Longrightarrow> \<not> is_ret r \<Longrightarrow> ok s' \<and> live s' = live s"
    and destroy_frees: "ok s \<Longrightarrow> (ptr_of b \<noteq> nullptr \<longrightarrow> ptr_of b \<in> live s) \<Longrightarrow>
      ok (destroy b s) \<and>
      live (destroy b s) = (if ptr_of b = nullptr then live s else live s - {ptr_of b})"
    and move_hands_over: "ptr_of (fst (move b)) = ptr_of b \<and> ptr_of (snd (move b)) = nullptr"
    and assign_self: "assign True a b s = ((a, b), s)"
    and assign_other: "ok s \<Longrightarrow> (ptr_of a \<noteq> nullptr \<longrightarrow> ptr_of a \<in> live s) \<Longrightarrow>
      assign False a b s = ((a', b'), s') \<Longrightarrow> ok s' \<and> ptr_of a' = ptr_of b \<and>
      ptr_of b' = nullptr \<and>
      live s' = (if ptr_of a = nullptr then live s else live s - {ptr_of a})"
begin

lemma create_owners:
  assumes "ok s" "owners ptr_of L xs (live s)"
    and "buf_step blank create destroy move assign (BCreate n) (xs, s) = (xs', s')"
  shows "ok s' \<and> owners ptr_of L xs' (live s')"
proof -
  obtain r s1 where r: "create n s = (r, s1)" by fastforce
  show ?thesis
  proof (cases "is_ret r")
    case True
    then obtain b where "r = Ret b" by (auto simp: is_ret_iff)
    with r assms(3) have eq: "xs' = xs @ [b]" "s' = s1" by simp_all
    note cr = create_ret [OF assms(1) r [unfolded \<open>r = Ret b\<close>]]
    then show ?thesis using owners_append [OF assms(2), of b] eq by simp
  next
    case False
    with r assms(3) have "xs' = xs" "s' = s1" by (cases r; simp)+
    with create_fails [OF assms(1) r False] assms(2) show ?thesis by simp
  qed
qed

lemma destroy_owners:
  assumes "ok s" "owners ptr_of L xs (live s)" "i < length xs"
  shows "ok (destroy (xs ! i) s) \<and> owners ptr_of L (xs[i := blank]) (live (destroy (xs ! i) s))"
proof -
  have "ptr_of (xs ! i) \<noteq> nullptr \<longrightarrow> ptr_of (xs ! i) \<in> live s"
    using owners_live [OF assms(2,3)] by blast
  from destroy_frees [OF assms(1) this] owners_blank [OF assms(2,3) ptr_blank] show ?thesis by simp
qed

lemma move_owners:
  assumes "owners ptr_of L xs (live s)" "i < length xs" "move (xs ! i) = (new, old)"
  shows "owners ptr_of L (xs[i := old] @ [new]) (live s)"
proof -
  have p: "ptr_of new = ptr_of (xs ! i)" "ptr_of old = nullptr"
    using move_hands_over [of "xs ! i"] assms(3) by auto
  let ?L = "if ptr_of (xs ! i) = nullptr then live s else live s - {ptr_of (xs ! i)}"
  have "owners ptr_of L (xs[i := old]) ?L" using owners_blank [OF assms(1,2) p(2)] .
  from owners_append [OF this, of new] show ?thesis
    using owners_live [OF assms(1,2)] p(1)
    by (cases "ptr_of (xs ! i) = nullptr") (simp_all add: insert_absorb)
qed

lemma assign_owners:
  assumes "ok s" "owners ptr_of L xs (live s)" "i < length xs" "j < length xs" "i \<noteq> j"
    and a: "assign False (xs ! i) (xs ! j) s = ((a', b'), s1)"
  shows "ok s1 \<and> owners ptr_of L (xs[j := b', i := a']) (live s1)"
proof -
  have "ptr_of (xs ! i) \<noteq> nullptr \<longrightarrow> ptr_of (xs ! i) \<in> live s"
    using owners_live [OF assms(2,3)] by blast
  note ao = assign_other [OF assms(1) this a]
  have "owners ptr_of L (xs[i := blank]) (live s1)"
    using owners_blank [OF assms(2,3) ptr_blank] ao by simp
  from owners_hand_over [OF this, of i j a' b'] assms(3-5) ao ptr_blank
  have "owners ptr_of L (xs[i := blank, j := b', i := a']) (live s1)" by simp
  moreover have "xs[i := blank, j := b', i := a'] = xs[j := b', i := a']"
    using assms(5) by (simp add: list_update_swap)
  ultimately show ?thesis using ao by simp
qed

lemma step_owners:
  assumes "ok s" "owners ptr_of L xs (live s)"
    and step: "buf_step blank create destroy move assign op (xs, s) = (xs', s')"
  shows "ok s' \<and> owners ptr_of L xs' (live s')"
proof (cases op)
  case (BCreate n)
  with create_owners [OF assms(1,2)] step show ?thesis by blast
next
  case (BDestroy i)
  with destroy_owners [OF assms(1,2), of i] assms show ?thesis by (cases "i < length xs") auto
next
  case (BMove i)
  obtain new old where m: "move (xs ! i) = (new, old)" by fastforce
  with BMove move_owners [OF assms(2) _ m] assms show ?thesis by (cases "i < length xs") auto
next
  case (BAssign i j)
  obtain a' b' s1 where a: "assign False (xs ! i) (xs ! j) s = ((a', b'), s1)"
    by (cases "assign False (xs ! i) (xs ! j) s") auto
  show ?thesis
  proof (cases "i < length xs \<and> j < length xs")
    case True
    with BAssign assign_owners [OF assms(1,2) _ _ _ a] a assms show ?thesis
      by (cases "i = j") (simp_all add: assign_self)
  qed (use BAssign assms in \<open>simp split: if_splits\<close>)
qed

lemma run_owners:
  "ok s \<Longrightarrow> owners ptr_of L xs (live s) \<Longrightarrow>
   buf_run (buf_step blank create destroy move assign) ops (xs, s) = (xs', s') \<Longrightarrow>
   ok s' \<and> owners ptr_of L xs' (live s')"
proof (induction ops arbitrary: xs s)
  case (Cons op ops)
  obtain xs1 s1 where st: "buf_step blank create destroy move assign op (xs, s) = (xs1, s1)"
    by fastforce
  with Cons.prems(3) have "buf_run (buf_step blank create destroy move assign) ops (xs1, s1) = (xs', s')"
    by simp
  with Cons.IH [of s1 xs1] step_owners [OF Cons.prems(1,2) st] show ?case by blast
qed simp

end

section \<open>What the runtime gives the buffers\<close>

lemma cuda_lawsD:
  assumes "cuda_laws a"
  shows "malloc_law a" "host_alloc_law a" "free_law a" "device_law a" "stream_law a" "h2d_law a"
    "d2h_law a" "memcpy_law a" "launch_law a" "sync_law a" "host_law a"
  using assms by (simp_all add: cuda_laws_def)

lemma checked_new_cases:
  assumes "checked_new call what g = (r, g')"
  obtains c x s where "call (gst g) = (c, x, s)" "g' = g\<lparr>gst := s\<rparr>"
    "c = cudaSuccess \<longrightarrow> r = Ret x" "c \<noteq> cudaSuccess \<longrightarrow> (\<exists>m. r = Throw (CudaError m))"
proof -
  obtain c x s where call: "call (gst g) = (c, x, s)" by (cases "call (gst g)") auto
  with assms that [of c x s] show thesis
    by (cases "c = cudaSuccess") (auto simp: checked_new_def cuda_check_def)
qed

lemma device_alloc:
  assumes "cuda_laws (api g)" and "checked_new (cudaMalloc (api g) n) what g = (r, g')"
  shows "api g' = api g" and "is_ret r \<or> (\<exists>m. r = Throw (CudaError m)) \<and> gview_of g' = gview_of g"
    and "r = Ret p \<Longrightarrow> p \<noteq> nullptr \<and> p \<notin> dev_live (gview_of g) \<and>
      (\<exists>d. length d = floats n \<and> gview_of g' = (gview_of g)\<lparr>
         dev_live := insert p (dev_live (gview_of g)), dev_data := (dev_data (gview_of g))(p := d)\<rparr>)"
proof -
  obtain c x s where call: "cudaMalloc (api g) n (gst g) = (c, x, s)" and g': "g' = g\<lparr>gst := s\<rparr>"
    and r: "c = cudaSuccess \<longrightarrow> r = Ret x" "c \<noteq> cudaSuccess \<longrightarrow> (\<exists>m. r = Throw (CudaError m))"
    using checked_new_cases [OF assms(2)] by metis
  note law = cuda_lawsD(1) [OF assms(1), unfolded malloc_law_def, rule_format, OF call, folded gview_of_def]
  show "api g' = api g" using g' by simp
  show "is_ret r \<or> (\<exists>m. r = Throw (CudaError m)) \<and> gview_of g' = gview_of g"
    using law r g' by (cases "c = cudaSuccess") auto
  show "r = Ret p \<Longrightarrow> p \<noteq> nullptr \<and> p \<notin> dev_live (gview_of g) \<and>
      (\<exists>d. length d = floats n \<and> gview_of g' = (gview_of g)\<lparr>
         dev_live := insert p (dev_live (gview_of g)), dev_data := (dev_data (gview_of g))(p := d)\<rparr>)"
    using law r g' by (cases "c = cudaSuccess") auto
qed

lemma host_alloc:
  assumes "cuda_laws (api g)" and "checked_new (cudaHostAlloc (api g) n) what g = (r, g')"
  shows "api g' = api g" and "is_ret r \<or> (\<exists>m. r = Throw (CudaError m)) \<and> gview_of g' = gview_of g"
    and "r = Ret p \<Longrightarrow> p \<noteq> nullptr \<and> p \<notin> host_live (gview_of g) \<and>
      (\<exists>d. length d = floats n \<and> gview_of g' = (gview_of g)\<lparr>
         host_live := insert p (host_live (gview_of g)), host_data := (host_data (gview_of g))(p := d)\<rparr>)"
proof -
  obtain c x s where call: "cudaHostAlloc (api g) n (gst g) = (c, x, s)" and g': "g' = g\<lparr>gst := s\<rparr>"
    and r: "c = cudaSuccess \<longrightarrow> r = Ret x" "c \<noteq> cudaSuccess \<longrightarrow> (\<exists>m. r = Throw (CudaError m))"
    using checked_new_cases [OF assms(2)] by metis
  note law = cuda_lawsD(2) [OF assms(1), unfolded host_alloc_law_def, rule_format, OF call, folded gview_of_def]
  show "api g' = api g" using g' by simp
  show "is_ret r \<or> (\<exists>m. r = Throw (CudaError m)) \<and> gview_of g' = gview_of g"
    using law r g' by (cases "c = cudaSuccess") auto
  show "r = Ret p \<Longrightarrow> p \<noteq> nullptr \<and> p \<notin> host_live (gview_of g) \<and>
      (\<exists>d. length d = floats n \<and> gview_of g' = (gview_of g)\<lparr>
         host_live := insert p (host_live (gview_of g)), host_data := (host_data (gview_of g))(p := d)\<rparr>)"
    using law r g' by (cases "c = cudaSuccess") auto
qed

lemma checked_set_device:
  assumes "cuda_laws (api g)" and "checked (cudaSetDevice (api g) d) what g = (r, g')"
  shows "api g' = api g" "gview_of g' = gview_of g" "r = Ret () \<or> (\<exists>m. r = Throw (CudaError m))"
proof -
  obtain c s where call: "cudaSetDevice (api g) d (gst g) = (c, s)" by fastforce
  with assms(2) have g': "g' = g\<lparr>gst := s\<rparr>" and r: "r = cuda_check g c what"
    by (simp_all add: checked_def)
  show "api g' = api g" by (simp add: g')
  have "view (api g) s = view (api g) (gst g)"
    using cuda_lawsD(4) [OF assms(1)] call unfolding device_law_def by (metis snd_conv)
  then show "gview_of g' = gview_of g" by (simp add: g' gview_of_def)
  show "r = Ret () \<or> (\<exists>m. r = Throw (CudaError m))" by (simp add: r cuda_check_def)
qed

lemma device_freed:
  assumes "cuda_laws (api g)" and "p \<in> dev_live (gview_of g)"
  shows "view (api g) (cudaFree (api g) p (gst g)) =
    (gview_of g)\<lparr>dev_live := dev_live (gview_of g) - {p}\<rparr>"
  using cuda_lawsD(3) [OF assms(1)] assms(2) by (simp add: free_law_def gview_of_def)

lemma host_freed:
  assumes "cuda_laws (api g)" and "p \<in> host_live (gview_of g)"
  shows "view (api g) (cudaFreeHost (api g) p (gst g)) =
    (gview_of g)\<lparr>host_live := host_live (gview_of g) - {p}\<rparr>"
  using cuda_lawsD(3) [OF assms(1)] assms(2) by (simp add: free_law_def gview_of_def)

section \<open>Both classes keep the contract\<close>

lemma device_new_ret:
  assumes "cuda_laws (api g)" and "device_new n g = (Ret b, g')"
  shows "api g' = api g \<and> (dev_ptr b = nullptr \<or> dev_ptr b \<notin> dev_live (gview_of g)) \<and>
    dev_live (gview_of g') =
      (if dev_ptr b = nullptr then dev_live (gview_of g) else insert (dev_ptr b) (dev_live (gview_of g)))"
proof (cases "0 < n")
  case True
  with assms(2) obtain p where c: "checked_new (cudaMalloc (api g) n) ''cudaMalloc'' g = (Ret p, g')"
    and b: "dev_ptr b = p"
    by (auto simp: device_new_def cbind_eq_Ret cret_def)
  from device_alloc(1,3) [OF assms(1) c] b show ?thesis by fastforce
qed (use assms(2) in \<open>auto simp: device_new_def cret_def\<close>)

lemma device_new_fails:
  assumes "cuda_laws (api g)" and "device_new n g = (r, g')" and "\<not> is_ret r"
  shows "api g' = api g \<and> gview_of g' = gview_of g \<and> (\<exists>m. r = Throw (CudaError m))"
proof (cases "0 < n")
  case True
  obtain q g1 where c: "checked_new (cudaMalloc (api g) n) ''cudaMalloc'' g = (q, g1)" by fastforce
  with True assms(2,3) have "g' = g1 \<and> \<not> is_ret q \<and> (\<forall>e. q = Throw e \<longrightarrow> r = Throw e)"
    by (cases q) (auto simp: device_new_def cbind_def cret_def)
  with device_alloc(1,2) [OF assms(1) c] show ?thesis by auto
qed (use assms(2,3) in \<open>auto simp: device_new_def cret_def\<close>)

lemma pinned_new_ret:
  assumes "cuda_laws (api g)" and "pinned_new n g = (Ret b, g')"
  shows "api g' = api g \<and> (pin_ptr b = nullptr \<or> pin_ptr b \<notin> host_live (gview_of g)) \<and>
    host_live (gview_of g') =
      (if pin_ptr b = nullptr then host_live (gview_of g) else insert (pin_ptr b) (host_live (gview_of g)))"
proof (cases "0 < n")
  case True
  with assms(2) obtain p where c: "checked_new (cudaHostAlloc (api g) n) ''cudaHostAlloc'' g = (Ret p, g')"
    and b: "pin_ptr b = p"
    by (auto simp: pinned_new_def cbind_eq_Ret cret_def)
  from host_alloc(1,3) [OF assms(1) c] b show ?thesis by fastforce
qed (use assms(2) in \<open>auto simp: pinned_new_def cret_def\<close>)

lemma pinned_new_fails:
  assumes "cuda_laws (api g)" and "pinned_new n g = (r, g')" and "\<not> is_ret r"
  shows "api g' = api g \<and> gview_of g' = gview_of g \<and> (\<exists>m. r = Throw (CudaError m))"
proof (cases "0 < n")
  case True
  obtain q g1 where c: "checked_new (cudaHostAlloc (api g) n) ''cudaHostAlloc'' g = (q, g1)" by fastforce
  with True assms(2,3) have "g' = g1 \<and> \<not> is_ret q \<and> (\<forall>e. q = Throw e \<longrightarrow> r = Throw e)"
    by (cases q) (auto simp: pinned_new_def cbind_def cret_def)
  with host_alloc(1,2) [OF assms(1) c] show ?thesis by auto
qed (use assms(2,3) in \<open>auto simp: pinned_new_def cret_def\<close>)

interpretation dbuf: raii_buffer
  "\<lambda>g :: 'g gpu. cuda_laws (api g)" "\<lambda>g. dev_live (gview_of g)" dev_ptr device_blank
  device_new device_destroy device_move device_assign
proof unfold_locales
  fix g g' :: "'g gpu" and n b r
  show "cuda_laws (api g) \<Longrightarrow> device_new n g = (Ret b, g') \<Longrightarrow> cuda_laws (api g') \<and>
      (dev_ptr b = nullptr \<or> dev_ptr b \<notin> dev_live (gview_of g)) \<and> dev_live (gview_of g') =
      (if dev_ptr b = nullptr then dev_live (gview_of g) else insert (dev_ptr b) (dev_live (gview_of g)))"
    using device_new_ret [of g n b g'] by simp
  show "cuda_laws (api g) \<Longrightarrow> device_new n g = (r, g') \<Longrightarrow> \<not> is_ret r \<Longrightarrow>
      cuda_laws (api g') \<and> dev_live (gview_of g') = dev_live (gview_of g)"
    using device_new_fails [of g n r g'] by simp
qed (auto simp: device_blank_def device_destroy_def device_move_def device_assign_def device_freed)

interpretation pbuf: raii_buffer
  "\<lambda>g :: 'g gpu. cuda_laws (api g)" "\<lambda>g. host_live (gview_of g)" pin_ptr pinned_blank
  pinned_new pinned_destroy pinned_move pinned_assign
proof unfold_locales
  fix g g' :: "'g gpu" and n b r
  show "cuda_laws (api g) \<Longrightarrow> pinned_new n g = (Ret b, g') \<Longrightarrow> cuda_laws (api g') \<and>
      (pin_ptr b = nullptr \<or> pin_ptr b \<notin> host_live (gview_of g)) \<and> host_live (gview_of g') =
      (if pin_ptr b = nullptr then host_live (gview_of g) else insert (pin_ptr b) (host_live (gview_of g)))"
    using pinned_new_ret [of g n b g'] by simp
  show "cuda_laws (api g) \<Longrightarrow> pinned_new n g = (r, g') \<Longrightarrow> \<not> is_ret r \<Longrightarrow>
      cuda_laws (api g') \<and> host_live (gview_of g') = host_live (gview_of g)"
    using pinned_new_fails [of g n r g'] by simp
qed (auto simp: pinned_blank_def pinned_destroy_def pinned_move_def pinned_assign_def host_freed)

section \<open>Properties of the buffers\<close>

abbreviation run_device_buffers :: "bufop list \<Rightarrow> DeviceBuffer list \<times> 'g gpu \<Rightarrow> DeviceBuffer list \<times> 'g gpu" where
  "run_device_buffers \<equiv> buf_run (buf_step device_blank device_new device_destroy device_move device_assign)"

abbreviation run_pinned_buffers :: "bufop list \<Rightarrow> PinnedBuffer list \<times> 'g gpu \<Rightarrow> PinnedBuffer list \<times> 'g gpu" where
  "run_pinned_buffers \<equiv> buf_run (buf_step pinned_blank pinned_new pinned_destroy pinned_move pinned_assign)"

text \<open>
  C25: Whatever \<open>DeviceBuffer\<close> variables a program creates, moves, move-assigns (also to themselves) and
  destroys, with allocations failing at any point, every block is owned by exactly one variable and the
  device holds exactly those blocks besides the ones it held before: nothing leaks, nothing is freed twice.
\<close>

theorem device_buffers_own:
  assumes "cuda_laws (api g)" and "run_device_buffers ops ([], g) = (xs, g')"
  shows "owners dev_ptr (dev_live (gview_of g)) xs (dev_live (gview_of g'))"
proof -
  have "owners dev_ptr (dev_live (gview_of g)) [] (dev_live (gview_of g))" by (simp add: owners_def)
  with dbuf.run_owners [OF assms(1) _ assms(2)] show ?thesis by blast
qed

theorem device_buffers_own_witness:
  "dev_live (gview_of (snd (run_device_buffers [BCreate 8, BMove 0, BCreate 4, BAssign 1 2, BDestroy 1]
     ([], sim_gpu 100)))) = {}"
proof -
  let ?c = "run_device_buffers [BCreate 8, BMove 0, BCreate 4, BAssign 1 2, BDestroy 1] ([], sim_gpu 100)"
  have "map dev_ptr (fst ?c) = [0, 0, 0]"
    by (simp add: sim_evals device_new_def device_move_def device_assign_def device_blank_def
        device_destroy_def word_le_nat_alt)
  moreover obtain xs g where c: "?c = (xs, g)" by fastforce
  moreover from device_buffers_own [OF _ c] have "owners dev_ptr {} xs (dev_live (gview_of g))"
    using sim_laws by (simp add: empty_view_def gview_of_def)
  ultimately show ?thesis by (simp only: owners_def fst_conv snd_conv) simp
qed

text \<open>The same holds of \<open>PinnedBuffer\<close> variables and page-locked host memory.\<close>

theorem pinned_buffers_own:
  assumes "cuda_laws (api g)" and "run_pinned_buffers ops ([], g) = (xs, g')"
  shows "owners pin_ptr (host_live (gview_of g)) xs (host_live (gview_of g'))"
proof -
  have "owners pin_ptr (host_live (gview_of g)) [] (host_live (gview_of g))" by (simp add: owners_def)
  with pbuf.run_owners [OF assms(1) _ assms(2)] show ?thesis by blast
qed

theorem pinned_buffers_own_witness:
  "host_live (gview_of (snd (run_pinned_buffers [BCreate 8, BMove 0, BDestroy 1] ([], sim_gpu 100)))) = {}"
proof -
  let ?c = "run_pinned_buffers [BCreate 8, BMove 0, BDestroy 1] ([], sim_gpu 100)"
  have "map pin_ptr (fst ?c) = [0, 0]"
    by (simp add: sim_evals pinned_new_def pinned_move_def pinned_blank_def
        pinned_destroy_def word_le_nat_alt)
  moreover obtain xs g where c: "?c = (xs, g)" by fastforce
  moreover from pinned_buffers_own [OF _ c] have "owners pin_ptr {} xs (host_live (gview_of g))"
    using sim_laws by (simp add: empty_view_def gview_of_def)
  ultimately show ?thesis by (simp only: owners_def fst_conv snd_conv) simp
qed

end
