(* ===== verification/Normalize_Kernel.thy ===== *)
theory Normalize_Kernel
  imports Memory_Buffers
begin

text \<open>
  The normalisation kernel and its launcher (cpp/src/kernels/normalize.cu). A thread of the grid
  walks the flat tensor with a fixed stride; the kernel is the set of all element updates its threads
  make. Shown: the threads cover every element exactly once, so that every interleaving of their
  updates computes the same per-channel normalisation; that this is a row-wise operation on an NCHW
  batch; and what the launcher checks before it queues the kernel.
\<close>

section \<open>The kernel\<close>

definition kBlockSize :: nat where
  "kBlockSize = 256"

definition kMaxBlocks :: nat where
  "kMaxBlocks = 1024"

definition norm1 :: "f32 \<Rightarrow> f32 \<Rightarrow> f32 \<Rightarrow> f32" where
  "norm1 x m d = fdiv round32 (fsub round32 x m) d"

text \<open>One iteration of the loop body: rewrite element \<open>idx\<close> with the constants of its channel.\<close>

definition normalize_at :: "nat \<Rightarrow> nat \<Rightarrow> f32 list \<Rightarrow> f32 list \<Rightarrow> nat \<Rightarrow> f32 list \<Rightarrow> f32 list" where
  "normalize_at c hw mean stddev idx data =
     (let channel = (idx div hw) mod c
      in data[idx := norm1 (data ! idx) (mean ! channel) (stddev ! channel)])"

text \<open>The indices one thread visits, from its starting index on.\<close>

function thread_items :: "nat \<Rightarrow> nat \<Rightarrow> nat \<Rightarrow> nat list" where
  "thread_items elems stride idx =
     (if idx < elems \<and> 0 < stride then idx # thread_items elems stride (idx + stride) else [])"
  by pat_completeness auto

termination
  by (relation "measure (\<lambda>(elems, stride, idx). elems - idx)") auto

declare thread_items.simps [simp del]

text \<open>All iterations of all threads of a grid, thread by thread.\<close>

definition kernel_items :: "nat \<Rightarrow> nat \<Rightarrow> nat list" where
  "kernel_items blocks elems =
     concat (map (\<lambda>b. concat (map (\<lambda>t. thread_items elems (kBlockSize * blocks) (b * kBlockSize + t))
       [0..<kBlockSize])) [0..<blocks])"

definition normalize_kernel :: "nat \<Rightarrow> nat \<Rightarrow> nat \<Rightarrow> nat \<Rightarrow> kernel" where
  "normalize_kernel blocks elems c hw data mean stddev =
     fold (normalize_at c hw mean stddev) (kernel_items blocks elems) data"

section \<open>The launcher\<close>

text \<open>
  Beyond the checks of the code, a launch is undefined when the 64-bit index arithmetic overflows
  (the largest index a thread computes is \<open>elems - 1\<close> plus the stride) or when the threads would
  read or write outside the blocks.
\<close>

definition launch_normalize ::
    "addr \<Rightarrow> i32 \<Rightarrow> i32 \<Rightarrow> i32 \<Rightarrow> addr \<Rightarrow> addr \<Rightarrow> stream \<Rightarrow> ('g gpu, unit) cmd" where
  "launch_normalize data n c hw d_mean d_stddev s g =
     (if sint n < 0 \<or> sint c < 0 \<or> sint hw < 0
      then cthrow (CudaError ''launch_normalize: dimensions must be non-negative'') g
      else if n = 0 then cret () g
      else if c = 0 \<or> hw = 0
      then cthrow (CudaError ''launch_normalize: c and hw must be non-zero for a non-empty batch'') g
      else if data = nullptr \<or> d_mean = nullptr \<or> d_stddev = nullptr
      then cthrow (CudaError ''launch_normalize: null device pointer'') g
      else let elems = nat (sint n) * nat (sint c) * nat (sint hw);
               needed = (elems + kBlockSize - 1) div kBlockSize;
               blocks = min needed kMaxBlocks;
               v = gview_of g
           in if 2 ^ 63 \<le> elems - 1 + kBlockSize * blocks \<or> length (dev_data v data) < elems \<or>
                 length (dev_data v d_mean) < nat (sint c) \<or> length (dev_data v d_stddev) < nat (sint c)
              then (Undef, g)
              else checked (cudaLaunch (api g) (normalize_kernel blocks elems (nat (sint c)) (nat (sint hw)))
                     data d_mean d_stddev s) ''normalize_kernel launch'' g)"

section \<open>Every element exactly once\<close>

lemma thread_items_set:
  "0 < stride \<Longrightarrow> set (thread_items elems stride s) = {i. i < elems \<and> s \<le> i \<and> i mod stride = s mod stride}"
proof (induction elems stride s rule: thread_items.induct)
  case (1 elems stride s)
  show ?case
  proof (cases "s < elems")
    case True
    then have "set (thread_items elems stride s) =
        insert s {i. i < elems \<and> s + stride \<le> i \<and> i mod stride = s mod stride}"
      using 1 by (subst thread_items.simps) simp
    moreover have "i = s \<or> s + stride \<le> i" if "s \<le> i" "i mod stride = s mod stride" for i
    proof -
      from that obtain k where "i = s + stride * k"
        using mod_eq_dvd_iff_nat [of s i stride] by (metis dvd_def le_add_diff_inverse)
      then show ?thesis by (cases k) simp_all
    qed
    ultimately show ?thesis using True by auto
  next
    case False
    then show ?thesis by (subst thread_items.simps) auto
  qed
qed

lemma thread_items_distinct: "0 < stride \<Longrightarrow> distinct (thread_items elems stride s)"
proof (induction elems stride s rule: thread_items.induct)
  case (1 elems stride s)
  show ?case
  proof (cases "s < elems")
    case True
    have "s \<notin> set (thread_items elems stride (s + stride))"
      using 1(2) by (simp add: thread_items_set)
    with True 1 show ?thesis by (subst thread_items.simps) simp
  qed (subst thread_items.simps, simp)
qed

text \<open>Numbering the threads through: block by block, as many as the stride.\<close>

lemma concat_blocks:
  "concat (map (\<lambda>b. concat (map (\<lambda>t. f (b * m + t)) [0..<m])) [0..<k]) = concat (map f [0..<k * m])"
proof (induction k)
  case (Suc k)
  have "[0..<k * m + m] = [0..<k * m] @ [k * m..<k * m + m]" by (rule upt_add_eq_append) simp
  moreover have "[k * m..<k * m + m] = map (\<lambda>t. k * m + t) [0..<m]"
    using map_add_upt [of "k * m" m] by (simp add: add.commute)
  ultimately have "[0..<Suc k * m] = [0..<k * m] @ map (\<lambda>t. k * m + t) [0..<m]"
    by (simp add: add.commute)
  with Suc show ?case by (simp add: comp_def)
qed simp

lemma kernel_items_flat:
  "kernel_items blocks elems =
     concat (map (thread_items elems (kBlockSize * blocks)) [0..<kBlockSize * blocks])"
  unfolding kernel_items_def concat_blocks by (simp add: mult.commute)

lemma kernel_items_permutation:
  assumes "0 < blocks"
  shows "mset (kernel_items blocks elems) = mset [0..<elems]"
proof -
  let ?s = "kBlockSize * blocks" and ?f = "thread_items elems (kBlockSize * blocks)"
  have s: "0 < ?s" using assms by (simp add: kBlockSize_def)
  have "distinct (concat (map ?f (filter (\<lambda>t. ?f t \<noteq> []) [0..<?s])))"
  proof (rule distinct_concat)
    show "distinct (map ?f (filter (\<lambda>t. ?f t \<noteq> []) [0..<?s]))"
    proof (subst distinct_map, intro conjI inj_onI)
      fix t u assume t: "t \<in> set (filter (\<lambda>t. ?f t \<noteq> []) [0..<?s])"
        and u: "u \<in> set (filter (\<lambda>t. ?f t \<noteq> []) [0..<?s])" and eq: "?f t = ?f u"
      from t have "last (?f t) \<in> set (?f t)" by simp
      then obtain i where "i \<in> set (?f t)" by blast
      then have "i mod ?s = t mod ?s" "i mod ?s = u mod ?s"
        using eq thread_items_set [OF s] by (blast, simp only: mem_Collect_eq)
      with t u show "t = u" by simp
    qed simp
  next
    fix xs ys assume "xs \<in> set (map ?f (filter (\<lambda>t. ?f t \<noteq> []) [0..<?s]))"
      "ys \<in> set (map ?f (filter (\<lambda>t. ?f t \<noteq> []) [0..<?s]))" "xs \<noteq> ys"
    with s show "set xs \<inter> set ys = {}" by (auto simp: thread_items_set)
  qed (use s thread_items_distinct in auto)
  moreover have "concat (map ?f (filter (\<lambda>t. ?f t \<noteq> []) ts)) = concat (map ?f ts)" for ts
    by (induction ts) auto
  ultimately have "distinct (kernel_items blocks elems)" by (simp add: kernel_items_flat)
  moreover have "set (kernel_items blocks elems) = set [0..<elems]"
  proof -
    have "i mod ?s < ?s \<and> i mod ?s \<le> i" for i using s by (simp add: mod_less_eq_dividend)
    then show ?thesis using s by (fastforce simp: kernel_items_flat thread_items_set)
  qed
  ultimately show ?thesis by (metis distinct_upt set_eq_iff_mset_eq_distinct)
qed

section \<open>The result\<close>

text \<open>What the kernel is for: every element normalised with the constants of its channel.\<close>

definition normalize_ref :: "nat \<Rightarrow> nat \<Rightarrow> nat \<Rightarrow> kernel" where
  "normalize_ref elems c hw data mean stddev =
     map (\<lambda>i. norm1 (data ! i) (mean ! ((i div hw) mod c)) (stddev ! ((i div hw) mod c))) [0..<elems] @
     drop elems data"

lemma length_fold_normalize [simp]:
  "length (fold (normalize_at c hw mean stddev) items data) = length data"
  by (induction items arbitrary: data) (simp_all add: normalize_at_def Let_def)

lemma nth_fold_normalize:
  "distinct items \<Longrightarrow> (\<And>i. i \<in> set items \<Longrightarrow> i < length data) \<Longrightarrow> i < length data \<Longrightarrow>
   fold (normalize_at c hw mean stddev) items data ! i =
     (if i \<in> set items
      then norm1 (data ! i) (mean ! ((i div hw) mod c)) (stddev ! ((i div hw) mod c)) else data ! i)"
proof (induction items arbitrary: data)
  case (Cons k items)
  let ?d = "normalize_at c hw mean stddev k data"
  have "length ?d = length data" by (simp add: normalize_at_def Let_def)
  with Cons have "fold (normalize_at c hw mean stddev) items ?d ! i =
     (if i \<in> set items
      then norm1 (?d ! i) (mean ! ((i div hw) mod c)) (stddev ! ((i div hw) mod c)) else ?d ! i)"
    by simp
  moreover have "?d ! i = (if i = k
      then norm1 (data ! i) (mean ! ((i div hw) mod c)) (stddev ! ((i div hw) mod c)) else data ! i)"
    using Cons.prems by (simp add: normalize_at_def Let_def)
  ultimately show ?case using Cons.prems(1) by auto
qed simp

text \<open>Whatever the order in which the updates take effect.\<close>

lemma updates_normalize:
  assumes "mset items = mset [0..<elems]" and "elems \<le> length data"
  shows "fold (normalize_at c hw mean stddev) items data = normalize_ref elems c hw data mean stddev"
proof (rule nth_equalityI)
  have set: "set items = {0..<elems}" using mset_eq_setD [OF assms(1)] by simp
  have "distinct items" using mset_eq_imp_distinct_iff [OF assms(1)] by simp
  note nth = nth_fold_normalize [OF this]
  show "length (fold (normalize_at c hw mean stddev) items data) =
      length (normalize_ref elems c hw data mean stddev)"
    using assms(2) by (simp add: normalize_ref_def)
  fix i assume "i < length (fold (normalize_at c hw mean stddev) items data)"
  then have i: "i < length data" by simp
  then have "fold (normalize_at c hw mean stddev) items data ! i =
     (if i < elems
      then norm1 (data ! i) (mean ! ((i div hw) mod c)) (stddev ! ((i div hw) mod c)) else data ! i)"
    using assms(2) set nth [of data i] by auto
  then show "fold (normalize_at c hw mean stddev) items data ! i =
      normalize_ref elems c hw data mean stddev ! i"
    using i by (simp add: normalize_ref_def nth_append)
qed

lemma normalize_kernel_eq:
  "0 < blocks \<Longrightarrow> elems \<le> length data \<Longrightarrow>
   normalize_kernel blocks elems c hw data mean stddev = normalize_ref elems c hw data mean stddev"
  unfolding normalize_kernel_def by (intro updates_normalize kernel_items_permutation)

text \<open>On a batch of NCHW rows it is one function applied to every row.\<close>

definition norm_row :: "nat \<Rightarrow> f32 list \<Rightarrow> f32 list \<Rightarrow> f32 list \<Rightarrow> f32 list" where
  "norm_row hw mean stddev r =
     map (\<lambda>j. norm1 (r ! j) (mean ! ((j div hw) mod length mean)) (stddev ! ((j div hw) mod length mean)))
       [0..<length r]"

lemma length_norm_row [simp]: "length (norm_row hw mean stddev r) = length r"
  by (simp add: norm_row_def)

lemma channel_of_row: "0 < hw \<Longrightarrow> ((i * (c * hw) + j) div hw) mod c = (j div hw) mod c" for c :: nat
proof -
  assume "0 < hw"
  then have "(i * (c * hw) + j) div hw = j div hw + i * c"
    using div_mult_self3 [of hw j "i * c"] by (simp add: mult.assoc [symmetric] add.commute)
  then show ?thesis by simp
qed

lemma normalize_ref_append:
  assumes "length xs = i * (c * hw)" "0 < hw" "length r = c * hw" "length mean = c"
  shows "normalize_ref (i * (c * hw) + c * hw) c hw (xs @ r @ ys) mean stddev =
    take (i * (c * hw)) (normalize_ref (i * (c * hw)) c hw (xs @ r @ ys) mean stddev) @
    norm_row hw mean stddev r @ ys"
proof -
  let ?k = "i * (c * hw)"
  let ?g = "\<lambda>n. norm1 ((xs @ r @ ys) ! n) (mean ! ((n div hw) mod c)) (stddev ! ((n div hw) mod c))"
  have "[0..<?k + c * hw] = [0..<?k] @ map (\<lambda>j. ?k + j) [0..<c * hw]"
    using map_add_upt [of ?k "c * hw"] upt_add_eq_append [of 0 ?k "c * hw"] by (simp add: add.commute)
  then have "map ?g [0..<?k + c * hw] = map ?g [0..<?k] @ map (\<lambda>j. ?g (?k + j)) [0..<c * hw]"
    by (simp add: comp_def)
  moreover have "map (\<lambda>j. ?g (?k + j)) [0..<c * hw] = norm_row hw mean stddev r"
    using assms by (auto simp: norm_row_def nth_append channel_of_row)
  ultimately show ?thesis using assms by (simp add: normalize_ref_def)
qed

lemma normalize_ref_rows:
  assumes "0 < hw" "length mean = c" "\<And>r. r \<in> set rs \<Longrightarrow> length r = c * hw"
  shows "normalize_ref (length rs * (c * hw)) c hw (concat rs @ ys) mean stddev =
    concat (map (norm_row hw mean stddev) rs) @ ys"
  using assms(3)
proof (induction rs arbitrary: ys rule: rev_induct)
  case Nil
  then show ?case by (simp add: normalize_ref_def)
next
  case (snoc r rs)
  have len: "length (concat rs) = length rs * (c * hw)"
    using snoc.prems by (intro length_concat_uniform) simp
  have IH: "normalize_ref (length rs * (c * hw)) c hw (concat rs @ (r @ ys)) mean stddev =
      concat (map (norm_row hw mean stddev) rs) @ r @ ys"
    using snoc by simp
  have "length (concat (map (norm_row hw mean stddev) rs)) = length rs * (c * hw)"
    using snoc.prems by (subst length_concat_uniform [where n = "c * hw"]) auto
  with normalize_ref_append [OF len assms(1) _ assms(2), of r ys stddev] IH snoc.prems show ?case
    by (simp add: add.commute)
qed

section \<open>Launching it\<close>

lemma launched:
  assumes "cuda_laws (api g)" and "checked (cudaLaunch (api g) k d m t s) what g = (r, g')"
    and "d \<in> dev_live (gview_of g)" "m \<in> dev_live (gview_of g)" "t \<in> dev_live (gview_of g)"
    and "s \<in> stream_live (gview_of g)" "d \<noteq> m" "d \<noteq> t" "exclusive (gview_of g) s d"
  shows "api g' = api g"
    and "r = Ret () \<and> gview_of g' = (gview_of g)\<lparr>
        dev_data := (dev_data (gview_of g))(d :=
          k (dev_data (gview_of g) d) (dev_data (gview_of g) m) (dev_data (gview_of g) t)),
        inflight := (inflight (gview_of g))(s := {d, m, t} \<union> inflight (gview_of g) s)\<rparr> \<or>
      (\<exists>e. r = Throw (CudaError e)) \<and> gview_of g' = gview_of g"
    and "copies_succeed (api g) \<Longrightarrow> r = Ret ()"
proof -
  obtain c g1 where call: "cudaLaunch (api g) k d m t s (gst g) = (c, g1)" by fastforce
  with assms(2) have g': "g' = g\<lparr>gst := g1\<rparr>" and r: "r = cuda_check g c what"
    by (simp_all add: checked_def)
  note law = cuda_lawsD(9) [OF assms(1), unfolded launch_law_def, rule_format, OF call, folded gview_of_def]
  show "api g' = api g" by (simp add: g')
  show "r = Ret () \<and> gview_of g' = (gview_of g)\<lparr>
        dev_data := (dev_data (gview_of g))(d :=
          k (dev_data (gview_of g) d) (dev_data (gview_of g) m) (dev_data (gview_of g) t)),
        inflight := (inflight (gview_of g))(s := {d, m, t} \<union> inflight (gview_of g) s)\<rparr> \<or>
      (\<exists>e. r = Throw (CudaError e)) \<and> gview_of g' = gview_of g"
    using law assms(3-9) by (cases "c = cudaSuccess") (simp_all add: r g' cuda_check_def Let_def)
  show "copies_succeed (api g) \<Longrightarrow> r = Ret ()"
    using call by (auto simp: r cuda_check_def copies_succeed_def) (metis fst_conv)
qed

text \<open>The blocks and the stream a launch works on.\<close>

definition launchable :: "gview \<Rightarrow> nat \<Rightarrow> nat \<Rightarrow> addr \<Rightarrow> addr \<Rightarrow> addr \<Rightarrow> stream \<Rightarrow> bool" where
  "launchable v elems c d m t s \<longleftrightarrow>
     d \<in> dev_live v \<and> m \<in> dev_live v \<and> t \<in> dev_live v \<and> s \<in> stream_live v \<and> d \<noteq> m \<and> d \<noteq> t \<and>
     d \<noteq> nullptr \<and> m \<noteq> nullptr \<and> t \<noteq> nullptr \<and> exclusive v s d \<and>
     elems \<le> length (dev_data v d) \<and> c \<le> length (dev_data v m) \<and> c \<le> length (dev_data v t)"

lemma launch_normalize_runs:
  assumes laws: "cuda_laws (api g)"
    and dims: "sint n = int n'" "sint c = int c'" "sint hw = int hw'" "0 < n'" "0 < c'" "0 < hw'"
    and elems: "elems = n' * c' * hw'" "elems + kBlockSize * kMaxBlocks \<le> 2 ^ 63"
    and ok: "launchable (gview_of g) elems c' d m t s"
    and run: "launch_normalize d n c hw m t s g = (r, g')"
  shows "api g' = api g"
    and "r = Ret () \<and> gview_of g' = (gview_of g)\<lparr>
        dev_data := (dev_data (gview_of g))(d := normalize_ref elems c' hw'
          (dev_data (gview_of g) d) (dev_data (gview_of g) m) (dev_data (gview_of g) t)),
        inflight := (inflight (gview_of g))(s := {d, m, t} \<union> inflight (gview_of g) s)\<rparr> \<or>
      (\<exists>e. r = Throw (CudaError e)) \<and> gview_of g' = gview_of g"
    and "copies_succeed (api g) \<Longrightarrow> r = Ret ()"
proof -
  define blocks where "blocks = min ((elems + kBlockSize - 1) div kBlockSize) kMaxBlocks"
  have e0: "0 < elems" using dims elems(1) by simp
  have b0: "0 < blocks" using e0 by (simp add: blocks_def kBlockSize_def kMaxBlocks_def)
  have "kBlockSize * blocks \<le> kBlockSize * kMaxBlocks" by (simp add: blocks_def)
  then have fits: "\<not> 2 ^ 63 \<le> elems - 1 + kBlockSize * blocks" using elems(2) e0 by linarith
  let ?v = "gview_of g" and ?k = "normalize_kernel blocks elems c' hw'"
  have nz: "n \<noteq> 0" "c \<noteq> 0" "hw \<noteq> 0" using dims by auto
  have ptrs: "d \<noteq> nullptr" "m \<noteq> nullptr" "t \<noteq> nullptr" using ok by (simp_all add: launchable_def)
  have lens: "\<not> length (dev_data ?v d) < elems" "\<not> length (dev_data ?v m) < c'" "\<not> length (dev_data ?v t) < c'"
    using ok by (simp_all add: launchable_def)
  have dims': "nat (sint n) = n'" "nat (sint c) = c'" "nat (sint hw) = hw'"
    "\<not> sint n < 0" "\<not> sint c < 0" "\<not> sint hw < 0" using dims(1-3) by simp_all
  have "launch_normalize d n c hw m t s g = checked (cudaLaunch (api g) ?k d m t s) ''normalize_kernel launch'' g"
    by (simp only: launch_normalize_def dims' nz ptrs Let_def elems(1) [symmetric] blocks_def [symmetric] fits lens
        if_False simp_thms)
  with run have c: "checked (cudaLaunch (api g) ?k d m t s) ''normalize_kernel launch'' g = (r, g')" by simp
  have "?k (dev_data ?v d) (dev_data ?v m) (dev_data ?v t) =
      normalize_ref elems c' hw' (dev_data ?v d) (dev_data ?v m) (dev_data ?v t)"
    using ok by (intro normalize_kernel_eq b0) (simp add: launchable_def)
  note k = this
  have "d \<in> dev_live ?v" "m \<in> dev_live ?v" "t \<in> dev_live ?v" "s \<in> stream_live ?v" "d \<noteq> m" "d \<noteq> t"
    "exclusive ?v s d" using ok by (simp_all add: launchable_def)
  from launched [OF laws c this, unfolded k]
  show "api g' = api g"
    and "r = Ret () \<and> gview_of g' = (gview_of g)\<lparr>
        dev_data := (dev_data (gview_of g))(d := normalize_ref elems c' hw'
          (dev_data (gview_of g) d) (dev_data (gview_of g) m) (dev_data (gview_of g) t)),
        inflight := (inflight (gview_of g))(s := {d, m, t} \<union> inflight (gview_of g) s)\<rparr> \<or>
      (\<exists>e. r = Throw (CudaError e)) \<and> gview_of g' = gview_of g"
    and "copies_succeed (api g) \<Longrightarrow> r = Ret ()"
    by blast+
qed

section \<open>Properties of the kernel\<close>

text \<open>
  C22: Whatever the order in which the updates of the grid's threads take effect, and for any number of
  blocks, the kernel normalises each of the first \<open>elems\<close> elements exactly once with the mean and
  deviation of its channel, and touches nothing else.
\<close>

theorem kernel_any_interleaving:
  assumes "0 < blocks" and "elems \<le> length data" and "mset items = mset (kernel_items blocks elems)"
  shows "fold (normalize_at c hw mean stddev) items data = normalize_ref elems c hw data mean stddev"
  using assms(3) kernel_items_permutation [OF assms(1), of elems] updates_normalize [OF _ assms(2)] by simp

theorem kernel_any_interleaving_witness:
  "fold (normalize_at 1 2 [fzero] [Fin False 1]) (rev (kernel_items 2 1)) [Fin False 3, Fin False 5] =
   normalize_ref 1 1 2 [Fin False 3, Fin False 5] [fzero] [Fin False 1]"
  using kernel_any_interleaving [of 2 1 "[Fin False 3, Fin False 5]" "rev (kernel_items 2 1)" 1 2 "[fzero]" "[Fin False 1]"]
  by simp

text \<open>
  On an NCHW batch the kernel is a function of each row alone: the batch of normalised rows is the
  normalised batch.
\<close>

theorem kernel_row_wise:
  assumes "0 < blocks" "0 < hw" "length mean = c" "\<forall>r \<in> set rs. length r = c * hw"
  shows "normalize_kernel blocks (length rs * (c * hw)) c hw (concat rs) mean stddev =
    concat (map (norm_row hw mean stddev) rs)"
proof -
  have rs: "\<And>r. r \<in> set rs \<Longrightarrow> length r = c * hw" using assms(4) by blast
  have "length (concat rs) = length rs * (c * hw)" using rs by (intro length_concat_uniform)
  then have "normalize_kernel blocks (length rs * (c * hw)) c hw (concat rs) mean stddev =
      normalize_ref (length rs * (c * hw)) c hw (concat rs) mean stddev"
    by (intro normalize_kernel_eq [OF assms(1)]) (simp only: order_refl)
  with normalize_ref_rows [OF assms(2,3) rs, where ys = "[]" and stddev = stddev] show ?thesis
    by (simp only: append_Nil2)
qed

theorem kernel_row_wise_witness:
  "normalize_kernel 3 (length [[fzero, fzero], [Fin False 1, fzero]] * (2 * 1)) 2 1
     (concat [[fzero, fzero], [Fin False 1, fzero]]) [fzero, fzero] [Fin False 1, Fin False 1] =
   concat (map (norm_row 1 [fzero, fzero] [Fin False 1, Fin False 1]) [[fzero, fzero], [Fin False 1, fzero]])"
  by (rule kernel_row_wise) simp_all

text \<open>
  C35: The launcher checks before it acts: negative dimensions, an empty plane or channel set for a
  non-empty batch, and null pointers are reported as \<open>CudaError\<close> with the device untouched, while an
  empty batch is accepted as a no-op even with null pointers.
\<close>

theorem launch_guards:
  "(sint n < 0 \<or> sint c < 0 \<or> sint hw < 0 \<or> n \<noteq> 0 \<and> (c = 0 \<or> hw = 0 \<or> d = 0 \<or> m = 0 \<or> t = 0) \<longrightarrow>
     (\<exists>e. launch_normalize d n c hw m t s g = (Throw (CudaError e), g))) \<and>
   (n = 0 \<and> 0 \<le> sint c \<and> 0 \<le> sint hw \<longrightarrow> launch_normalize d n c hw m t s g = (Ret (), g))"
  by (auto simp: launch_normalize_def cthrow_def cret_def)

theorem launch_guards_witness:
  "launch_normalize 0 0 3 4 0 0 0 (sim_gpu 1) = (Ret (), sim_gpu 1)"
  using launch_guards [of 0 3 4 0 0 0 0 "sim_gpu 1"] by simp

end
