(* ===== verification/Stream_Pool.thy ===== *)
theory Stream_Pool
  imports Memory_Buffers
begin

text \<open>
  \<open>CudaStreamPool\<close> (cpp/src/kernels/cuda_stream_pool.cpp): a fixed set of streams handed out round
  robin by a wrapping 64-bit cursor. Shown: construction yields distinct new streams and destruction
  gives them back, any window of as many calls as there are streams uses each stream once, and
  what a construction that fails part of the way leaves behind.
\<close>

section \<open>Operations\<close>

record CudaStreamPool =
  streams :: "stream list"
  stream_device :: i32
  cursor :: size_t

text \<open>
  The creation loop. A failure leaves the loop with the streams made so far still existing: the
  vector that named them is gone and the destructor of the unfinished object does not run.
\<close>

fun create_streams :: "nat \<Rightarrow> stream list \<Rightarrow> ('g gpu, stream list) cmd" where
  "create_streams 0 acc g = (Ret acc, g)"
| "create_streams (Suc n) acc g =
     cbind (\<lambda>g. checked_new (cudaStreamCreate (api g)) ''cudaStreamCreateWithFlags'' g)
       (\<lambda>s. create_streams n (acc @ [s])) g"

text \<open>\<open>reserve\<close> throws beyond the largest vector of 8-byte handles.\<close>

definition max_streams :: nat where
  "max_streams = 2 ^ 60 - 1"

definition stream_pool_new :: "size_t \<Rightarrow> i32 \<Rightarrow> ('g gpu, CudaStreamPool) cmd" where
  "stream_pool_new n_streams d g =
     (if n_streams = 0 then cthrow (InvalidArgument ''CudaStreamPool: count must be at least 1'') g
      else cbind (\<lambda>g. checked (cudaSetDevice (api g) d) ''cudaSetDevice'' g)
             (\<lambda>_. if max_streams < unat n_streams then cthrow (LengthError ''vector::reserve'')
                  else cbind (create_streams (unat n_streams) [])
                         (\<lambda>ss. cret \<lparr>streams = ss, stream_device = d, cursor = 0\<rparr>)) g)"

fun destroy_streams :: "stream list \<Rightarrow> 'g gpu \<Rightarrow> 'g gpu" where
  "destroy_streams [] g = g"
| "destroy_streams (s # ss) g = destroy_streams ss (g\<lparr>gst := cudaStreamDestroy (api g) s (gst g)\<rparr>)"

definition stream_pool_destroy :: "CudaStreamPool \<Rightarrow> 'g gpu \<Rightarrow> 'g gpu" where
  "stream_pool_destroy p g = destroy_streams (streams p) g"

text \<open>A remainder by zero is undefined.\<close>

definition stream_next :: "CudaStreamPool \<Rightarrow> (stream \<times> CudaStreamPool) res" where
  "stream_next p =
     (if streams p = [] then Undef
      else Ret (streams p ! (unat (cursor p) mod length (streams p)), p\<lparr>cursor := cursor p + 1\<rparr>))"

definition stream_at :: "size_t \<Rightarrow> CudaStreamPool \<Rightarrow> stream res" where
  "stream_at i p =
     (if length (streams p) \<le> unat i then Throw (OutOfRange ''CudaStreamPool::at: index out of range'')
      else Ret (streams p ! unat i))"

definition stream_pool_size :: "CudaStreamPool \<Rightarrow> size_t" where
  "stream_pool_size p = vsize (streams p)"

fun synchronize_all :: "stream list \<Rightarrow> ('g gpu, unit) cmd" where
  "synchronize_all [] g = (Ret (), g)"
| "synchronize_all (s # ss) g =
     cbind (\<lambda>g. checked (cudaStreamSynchronize (api g) s) ''cudaStreamSynchronize'' g)
       (\<lambda>_. synchronize_all ss) g"

text \<open>Several calls of \<open>next\<close> in a row.\<close>

fun stream_nexts :: "nat \<Rightarrow> CudaStreamPool \<Rightarrow> stream list res" where
  "stream_nexts 0 p = Ret []"
| "stream_nexts (Suc k) p =
     res_bind (stream_next p) (\<lambda>(s, p'). res_bind (stream_nexts k p') (\<lambda>ss. Ret (s # ss)))"

section \<open>Construction and destruction\<close>

lemma checked_sync:
  assumes "cuda_laws (api g)" and "checked (cudaStreamSynchronize (api g) s) what g = (r, g')"
  shows "api g' = api g"
    and "r = Ret () \<and> gview_of g' = (gview_of g)\<lparr>inflight := (inflight (gview_of g))(s := {})\<rparr> \<or>
      (\<exists>m. r = Throw (CudaError m)) \<and> gview_of g' = gview_of g"
proof -
  obtain c g1 where call: "cudaStreamSynchronize (api g) s (gst g) = (c, g1)" by fastforce
  with assms(2) have g': "g' = g\<lparr>gst := g1\<rparr>" and r: "r = cuda_check g c what"
    by (simp_all add: checked_def)
  note law = cuda_lawsD(10) [OF assms(1), unfolded sync_law_def, rule_format, OF call, folded gview_of_def]
  show "api g' = api g" by (simp add: g')
  show "r = Ret () \<and> gview_of g' = (gview_of g)\<lparr>inflight := (inflight (gview_of g))(s := {})\<rparr> \<or>
      (\<exists>m. r = Throw (CudaError m)) \<and> gview_of g' = gview_of g"
    using law by (cases "c = cudaSuccess") (simp_all add: r g' cuda_check_def Let_def)
qed

lemma stream_created:
  assumes "cuda_laws (api g)" and "checked_new (cudaStreamCreate (api g)) what g = (r, g')"
  shows "api g' = api g \<and>
    ((\<exists>s. r = Ret s \<and> s \<noteq> 0 \<and> s \<notin> stream_live (gview_of g) \<and>
        gview_of g' = (gview_of g)\<lparr>stream_live := insert s (stream_live (gview_of g))\<rparr>) \<or>
     (\<exists>m. r = Throw (CudaError m)) \<and> gview_of g' = gview_of g)"
proof -
  obtain c x s where call: "cudaStreamCreate (api g) (gst g) = (c, x, s)" and g': "g' = g\<lparr>gst := s\<rparr>"
    and r: "c = cudaSuccess \<longrightarrow> r = Ret x" "c \<noteq> cudaSuccess \<longrightarrow> (\<exists>m. r = Throw (CudaError m))"
    using checked_new_cases [OF assms(2)] by metis
  have "if c = cudaSuccess
    then x \<noteq> 0 \<and> x \<notin> stream_live (gview_of g) \<and>
      view (api g) s = (gview_of g)\<lparr>stream_live := insert x (stream_live (gview_of g))\<rparr>
    else view (api g) s = gview_of g"
    using cuda_lawsD(5) [OF assms(1)] call unfolding stream_law_def gview_of_def by blast
  with r g' show ?thesis by (cases "c = cudaSuccess") simp_all
qed

text \<open>The loop adds the streams it made to those that exist, also when it fails.\<close>

lemma create_streams_live:
  assumes "cuda_laws (api g)" and "create_streams n acc g = (r, g')"
  shows "api g' = api g \<and> (\<exists>new. distinct new \<and> set new \<inter> stream_live (gview_of g) = {} \<and>
    gview_of g' = (gview_of g)\<lparr>stream_live := set new \<union> stream_live (gview_of g)\<rparr> \<and>
    (r = Ret (acc @ new) \<and> length new = n \<or> (\<exists>m. r = Throw (CudaError m)) \<and> length new < n))"
  using assms
proof (induction n arbitrary: acc g)
  case 0
  then show ?case by (intro conjI exI [of _ "[]"]) auto
next
  case (Suc n)
  obtain q g1 where c: "checked_new (cudaStreamCreate (api g)) ''cudaStreamCreateWithFlags'' g = (q, g1)"
    by fastforce
  note sc = stream_created [OF Suc.prems(1) c]
  from sc consider (made) s where "q = Ret s" "s \<notin> stream_live (gview_of g)"
      "gview_of g1 = (gview_of g)\<lparr>stream_live := insert s (stream_live (gview_of g))\<rparr>"
    | (failed) m where "q = Throw (CudaError m)" "gview_of g1 = gview_of g" by blast
  then show ?case
  proof cases
    case made
    have "create_streams n (acc @ [s]) g1 = (r, g')" using Suc.prems(2) c made by (simp add: cbind_def)
    moreover have "cuda_laws (api g1)" using sc Suc.prems(1) by simp
    ultimately obtain new where new: "api g' = api g1" "distinct new"
      "set new \<inter> stream_live (gview_of g1) = {}"
      "gview_of g' = (gview_of g1)\<lparr>stream_live := set new \<union> stream_live (gview_of g1)\<rparr>"
      "r = Ret ((acc @ [s]) @ new) \<and> length new = n \<or> (\<exists>m. r = Throw (CudaError m)) \<and> length new < n"
      using Suc.IH by blast
    with made sc show ?thesis by (intro conjI exI [of _ "s # new"]) auto
  next
    case failed
    then have "r = Throw (CudaError m)" "g' = g1" using Suc.prems(2) c by (simp_all add: cbind_def)
    with failed sc show ?thesis by (intro conjI exI [of _ "[]"]) auto
  qed
qed

lemma destroy_streams_view:
  assumes "cuda_laws (api g)"
  shows "api (destroy_streams ss g) = api g \<and>
    gview_of (destroy_streams ss g) = (gview_of g)\<lparr>stream_live := stream_live (gview_of g) - set ss\<rparr>"
  using assms
proof (induction ss arbitrary: g)
  case (Cons s ss)
  let ?g = "g\<lparr>gst := cudaStreamDestroy (api g) s (gst g)\<rparr>"
  have "gview_of ?g = (gview_of g)\<lparr>stream_live := stream_live (gview_of g) - {s}\<rparr>"
    using cuda_lawsD(5) [OF Cons.prems] by (simp add: stream_law_def gview_of_def)
  with Cons.IH [of ?g] Cons.prems show ?case by (simp add: Diff_insert2 [symmetric])
qed simp

lemma stream_pool_new_ret:
  assumes laws: "cuda_laws (api g)" and new: "stream_pool_new n_streams d g = (Ret p, g')"
  shows "length (streams p) = unat n_streams" "streams p \<noteq> []" "distinct (streams p)"
    "set (streams p) \<inter> stream_live (gview_of g) = {}" "cursor p = 0" "api g' = api g"
    "gview_of g' = (gview_of g)\<lparr>stream_live := set (streams p) \<union> stream_live (gview_of g)\<rparr>"
proof -
  from new obtain g1 ss where c0: "n_streams \<noteq> 0"
    and sd: "checked (cudaSetDevice (api g) d) ''cudaSetDevice'' g = (Ret (), g1)"
    and cs: "create_streams (unat n_streams) [] g1 = (Ret ss, g')"
    and p: "p = \<lparr>streams = ss, stream_device = d, cursor = 0\<rparr>"
    by (auto simp: stream_pool_new_def cbind_eq_Ret cthrow_def cret_def split: if_splits)
  note g1 = checked_set_device [OF laws sd]
  have "cuda_laws (api g1)" using laws g1 by simp
  from create_streams_live [OF this cs]
  have "api g' = api g1" "distinct ss" "set ss \<inter> stream_live (gview_of g1) = {}" "length ss = unat n_streams"
    "gview_of g' = (gview_of g1)\<lparr>stream_live := set ss \<union> stream_live (gview_of g1)\<rparr>" by auto
  with g1 p c0 show "length (streams p) = unat n_streams" "streams p \<noteq> []" "distinct (streams p)"
    "set (streams p) \<inter> stream_live (gview_of g) = {}" "cursor p = 0" "api g' = api g"
    "gview_of g' = (gview_of g)\<lparr>stream_live := set (streams p) \<union> stream_live (gview_of g)\<rparr>"
    by (auto simp: unat_eq_zero)
qed

section \<open>Round robin\<close>

text \<open>Wrapping of the cursor is harmless when the number of streams divides 2 to the 64.\<close>

lemma stream_nexts_eq:
  assumes "streams p \<noteq> []"
    and "unat (cursor p) + k \<le> 2 ^ 64 \<or> length (streams p) dvd 2 ^ 64"
  shows "stream_nexts k p =
    Ret (map (\<lambda>i. streams p ! ((unat (cursor p) + i) mod length (streams p))) [0..<k])"
  using assms
proof (induction k arbitrary: p)
  case (Suc k)
  let ?p = "p\<lparr>cursor := cursor p + 1\<rparr>" and ?n = "length (streams p)"
  have wrap: "unat (cursor p + 1) = (unat (cursor p) + 1) mod 2 ^ 64"
    by (simp add: unat_word_ariths)
  have idx: "(unat (cursor p + 1) + i) mod ?n = (unat (cursor p) + Suc i) mod ?n" if "i < k" for i
  proof (cases "?n dvd 2 ^ 64")
    case True
    then have "(unat (cursor p) + 1) mod 2 ^ 64 mod ?n = (unat (cursor p) + 1) mod ?n"
      by (rule mod_mod_cancel)
    then have "((unat (cursor p) + 1) mod 2 ^ 64 + i) mod ?n = (unat (cursor p) + 1 + i) mod ?n"
      by (rule mod_add_cong) simp
    then show ?thesis by (simp only: wrap) simp
  next
    case False
    then have "unat (cursor p) + 1 < 2 ^ 64" using Suc.prems(2) that by simp
    then show ?thesis by (simp add: wrap)
  qed
  have "unat (cursor p + 1) + k \<le> 2 ^ 64 \<or> ?n dvd 2 ^ 64"
  proof (cases "unat (cursor p) + 1 < 2 ^ 64")
    case True
    then show ?thesis using Suc.prems(2) by (auto simp: wrap)
  next
    case False
    then have "k = 0 \<or> ?n dvd 2 ^ 64" using Suc.prems(2) by auto
    then show ?thesis using unsigned_less [of "cursor p + 1", where ?'a = nat] by auto
  qed
  with Suc.IH [of ?p] Suc.prems(1)
  have "stream_nexts k ?p = Ret (map (\<lambda>i. streams p ! ((unat (cursor p + 1) + i) mod ?n)) [0..<k])"
    by simp
  moreover have "map (\<lambda>i. streams p ! ((unat (cursor p + 1) + i) mod ?n)) [0..<k] =
      map (\<lambda>i. streams p ! ((unat (cursor p) + i) mod ?n)) [Suc 0..<Suc k]"
    using idx by (simp add: map_Suc_upt [symmetric] del: upt_Suc)
  ultimately show ?case
    using Suc.prems(1) by (simp add: stream_next_def upt_conv_Cons del: upt_Suc)
qed simp

lemma rotate_window: "map (\<lambda>i. xs ! ((c + i) mod length xs)) [0..<length xs] = rotate c xs"
  by (rule nth_equalityI) (simp_all add: nth_rotate)

lemma mset_rotate_window: "mset (rotate c xs) = mset xs"
proof (induction c)
  case (Suc c)
  have "mset (rotate1 (rotate c xs)) = mset (rotate c xs)" by (cases "rotate c xs") simp_all
  with Suc show ?case by (simp add: rotate_def)
qed simp

section \<open>Properties of the stream pool\<close>

text \<open>
  C36: A constructed pool owns as many streams as asked for, all distinct and none in use before, and its
  destructor gives back exactly those: what the device holds is as it was.
\<close>

theorem stream_pool_round_trip:
  assumes "cuda_laws (api g)" and "stream_pool_new n d g = (Ret p, g')"
  shows "length (streams p) = unat n \<and> distinct (streams p) \<and>
    set (streams p) \<inter> stream_live (gview_of g) = {} \<and> set (streams p) \<subseteq> stream_live (gview_of g') \<and>
    gview_of (stream_pool_destroy p g') = gview_of g"
proof -
  note new = stream_pool_new_ret [OF assms]
  have "gview_of (stream_pool_destroy p g') =
      (gview_of g')\<lparr>stream_live := stream_live (gview_of g') - set (streams p)\<rparr>"
    using destroy_streams_view [of g' "streams p"] assms(1) new(6) by (simp add: stream_pool_destroy_def)
  moreover have "set (streams p) \<union> stream_live (gview_of g) - set (streams p) = stream_live (gview_of g)"
    using new(4) by blast
  ultimately show ?thesis using new by simp
qed

definition two_streams :: CudaStreamPool where
  "two_streams = \<lparr>streams = [1, 2], stream_device = 0, cursor = 0\<rparr>"

lemma create_two_streams: "create_streams 2 acc = create_streams (Suc (Suc 0)) acc"
  by (simp only: numeral_2_eq_2)

lemma two_streams_new: "fst (stream_pool_new 2 0 (sim_gpu 100)) = Ret two_streams"
  by (simp add: stream_pool_new_def sim_evals max_streams_def create_two_streams two_streams_def word_le_nat_alt)

theorem stream_pool_round_trip_witness:
  "stream_live (gview_of (stream_pool_destroy two_streams (snd (stream_pool_new 2 0 (sim_gpu 100))))) = {}"
proof -
  have "stream_pool_new 2 0 (sim_gpu 100) = (Ret two_streams, snd (stream_pool_new 2 0 (sim_gpu 100)))"
    using two_streams_new by (metis prod.collapse)
  from stream_pool_round_trip [OF _ this] sim_laws show ?thesis
    by (simp add: gview_of_def empty_view_def)
qed

text \<open>
  From any point, as many calls of \<open>next\<close> as there are streams use each stream exactly once, as long
  as the 64-bit cursor does not wrap in between; if the number of streams divides 2 to the 64 (as for the
  default of two) wrapping makes no difference.
\<close>

theorem next_uses_each_stream:
  assumes "streams p \<noteq> []"
    and "unat (cursor p) + length (streams p) \<le> 2 ^ 64 \<or> length (streams p) dvd 2 ^ 64"
  shows "\<exists>ss. stream_nexts (length (streams p)) p = Ret ss \<and> mset ss = mset (streams p)"
  using stream_nexts_eq [OF assms] rotate_window [of "streams p" "unat (cursor p)"]
    mset_rotate_window by simp

theorem next_uses_each_stream_witness:
  "\<exists>ss. stream_nexts 2 \<lparr>streams = [1, 2], stream_device = 0, cursor = - 1\<rparr> = Ret ss \<and>
     mset ss = {#1, 2#}"
  using next_uses_each_stream [of "\<lparr>streams = [1, 2], stream_device = 0, cursor = - 1\<rparr>"]
  by (simp add: numeral_2_eq_2)


end
