(* ===== verification/Execution_Engine.thy ===== *)
theory Execution_Engine
  imports Floats
begin

text \<open>
  The backend interface (cpp/include/cuda_db/engine/execution_engine.hpp) and its stub
  implementation (cpp/src/engine/execution_engine.cpp). An engine is a function on its state;
  the contract stated in the header's comment, that output row \<open>i\<close> belongs to input row \<open>i\<close>, is
  the locale \<open>row_engine\<close>: the output of a batch is the concatenation of what each input row
  yields by itself, and the only exceptions are those of a known set. The stub engine is its first interpretation.
\<close>

section \<open>The interface\<close>

type_synonym 'e engine =
  "'e \<Rightarrow> f32 list \<Rightarrow> size_t \<Rightarrow> size_t \<Rightarrow> size_t \<Rightarrow> f32 list res \<times> 'e"

text \<open>Batches whose input and output fit a vector.\<close>

definition geometry_ok :: "size_t \<Rightarrow> size_t \<Rightarrow> size_t \<Rightarrow> bool" where
  "geometry_ok n input_elems output_elems \<longleftrightarrow>
     unat n * unat input_elems \<le> vec_max_size \<and> unat n * unat output_elems \<le> vec_max_size"

lemma geometry_ok_mono:
  assumes "geometry_ok m ie oe" and "n \<le> m"
  shows "geometry_ok n ie oe"
proof -
  have "unat n \<le> unat m" using assms(2) by (simp add: word_le_nat_alt)
  then have "unat n * unat ie \<le> unat m * unat ie" "unat n * unat oe \<le> unat m * unat oe"
    by simp_all
  with assms(1) show ?thesis unfolding geometry_ok_def by linarith
qed

locale row_engine =
  fixes run :: "'e engine"
    and inv :: "'e \<Rightarrow> bool"
    and serves :: "'e \<Rightarrow> size_t \<Rightarrow> size_t \<Rightarrow> size_t \<Rightarrow> bool"
    and row_of :: "'e \<Rightarrow> size_t \<Rightarrow> size_t \<Rightarrow> f32 list \<Rightarrow> f32 list"
    and faults :: "exn set"
  assumes run_inv: "inv e \<Longrightarrow> serves e n ie oe \<Longrightarrow> length xs = unat n * unat ie \<Longrightarrow>
      inv (snd (run e xs n ie oe))"
    and run_serves: "inv e \<Longrightarrow> serves e n ie oe \<Longrightarrow> length xs = unat n * unat ie \<Longrightarrow>
      serves (snd (run e xs n ie oe)) = serves e"
    and run_row_of: "inv e \<Longrightarrow> serves e n ie oe \<Longrightarrow> length xs = unat n * unat ie \<Longrightarrow>
      row_of (snd (run e xs n ie oe)) = row_of e"
    and run_defined: "inv e \<Longrightarrow> serves e n ie oe \<Longrightarrow> length xs = unat n * unat ie \<Longrightarrow>
      defined_res (fst (run e xs n ie oe))"
    and run_faults: "inv e \<Longrightarrow> serves e n ie oe \<Longrightarrow> length xs = unat n * unat ie \<Longrightarrow>
      fst (run e xs n ie oe) = Throw ex \<Longrightarrow> ex \<in> faults"
    and run_rows: "inv e \<Longrightarrow> serves e n ie oe \<Longrightarrow> length xs = unat n * unat ie \<Longrightarrow>
      fst (run e xs n ie oe) = Ret ys \<Longrightarrow>
      ys = concat (map (row_of e ie oe) (rows (unat ie) (unat n) xs))"
    and row_length: "inv e \<Longrightarrow> serves e n ie oe \<Longrightarrow> length r = unat ie \<Longrightarrow>
      length (row_of e ie oe r) = unat oe"
begin

text \<open>A batch of separate inputs: what comes back, and its size.\<close>

lemma run_batch:
  assumes "inv e" "serves e n ie oe" "length rs = unat n"
    and "\<And>r. r \<in> set rs \<Longrightarrow> length r = unat ie"
    and "fst (run e (concat rs) n ie oe) = Ret ys"
  shows "ys = concat (map (row_of e ie oe) rs)"
    and "length ys = unat n * unat oe"
    and "i < length rs \<Longrightarrow> row (unat oe) i ys = row_of e ie oe (rs ! i)"
proof -
  have len: "length (concat rs) = unat n * unat ie"
    using assms(3,4) length_concat_uniform [of rs "unat ie"] by simp
  have "rows (unat ie) (unat n) (concat rs) = rs"
    using assms(3,4) rows_concat [of rs "unat ie" "unat n"] by simp
  with run_rows [OF assms(1,2) len assms(5)]
  show ys: "ys = concat (map (row_of e ie oe) rs)" by simp
  have out: "\<And>x. x \<in> set (map (row_of e ie oe) rs) \<Longrightarrow> length x = unat oe"
    using assms(4) row_length [OF assms(1,2)] by auto
  show "length ys = unat n * unat oe"
    using length_concat_uniform [of "map (row_of e ie oe) rs" "unat oe"] out assms(3)
    by (simp add: ys)
  show "i < length rs \<Longrightarrow> row (unat oe) i ys = row_of e ie oe (rs ! i)"
    using row_concat [of "map (row_of e ie oe) rs" "unat oe" i] out by (simp add: ys)
qed

end

section \<open>Copying rows\<close>

text \<open>
  The row loop the stub and the CUDA engine share: copy the first \<open>copy_elems\<close> elements of each
  input row to the start of the output row of the same number.
\<close>

fun copy_rows ::
    "f32 list \<Rightarrow> size_t \<Rightarrow> size_t \<Rightarrow> size_t \<Rightarrow> nat list \<Rightarrow> f32 list \<Rightarrow> f32 list res" where
  "copy_rows input input_elems output_elems copy_elems [] output = Ret output"
| "copy_rows input input_elems output_elems copy_elems (i # is) output =
     res_bind (vec_slice input (of_nat i * input_elems) (of_nat i * input_elems + copy_elems))
       (\<lambda>block. res_bind (vec_copy_to block output (of_nat i * output_elems))
          (copy_rows input input_elems output_elems copy_elems is))"

text \<open>What a row becomes: truncated or padded with zeros to the output width.\<close>

definition fit_row :: "size_t \<Rightarrow> size_t \<Rightarrow> f32 list \<Rightarrow> f32 list" where
  "fit_row input_elems output_elems r =
     take (unat output_elems) r @ replicate (unat output_elems - unat input_elems) fzero"

lemma length_fit_row: "length r = unat ie \<Longrightarrow> length (fit_row ie oe r) = unat oe"
  by (simp add: fit_row_def)

lemma vec_slice_row_prefix:
  fixes ie ce :: size_t
  assumes "length xs = k * unat ie" "i < k" "k * unat ie < 2 ^ 64" "i < 2 ^ 64"
    and "unat ce \<le> unat ie"
  shows "vec_slice xs (of_nat i * ie) (of_nat i * ie + ce) =
      Ret (take (unat ce) (row (unat ie) i xs))"
proof -
  have le: "i * unat ie + unat ie \<le> k * unat ie"
    using mult_le_mono1 [of "Suc i" k "unat ie"] assms(2) by simp
  have b: "unat (of_nat i * ie) = i * unat ie"
    using assms le by (intro unat_of_nat_mult_fits) auto
  have "unat (of_nat i * ie) + unat ce < 2 ^ 64"
    using assms le by (simp add: b)
  then have e: "unat (of_nat i * ie + ce) = i * unat ie + unat ce"
    using unat_add_lem [of "of_nat i * ie" ce] by (simp add: b)
  have "i * unat ie + unat ce \<le> length xs"
    using assms(1,5) le by simp
  then show ?thesis
    using assms(5) by (simp add: vec_slice_def b e word_le_nat_alt row_def min_def)
qed

lemma copy_rows_from:
  fixes ie oe :: size_t
  assumes len: "length xs = k * unat ie" and fits: "k * unat ie < 2 ^ 64" "k * unat oe < 2 ^ 64"
    and k: "k < 2 ^ 64"
  shows "i \<le> k \<Longrightarrow> length done = i * unat oe \<Longrightarrow>
    copy_rows xs ie oe (min ie oe) [i..<k] (done @ replicate ((k - i) * unat oe) fzero) =
      Ret (done @ concat (map (\<lambda>j. fit_row ie oe (row (unat ie) j xs)) [i..<k]))"
proof (induction "k - i" arbitrary: i "done")
  case 0
  then show ?case by simp
next
  case (Suc m)
  then have i: "i < k" by simp
  let ?r = "row (unat ie) i xs" and ?ce = "min ie oe"
  let ?rest = "replicate ((k - Suc i) * unat oe) fzero"
  have ce: "unat ?ce = min (unat ie) (unat oe)" by (simp add: min_def word_le_nat_alt)
  have lr: "length ?r = unat ie"
    using len i mult_le_mono1 [of "Suc i" k "unat ie"] by (intro length_row) simp
  have "i * unat oe \<le> k * unat oe" using i by (intro mult_le_mono1) simp
  then have b: "unat (of_nat i * oe) = i * unat oe"
    using fits(2) k i by (intro unat_of_nat_mult_fits) linarith+
  have split: "replicate ((k - i) * unat oe) fzero = replicate (unat oe) fzero @ ?rest"
  proof -
    have "(k - i) * unat oe = unat oe + (k - Suc i) * unat oe"
      using i by (simp add: Suc_diff_Suc flip: mult_Suc)
    then show ?thesis by (simp add: replicate_add)
  qed
  have fit: "fit_row ie oe ?r = take (unat ?ce) ?r @ replicate (unat oe - unat ?ce) fzero"
    using lr by (cases "unat ie \<le> unat oe") (simp_all add: ce fit_row_def)
  have "length (take (unat ?ce) ?r) = unat ?ce" using lr by (simp add: ce)
  then have blk: "overwrite 0 (take (unat ?ce) ?r) (replicate (unat oe) fzero @ ?rest) =
      fit_row ie oe ?r @ ?rest"
    by (simp only: overwrite_0 fit drop_append length_replicate drop_replicate append_assoc)
      (simp add: ce)
  have "vec_copy_to (take (unat ?ce) ?r) (done @ replicate ((k - i) * unat oe) fzero)
      (of_nat i * oe) = Ret ((done @ fit_row ie oe ?r) @ ?rest)"
    using Suc.prems(2) overwrite_append [of "done" "take (unat ?ce) ?r"]
    by (simp add: vec_copy_to_def b split blk [unfolded ce] ce lr min_le_iff_disj)
  moreover have "vec_slice xs (of_nat i * ie) (of_nat i * ie + ?ce) = Ret (take (unat ?ce) ?r)"
    using len i fits(1) k by (intro vec_slice_row_prefix) (auto simp: ce)
  ultimately have "copy_rows xs ie oe ?ce [i..<k] (done @ replicate ((k - i) * unat oe) fzero) =
      copy_rows xs ie oe ?ce [Suc i..<k] ((done @ fit_row ie oe ?r) @ ?rest)"
    using i by (simp add: upt_conv_Cons)
  also have "\<dots> = Ret ((done @ fit_row ie oe ?r) @
      concat (map (\<lambda>j. fit_row ie oe (row (unat ie) j xs)) [Suc i..<k]))"
    using Suc i lr by (intro Suc.hyps(1)) (auto simp: length_fit_row)
  finally show ?case using i by (simp add: upt_conv_Cons)
qed

text \<open>The loop as a whole: every output row is the fitted input row.\<close>

lemma copy_rows_eq:
  fixes ie oe :: size_t
  assumes "length xs = unat n * unat ie" and "geometry_ok n ie oe"
  shows "copy_rows xs ie oe (min ie oe) [0..<unat n] (replicate (unat n * unat oe) fzero) =
    Ret (concat (map (fit_row ie oe) (rows (unat ie) (unat n) xs)))"
proof -
  have "unat n < 2 ^ 64" using unsigned_less [of n, where ?'a = nat] by simp
  moreover have "unat n * unat ie < 2 ^ 64" "unat n * unat oe < 2 ^ 64"
    using assms(2) by (simp_all add: geometry_ok_def vec_max_size_def)
  ultimately show ?thesis
    using copy_rows_from [OF assms(1), of oe 0 "[]"] by (simp add: rows_def comp_def)
qed

section \<open>The stub engine\<close>

definition stub_run_inference ::
    "f32 list \<Rightarrow> size_t \<Rightarrow> size_t \<Rightarrow> size_t \<Rightarrow> f32 list res" where
  "stub_run_inference batched_input batch_size input_elems output_elems =
     (if vsize batched_input \<noteq> batch_size * input_elems
      then Throw (InferenceError ''batched input size does not match batch_size * input_elems'')
      else res_bind (vec_filled (batch_size * output_elems) fzero)
        (copy_rows batched_input input_elems output_elems (min input_elems output_elems)
           [0..<unat batch_size]))"

definition stub_engine :: "unit engine" where
  "stub_engine e xs n ie oe = (stub_run_inference xs n ie oe, e)"

lemma geometry_ok_products:
  assumes "geometry_ok n ie oe"
  shows "unat (n * ie) = unat n * unat ie" "unat (n * oe) = unat n * unat oe"
    "unat (n * oe) \<le> vec_max_size"
  using assms unat_mult_fits [of n ie] unat_mult_fits [of n oe]
  by (simp_all add: geometry_ok_def vec_max_size_def)

lemma stub_run_rows:
  assumes "length xs = unat n * unat ie" and g: "geometry_ok n ie oe"
  shows "stub_run_inference xs n ie oe =
    Ret (concat (map (fit_row ie oe) (rows (unat ie) (unat n) xs)))"
proof -
  have "length xs < 2 ^ 64"
    using assms by (simp add: geometry_ok_def vec_max_size_def)
  then have "vsize xs = n * ie"
    using assms geometry_ok_products(1) [OF g] by (simp add: vsize_eq_iff)
  moreover have "vec_filled (n * oe) fzero = Ret (replicate (unat n * unat oe) fzero)"
    using geometry_ok_products(2,3) [OF g] by (simp add: vec_filled_def)
  ultimately show ?thesis
    using copy_rows_eq [OF assms] by (simp add: stub_run_inference_def)
qed

interpretation stub: row_engine stub_engine "\<lambda>_. True" "\<lambda>_. geometry_ok" "\<lambda>_. fit_row" "{}"
  by unfold_locales (auto simp: stub_engine_def stub_run_rows length_fit_row)

end
