(* ===== verification/Device_Work.thy ===== *)
theory Device_Work
  imports Normalize_Kernel Stream_Pool Execution_Engine
begin

text \<open>
  What both GPU engines share: a scope that cleans up when it is left by an exception, the process's
  access to page-locked memory, and what the copies, the kernel and the buffers do on a runtime that
  keeps its laws and whose copies succeed.
\<close>

section \<open>Cleaning up\<close>

text \<open>Run a clean-up only when the command throws: the members built so far are destroyed.\<close>

definition con_throw :: "('s, 'a) cmd \<Rightarrow> ('s \<Rightarrow> 's) \<Rightarrow> ('s, 'a) cmd" where
  "con_throw m cleanup s = (case m s of (Throw e, s') \<Rightarrow> (Throw e, cleanup s') | other \<Rightarrow> other)"

lemma con_throw_eq_Ret [res_simps]: "con_throw m c s = (Ret x, s') \<longleftrightarrow> m s = (Ret x, s')"
  by (auto simp: con_throw_def split: prod.splits res.splits)

lemma con_throw_eq_Throw [res_simps]:
  "con_throw m c s = (Throw e, s') \<longleftrightarrow> (\<exists>s1. m s = (Throw e, s1) \<and> s' = c s1)"
  by (auto simp: con_throw_def split: prod.splits res.splits)

lemma cbind_eq_Throw [res_simps]:
  "cbind m f s = (Throw e, s') \<longleftrightarrow>
     m s = (Throw e, s') \<or> (\<exists>x s1. m s = (Ret x, s1) \<and> f x s1 = (Throw e, s'))"
  by (auto simp: cbind_def split: prod.splits res.splits)

section \<open>Access from the process\<close>

text \<open>
  Access of the process to page-locked memory, undefined outside a live block and while queued work
  may touch it.
\<close>

definition write_host :: "addr \<Rightarrow> f32 list \<Rightarrow> ('g gpu, unit) cmd" where
  "write_host h xs g =
     (let v = gview_of g
      in if h \<in> host_live v \<and> length xs \<le> length (host_data v h) \<and> idle v h
         then (Ret (), g\<lparr>gst := host_store (api g) h xs (gst g)\<rparr>) else (Undef, g))"

definition read_host :: "addr \<Rightarrow> nat \<Rightarrow> ('g gpu, f32 list) cmd" where
  "read_host h n g =
     (let v = gview_of g
      in if h \<in> host_live v \<and> n \<le> length (host_data v h) \<and> idle v h
         then (Ret (host_load (api g) h n (gst g)), g) else (Undef, g))"

text \<open>A decimal literal of type \<open>float\<close>, in thousandths.\<close>

definition thousandths :: "nat \<Rightarrow> f32" where
  "thousandths k = round32 False (of_nat k / 1000)"

section \<open>Copies that succeed\<close>

lemma checked_ok:
  "fst (call (gst g)) = cudaSuccess \<Longrightarrow> checked call what g = (Ret (), g\<lparr>gst := snd (call (gst g))\<rparr>)"
  by (cases "call (gst g)") (simp add: checked_def cuda_check_def)

lemma h2d_ok:
  assumes laws: "cuda_laws (api g)" "copies_succeed (api g)"
    and ok: "d \<in> dev_live (gview_of g)" "h \<in> host_live (gview_of g)" "s \<in> stream_live (gview_of g)"
      "floats n \<le> length (dev_data (gview_of g) d)" "floats n \<le> length (host_data (gview_of g) h)"
      "exclusive (gview_of g) s d" "exclusive (gview_of g) s h"
  obtains g' where "checked (cudaMemcpyAsyncH2D (api g) d h n s) what g = (Ret (), g')" "api g' = api g"
    "gview_of g' = (gview_of g)\<lparr>dev_data := (dev_data (gview_of g))(d :=
        overwrite 0 (take (floats n) (host_data (gview_of g) h)) (dev_data (gview_of g) d)),
      inflight := (inflight (gview_of g))(s := insert d (insert h (inflight (gview_of g) s)))\<rparr>"
proof -
  obtain c g1 where call: "cudaMemcpyAsyncH2D (api g) d h n s (gst g) = (c, g1)" by fastforce
  have c: "c = cudaSuccess" using laws(2) call unfolding copies_succeed_def by (metis fst_conv)
  note law = cuda_lawsD(6) [OF laws(1), unfolded h2d_law_def, rule_format, OF call, folded gview_of_def]
  show thesis
    by (rule that [of "g\<lparr>gst := g1\<rparr>"]) (use law ok c call in \<open>simp_all add: checked_def cuda_check_def Let_def\<close>)
qed

lemma d2h_ok:
  assumes laws: "cuda_laws (api g)" "copies_succeed (api g)"
    and ok: "d \<in> dev_live (gview_of g)" "h \<in> host_live (gview_of g)" "s \<in> stream_live (gview_of g)"
      "floats n \<le> length (dev_data (gview_of g) d)" "floats n \<le> length (host_data (gview_of g) h)"
      "exclusive (gview_of g) s d" "exclusive (gview_of g) s h"
  obtains g' where "checked (cudaMemcpyAsyncD2H (api g) h d n s) what g = (Ret (), g')" "api g' = api g"
    "gview_of g' = (gview_of g)\<lparr>host_data := (host_data (gview_of g))(h :=
        overwrite 0 (take (floats n) (dev_data (gview_of g) d)) (host_data (gview_of g) h)),
      inflight := (inflight (gview_of g))(s := insert d (insert h (inflight (gview_of g) s)))\<rparr>"
proof -
  obtain c g1 where call: "cudaMemcpyAsyncD2H (api g) h d n s (gst g) = (c, g1)" by fastforce
  have c: "c = cudaSuccess" using laws(2) call unfolding copies_succeed_def by (metis fst_conv)
  note law = cuda_lawsD(7) [OF laws(1), unfolded d2h_law_def, rule_format, OF call, folded gview_of_def]
  show thesis
    by (rule that [of "g\<lparr>gst := g1\<rparr>"]) (use law ok c call in \<open>simp_all add: checked_def cuda_check_def Let_def\<close>)
qed

lemma sync_ok:
  assumes laws: "cuda_laws (api g)" "copies_succeed (api g)"
  obtains g' where "checked (cudaStreamSynchronize (api g) s) what g = (Ret (), g')" "api g' = api g"
    "gview_of g' = (gview_of g)\<lparr>inflight := (inflight (gview_of g))(s := {})\<rparr>"
proof -
  obtain c g1 where call: "cudaStreamSynchronize (api g) s (gst g) = (c, g1)" by fastforce
  have "c = cudaSuccess" using laws(2) call unfolding copies_succeed_def by (metis fst_conv)
  with call have c: "checked (cudaStreamSynchronize (api g) s) what g = (Ret (), g\<lparr>gst := g1\<rparr>)"
    by (simp add: checked_def cuda_check_def)
  from that [OF this] checked_sync [OF laws(1) c] show thesis by auto
qed

lemma memcpy_cases:
  assumes "cuda_laws (api g)" and "checked (cudaMemcpyToDevice (api g) d xs) what g = (r, g')"
    and "d \<in> dev_live (gview_of g)" "length xs \<le> length (dev_data (gview_of g) d)" "inflight (gview_of g) = (\<lambda>_. {})"
  shows "api g' = api g"
    and "r = Ret () \<and> gview_of g' = (gview_of g)\<lparr>dev_data := (dev_data (gview_of g))(d :=
        overwrite 0 xs (dev_data (gview_of g) d))\<rparr> \<or>
      (\<exists>e. r = Throw (CudaError e)) \<and> gview_of g' = gview_of g"
proof -
  obtain c g1 where call: "cudaMemcpyToDevice (api g) d xs (gst g) = (c, g1)" by fastforce
  with assms(2) have g': "g' = g\<lparr>gst := g1\<rparr>" and r: "r = cuda_check g c what"
    by (simp_all add: checked_def)
  have i: "idle (gview_of g) d" using assms(5) by (simp add: idle_def)
  note law = cuda_lawsD(8) [OF assms(1), unfolded memcpy_law_def, rule_format, OF call, folded gview_of_def]
  show "api g' = api g" by (simp add: g')
  show "r = Ret () \<and> gview_of g' = (gview_of g)\<lparr>dev_data := (dev_data (gview_of g))(d :=
        overwrite 0 xs (dev_data (gview_of g) d))\<rparr> \<or>
      (\<exists>e. r = Throw (CudaError e)) \<and> gview_of g' = gview_of g"
    using law assms(3,4) i by (cases "c = cudaSuccess") (simp_all add: r g' cuda_check_def Let_def)
qed

section \<open>What a transfer leaves alone\<close>

text \<open>What exists on the device.\<close>

definition lives :: "gview \<Rightarrow> addr set \<times> addr set \<times> stream set" where
  "lives v = (dev_live v, host_live v, stream_live v)"

text \<open>The blocks are the same and as large as before, and no work is queued that was not.\<close>

definition same_blocks :: "gview \<Rightarrow> gview \<Rightarrow> bool" where
  "same_blocks v v' \<longleftrightarrow> dev_live v' = dev_live v \<and> host_live v' = host_live v \<and>
     stream_live v' = stream_live v \<and> inflight v' = inflight v \<and>
     (\<forall>p. length (dev_data v' p) = length (dev_data v p)) \<and>
     (\<forall>p. length (host_data v' p) = length (host_data v p))"

lemma same_blocks_trans: "same_blocks v v' \<Longrightarrow> same_blocks v' v'' \<Longrightarrow> same_blocks v v''"
  by (simp add: same_blocks_def)

lemma write_host_ok:
  assumes "cuda_laws (api g)" "h \<in> host_live (gview_of g)" "length xs \<le> length (host_data (gview_of g) h)"
    and "inflight (gview_of g) = (\<lambda>_. {})"
  obtains g' where "write_host h xs g = (Ret (), g')" "api g' = api g"
    "same_blocks (gview_of g) (gview_of g')" "dev_data (gview_of g') = dev_data (gview_of g)"
    "take (length xs) (host_data (gview_of g') h) = xs"
proof -
  have i: "idle (gview_of g) h" using assms(4) by (simp add: idle_def)
  let ?g = "g\<lparr>gst := host_store (api g) h xs (gst g)\<rparr>"
  have v: "gview_of ?g = (gview_of g)\<lparr>host_data := (host_data (gview_of g))(h :=
      overwrite 0 xs (host_data (gview_of g) h))\<rparr>"
    using cuda_lawsD(11) [OF assms(1)] assms(2,3) i by (simp add: host_law_def Let_def gview_of_def)
  show thesis
    by (rule that [of ?g]) (use assms(2,3) i v in \<open>auto simp: write_host_def same_blocks_def take_overwrite_0 simp del: gview_of_upd\<close>)
qed

lemma read_host_ok:
  assumes "cuda_laws (api g)" "h \<in> host_live (gview_of g)" "n \<le> length (host_data (gview_of g) h)"
    and "inflight (gview_of g) = (\<lambda>_. {})"
  shows "read_host h n g = (Ret (take n (host_data (gview_of g) h)), g)"
proof -
  have "idle (gview_of g) h" using assms(4) by (simp add: idle_def)
  moreover from this have "host_load (api g) h n (gst g) = take n (host_data (gview_of g) h)"
    using cuda_lawsD(11) [OF assms(1)] assms(2,3) by (simp add: host_law_def Let_def gview_of_def)
  ultimately show ?thesis using assms(2,3) by (simp add: read_host_def Let_def)
qed

section \<open>Sizes\<close>

lemma sint_int_cast: "unat n < 2 ^ 31 \<Longrightarrow> sint (ucast (n :: size_t) :: i32) = int (unat n)"
proof -
  assume n: "unat n < 2 ^ 31"
  have u: "uint n = int (unat n)" by (rule uint_nat)
  have "sint (ucast n :: i32) = signed_take_bit 31 (uint n)" by (simp add: signed_ucast_eq)
  also have "\<dots> = uint n"
  proof (rule signed_take_bit_int_eq_self)
    show "- (2 ^ 31) \<le> uint n" by (rule order_trans [of _ 0]) simp_all
    have "int (unat n) < int (2 ^ 31)" using n by (simp only: of_nat_less_iff)
    then show "uint n < 2 ^ 31" by (simp only: u of_nat_power of_nat_numeral)
  qed
  finally show ?thesis by (simp only: u)
qed

lemma input_bytes:
  assumes "length xs \<le> vec_max_size"
  shows "floats (vsize xs * 4) = length xs" "unat (vsize xs * 4) \<le> 2 ^ 63"
proof -
  have l: "unat (vsize xs) = length xs" using assms by (intro unat_vsize) (simp add: vec_max_size_def)
  then have "unat (vsize xs * 4) = length xs * 4"
    using assms unat_mult_fits [of "vsize xs" 4] by (simp add: vec_max_size_def)
  then show "floats (vsize xs * 4) = length xs" "unat (vsize xs * 4) \<le> 2 ^ 63"
    using assms by (simp_all add: floats_def vec_max_size_def)
qed

section \<open>Normalised batches\<close>

lemma normalize_ref_prefix:
  "elems = length xs \<Longrightarrow>
   normalize_ref elems c hw (xs @ ys) mean stddev = normalize_ref elems c hw xs mean stddev @ ys"
  by (auto simp: normalize_ref_def nth_append)

lemma length_normalize_ref:
  "elems \<le> length data \<Longrightarrow> length (normalize_ref elems c hw data mean stddev) = length data"
  by (simp add: normalize_ref_def)

text \<open>The normalised batch, row by row.\<close>

lemma normalized_rows:
  assumes "length xs = k * (c * hw)" "0 < hw" "length mean = c"
  shows "normalize_ref (k * (c * hw)) c hw xs mean stddev =
    concat (map (norm_row hw mean stddev) (rows (c * hw) k xs))"
    and "rows (c * hw) k (normalize_ref (k * (c * hw)) c hw xs mean stddev) =
      map (norm_row hw mean stddev) (rows (c * hw) k xs)"
proof -
  have len: "\<And>r. r \<in> set (rows (c * hw) k xs) \<Longrightarrow> length r = c * hw"
    using rows_length_row [OF assms(1)] .
  from normalize_ref_rows [OF assms(2,3), of "rows (c * hw) k xs" "[]" stddev] len concat_rows [OF assms(1)]
  show eq: "normalize_ref (k * (c * hw)) c hw xs mean stddev =
    concat (map (norm_row hw mean stddev) (rows (c * hw) k xs))"
    by (simp only: append_Nil2 length_rows)
  show "rows (c * hw) k (normalize_ref (k * (c * hw)) c hw xs mean stddev) =
      map (norm_row hw mean stddev) (rows (c * hw) k xs)"
    unfolding eq by (rule rows_concat) (use len in auto)
qed

section \<open>Buffers\<close>

lemma device_new_view:
  assumes "cuda_laws (api g)" and "device_new n g = (Ret b, g')"
  shows "api g' = api g"
    and "n = 0 \<Longrightarrow> dev_ptr b = nullptr \<and> gview_of g' = gview_of g"
    and "n \<noteq> 0 \<Longrightarrow> dev_ptr b \<noteq> nullptr \<and> dev_ptr b \<notin> dev_live (gview_of g) \<and>
      (\<exists>d. length d = floats n \<and> gview_of g' = (gview_of g)\<lparr>
         dev_live := insert (dev_ptr b) (dev_live (gview_of g)),
         dev_data := (dev_data (gview_of g))(dev_ptr b := d)\<rparr>)"
proof -
  show "api g' = api g" using device_new_ret [OF assms] by blast
  show "n = 0 \<Longrightarrow> dev_ptr b = nullptr \<and> gview_of g' = gview_of g"
    using assms(2) by (auto simp: device_new_def cret_def)
  show "n \<noteq> 0 \<Longrightarrow> dev_ptr b \<noteq> nullptr \<and> dev_ptr b \<notin> dev_live (gview_of g) \<and>
      (\<exists>d. length d = floats n \<and> gview_of g' = (gview_of g)\<lparr>
         dev_live := insert (dev_ptr b) (dev_live (gview_of g)),
         dev_data := (dev_data (gview_of g))(dev_ptr b := d)\<rparr>)"
  proof -
    assume "n \<noteq> 0"
    then have "0 < n" by (simp add: word_gt_0)
    with assms(2) have c: "checked_new (cudaMalloc (api g) n) ''cudaMalloc'' g = (Ret (dev_ptr b), g')"
      by (auto simp: device_new_def cbind_eq_Ret cret_def)
    from device_alloc(3) [OF assms(1) c refl] show ?thesis .
  qed
qed

lemma device_destroy_view:
  assumes "cuda_laws (api g)" and "dev_ptr b \<noteq> nullptr \<Longrightarrow> dev_ptr b \<in> dev_live (gview_of g)"
  shows "api (device_destroy b g) = api g"
    and "gview_of (device_destroy b g) =
      (if dev_ptr b = nullptr then gview_of g else (gview_of g)\<lparr>dev_live := dev_live (gview_of g) - {dev_ptr b}\<rparr>)"
  using assms device_freed [OF assms(1)] by (simp_all add: device_destroy_def)

text \<open>A buffer made for a vector of floats.\<close>

definition buffer_for :: "gview \<Rightarrow> f32 list \<Rightarrow> DeviceBuffer \<Rightarrow> bool" where
  "buffer_for v xs b \<longleftrightarrow> xs \<noteq> [] \<longrightarrow> dev_ptr b \<noteq> nullptr \<and> dev_ptr b \<in> dev_live v \<and>
     length (dev_data v (dev_ptr b)) = length xs"

text \<open>What the body of the constructor finds: the two buffers and nothing else new.\<close>

lemma buffers_made:
  assumes laws: "cuda_laws (api g)" and len: "length xs \<le> vec_max_size" "length ys \<le> vec_max_size"
    and m: "device_new (vsize xs * 4) g = (Ret m, g1)" and t: "device_new (vsize ys * 4) g1 = (Ret t, g2)"
  shows "api g1 = api g" "api g2 = api g" "buffer_for (gview_of g2) xs m" "buffer_for (gview_of g2) ys t"
    "dev_ptr t \<noteq> nullptr \<Longrightarrow> dev_ptr m \<noteq> dev_ptr t"
    "inflight (gview_of g2) = inflight (gview_of g)" "host_live (gview_of g2) = host_live (gview_of g)"
    "stream_live (gview_of g2) = stream_live (gview_of g)"
    "xs \<noteq> [] \<Longrightarrow> ys \<noteq> [] \<Longrightarrow> dev_ptr m \<notin> dev_live (gview_of g) \<and> dev_ptr t \<notin> dev_live (gview_of g) \<and>
      dev_live (gview_of g2) = {dev_ptr m, dev_ptr t} \<union> dev_live (gview_of g)"
proof -
  note mv = device_new_view [OF laws m]
  have laws1: "cuda_laws (api g1)" using laws mv(1) by simp
  note tv = device_new_view [OF laws1 t]
  have z: "vsize zs * 4 = 0 \<longleftrightarrow> zs = []" if "length zs \<le> vec_max_size" for zs :: "f32 list"
    using input_bytes(1) [OF that] by (auto simp: floats_def vsize_def)
  note zx = z [OF len(1)] and zy = z [OF len(2)]
  show "api g1 = api g" "api g2 = api g" using mv(1) tv(1) by simp_all
  show "buffer_for (gview_of g2) xs m" "buffer_for (gview_of g2) ys t" "dev_ptr t \<noteq> nullptr \<Longrightarrow> dev_ptr m \<noteq> dev_ptr t"
    "inflight (gview_of g2) = inflight (gview_of g)" "host_live (gview_of g2) = host_live (gview_of g)"
    "stream_live (gview_of g2) = stream_live (gview_of g)"
    "xs \<noteq> [] \<Longrightarrow> ys \<noteq> [] \<Longrightarrow> dev_ptr m \<notin> dev_live (gview_of g) \<and> dev_ptr t \<notin> dev_live (gview_of g) \<and>
      dev_live (gview_of g2) = {dev_ptr m, dev_ptr t} \<union> dev_live (gview_of g)"
    using mv(2,3) tv(2,3) input_bytes(1) [OF len(1)] input_bytes(1) [OF len(2)] zx zy
    by (cases "xs = []"; cases "ys = []"; force simp: buffer_for_def)+
qed

lemma sim_memcpy:
  "cudaMemcpyToDevice sim_api d xs = sim_upd (\<lambda>v. v\<lparr>dev_data := (dev_data v)(d := overwrite 0 xs (dev_data v d))\<rparr>)"
  by (simp add: sim_api_def)

end
