(* ===== verification/Pool_Buckets.thy ===== *)
theory Pool_Buckets
  imports Prelude
begin

text \<open>
  The size classes of \<open>MemoryPool\<close> (\<open>bucket_for\<close> in cpp/src/memory/memory_pool.cpp): rounding a size
  up to a power of two with a doubling loop on 64-bit words, where it returns and where it does not.
\<close>

section \<open>Buckets\<close>

text \<open>The doubling loop; a shift that drops the top bit leaves zero, and then it does not end.\<close>

partial_function (option) bucket_loop :: "size_t \<Rightarrow> size_t \<Rightarrow> size_t option" where
  "bucket_loop bucket bytes =
     (if bucket < bytes then bucket_loop (push_bit 1 bucket) bytes else Some bucket)"

definition bucket_for :: "size_t \<Rightarrow> size_t res" where
  "bucket_for bytes =
     (if bytes \<le> 4096 then Ret 4096
      else case bucket_loop 4096 bytes of None \<Rightarrow> Hang | Some bucket \<Rightarrow> Ret bucket)"

lemma unat_power_2: "k < 64 \<Longrightarrow> unat (2 ^ k :: size_t) = 2 ^ k"
proof -
  assume "k < 64"
  then have "(2::nat) ^ k < 2 ^ 64" by (rule power_strict_increasing) simp
  moreover have "unat (of_nat (2 ^ k) :: size_t) = 2 ^ k mod 2 ^ 64"
    by (simp only: unat_of_nat) simp
  ultimately show ?thesis by simp
qed

lemma bucket_loop_power:
  assumes "i \<le> k" "k < 64" "unat bytes \<le> 2 ^ k" "\<And>j. i \<le> j \<Longrightarrow> j < k \<Longrightarrow> 2 ^ j < unat bytes"
  shows "bucket_loop (2 ^ i) bytes = Some (2 ^ k)"
  using assms
proof (induction "k - i" arbitrary: i)
  case 0
  then have "\<not> 2 ^ i < bytes" by (simp add: word_less_nat_alt unat_power_2)
  with 0 show ?case by (subst bucket_loop.simps) simp
next
  case (Suc d)
  then have "i < k" by simp
  moreover from this have "2 ^ i < bytes"
    using Suc.prems by (simp add: word_less_nat_alt unat_power_2)
  moreover have "bucket_loop (2 ^ Suc i) bytes = Some (2 ^ k)"
    using Suc \<open>i < k\<close> by (intro Suc.hyps(1)) auto
  ultimately show ?case
    by (subst bucket_loop.simps) (simp add: push_bit_eq_mult mult.commute)
qed

text \<open>What the loop can return at all: a power of two that is large enough.\<close>

lemma bucket_loop_result:
  assumes "bucket_loop bucket bytes = Some y"
  shows "\<not> y < bytes \<and> (\<exists>k. y = push_bit k bucket)"
proof (rule bucket_loop.raw_induct [OF _ assms])
  fix rec :: "size_t \<Rightarrow> size_t \<Rightarrow> size_t option" and bucket bytes y :: size_t
  assume IH: "\<And>b n y. rec b n = Some y \<Longrightarrow> \<not> y < n \<and> (\<exists>k. y = push_bit k b)"
    and step: "(if bucket < bytes then rec (push_bit 1 bucket) bytes else Some bucket) = Some y"
  show "\<not> y < bytes \<and> (\<exists>k. y = push_bit k bucket)"
  proof (cases "bucket < bytes")
    case True
    with step have "rec (push_bit 1 bucket) bytes = Some y" by simp
    from IH [OF this] obtain k where "\<not> y < bytes" "y = push_bit (k + 1) bucket"
      by (metis push_bit_push_bit)
    then show ?thesis by blast
  next
    case False
    with step show ?thesis by (auto intro: exI [of _ 0])
  qed
qed

text \<open>The smallest exponent whose power reaches a size.\<close>

lemma least_power:
  assumes "n \<le> 2 ^ (63::nat)" and "(4096::nat) < n"
  obtains k where "12 \<le> k" "k < 64" "n \<le> 2 ^ k" "\<And>j. j < k \<Longrightarrow> 2 ^ j < n"
proof -
  define k where "k = (LEAST k. n \<le> (2::nat) ^ k)"
  have up: "n \<le> 2 ^ k" unfolding k_def using assms(1) by (rule LeastI)
  have low: "2 ^ j < n" if "j < k" for j
    using not_less_Least [of j "\<lambda>k. n \<le> 2 ^ k"] that unfolding k_def by (simp add: not_le)
  have "k \<le> 63" unfolding k_def using assms(1) by (rule Least_le)
  moreover have "12 \<le> k"
  proof (rule ccontr)
    assume "\<not> 12 \<le> k"
    then have "(2::nat) ^ k \<le> 2 ^ 12" by (intro power_increasing) auto
    with up assms(2) show False by simp
  qed
  ultimately show ?thesis using up low that [of k] by simp
qed

lemma bucket_for_power:
  assumes "unat bytes \<le> 2 ^ 63"
  obtains k where "bucket_for bytes = Ret (2 ^ k)" "12 \<le> k" "k < 64" "unat bytes \<le> 2 ^ k"
    "\<And>j. 12 \<le> j \<Longrightarrow> j < k \<Longrightarrow> 2 ^ j < unat bytes"
proof (cases "unat bytes \<le> 4096")
  case True
  then have "bucket_for bytes = Ret (2 ^ 12)" by (simp add: bucket_for_def word_le_nat_alt)
  with True that [of 12] show ?thesis by auto
next
  case False
  then obtain k where k: "12 \<le> k" "k < 64" "unat bytes \<le> 2 ^ k" "\<And>j. j < k \<Longrightarrow> 2 ^ j < unat bytes"
    using least_power [OF assms] by (auto simp: not_le)
  then have "bucket_loop (2 ^ 12) bytes = Some (2 ^ k)" by (intro bucket_loop_power) auto
  with False have "bucket_for bytes = Ret (2 ^ k)" by (simp add: bucket_for_def word_le_nat_alt)
  with k that show ?thesis by blast
qed

lemma push_bit_4096_le: "unat (push_bit k (4096 :: size_t)) \<le> 2 ^ 63"
proof (cases "k < 52")
  case True
  have "push_bit k (4096 :: size_t) = 2 ^ (12 + k)"
    by (simp add: push_bit_eq_mult power_add)
  moreover have "unat (2 ^ (12 + k) :: size_t) = 2 ^ (12 + k)" using True by (intro unat_power_2) simp
  moreover have "(2::nat) ^ (12 + k) \<le> 2 ^ 63" using True by (intro power_increasing) auto
  ultimately show ?thesis by simp
next
  case False
  have "push_bit k (4096 :: size_t) = 2 ^ (12 + k)"
    by (simp add: push_bit_eq_mult power_add)
  also have "\<dots> = 0" using False by simp
  finally show ?thesis by simp
qed

lemma bucket_for_hangs: "2 ^ 63 < unat bytes \<Longrightarrow> bucket_for bytes = Hang"
proof -
  assume big: "2 ^ 63 < unat bytes"
  have "bucket_loop 4096 bytes = None"
  proof (rule ccontr)
    assume "bucket_loop 4096 bytes \<noteq> None"
    then obtain y where "bucket_loop 4096 bytes = Some y" by blast
    from bucket_loop_result [OF this] obtain k where "\<not> y < bytes" "y = push_bit k 4096" by blast
    with big push_bit_4096_le [of k] show False by (simp add: word_less_nat_alt)
  qed
  with big show ?thesis by (simp add: bucket_for_def word_le_nat_alt)
qed

lemma bucket_for_cases:
  obtains (hangs) "bucket_for n = Hang" | (bucket) cap where "bucket_for n = Ret cap"
  using that by (cases "n \<le> 4096"; cases "bucket_loop 4096 n") (auto simp: bucket_for_def)

lemma bucket_for_small: "unat n \<le> 4096 \<Longrightarrow> bucket_for n = Ret 4096"
  by (simp add: bucket_for_def word_le_nat_alt)

section \<open>Property of the size classes\<close>

text \<open>
  C32: \<open>bucket_for\<close> returns for every size up to 2 to the 63, and then the least power of two from 4096 on
  that holds the size; for every larger size its loop never ends.
\<close>

theorem bucket_for_least:
  "if unat bytes \<le> 2 ^ 63
   then \<exists>k. bucket_for bytes = Ret (2 ^ k) \<and> unat (2 ^ k :: size_t) = 2 ^ k \<and> 12 \<le> k \<and>
     unat bytes \<le> 2 ^ k \<and> (k = 12 \<or> 2 ^ (k - 1) < unat bytes)
   else bucket_for bytes = Hang"
proof (cases "unat bytes \<le> 2 ^ 63")
  case True
  then obtain k where k: "bucket_for bytes = Ret (2 ^ k)" "12 \<le> k" "k < 64" "unat bytes \<le> 2 ^ k"
    "\<And>j. 12 \<le> j \<Longrightarrow> j < k \<Longrightarrow> 2 ^ j < unat bytes"
    using bucket_for_power by blast
  then have "k = 12 \<or> 2 ^ (k - 1) < unat bytes" using k(5) [of "k - 1"] by (cases "k = 12") auto
  with True k unat_power_2 [of k] show ?thesis by auto
next
  case False
  with bucket_for_hangs [of bytes] show ?thesis by simp
qed

end
