(* ===== verification/Memory_Pool.thy ===== *)
theory Memory_Pool
  imports Memory_Buffers Pool_Buckets "HOL-Library.AList"
begin

text \<open>
  \<open>MemoryPool\<close> and its handle \<open>PooledBuffer\<close> (cpp/src/memory/memory_pool.cpp): a free list per
  power-of-two bucket for device and for page-locked memory. Each member function is one function
  on the pool and the device it allocates from; the pool's mutex makes them atomic. Shown for every
  program over handles: no two owners share a block, the counters agree with the blocks, blocks are
  as large as their bucket says, released blocks are reused without a CUDA call, and a pool destroyed
  after its handles gives back everything it allocated.
\<close>

section \<open>Data\<close>

record MemoryPoolStats =
  acquisitions :: u64
  cache_hits :: u64
  cudamalloc_calls :: u64
  bytes_in_use :: u64
  bytes_cached :: u64
  live_handles :: u64

definition zero_pool_stats :: MemoryPoolStats where
  "zero_pool_stats = \<lparr>acquisitions = 0, cache_hits = 0, cudamalloc_calls = 0, bytes_in_use = 0,
     bytes_cached = 0, live_handles = 0\<rparr>"

text \<open>The hash maps from a bucket to its free list, as association lists; no result depends on the order.\<close>

type_synonym free_lists = "(size_t \<times> addr list) list"

record MemoryPool =
  device_free :: free_lists
  pinned_free :: free_lists
  device_id :: i32
  pool_stats :: MemoryPoolStats

text \<open>A pool together with the device it allocates from.\<close>

record 'g pst =
  mp :: MemoryPool
  dev :: "'g gpu"

definition new_pool :: "i32 \<Rightarrow> MemoryPool" where
  "new_pool d = \<lparr>device_free = [], pinned_free = [], device_id = d, pool_stats = zero_pool_stats\<rparr>"

text \<open>\<open>pool_\<close> is either null or the one pool of the state.\<close>

record PooledBuffer =
  attached :: bool
  buf_ptr :: addr
  capacity :: size_t
  requested :: size_t
  pinned :: bool

definition pooled_blank :: PooledBuffer where
  "pooled_blank = \<lparr>attached = False, buf_ptr = nullptr, capacity = 0, requested = 0, pinned = False\<rparr>"

definition pooled_empty :: "PooledBuffer \<Rightarrow> bool" where
  "pooled_empty b \<longleftrightarrow> buf_ptr b = nullptr"

section \<open>Operations\<close>

definition bucket_list :: "free_lists \<Rightarrow> size_t \<Rightarrow> addr list" where
  "bucket_list m c = (case map_of m c of None \<Rightarrow> [] | Some ps \<Rightarrow> ps)"

text \<open>\<open>operator[]\<close> of the map: look the bucket up, inserting an empty list if it is new.\<close>

definition touch :: "size_t \<Rightarrow> free_lists \<Rightarrow> free_lists" where
  "touch c m = AList.update c (bucket_list m c) m"

definition allocate_block :: "i32 \<Rightarrow> size_t \<Rightarrow> bool \<Rightarrow> ('g gpu, addr) cmd" where
  "allocate_block d cap pin g =
     (if pin then checked_new (cudaHostAlloc (api g) cap) ''cudaHostAlloc'' g
      else cbind (\<lambda>g. checked (cudaSetDevice (api g) d) ''cudaSetDevice'' g)
             (\<lambda>_ g. checked_new (cudaMalloc (api g) cap) ''cudaMalloc'' g) g)"

definition free_block :: "addr \<Rightarrow> bool \<Rightarrow> 'g gpu \<Rightarrow> 'g gpu" where
  "free_block p pin g =
     (if pin then g\<lparr>gst := cudaFreeHost (api g) p (gst g)\<rparr>
      else g\<lparr>gst := cudaFree (api g) p (gst g)\<rparr>)"

definition on_dev :: "('g gpu, 'a) cmd \<Rightarrow> ('g pst, 'a) cmd" where
  "on_dev m s = (case m (dev s) of (r, g') \<Rightarrow> (r, s\<lparr>dev := g'\<rparr>))"

definition upd_stats :: "(MemoryPoolStats \<Rightarrow> MemoryPoolStats) \<Rightarrow> 'g pst \<Rightarrow> 'g pst" where
  "upd_stats f s = s\<lparr>mp := (mp s)\<lparr>pool_stats := f (pool_stats (mp s))\<rparr>\<rparr>"

definition count_handle :: "size_t \<Rightarrow> MemoryPoolStats \<Rightarrow> MemoryPoolStats" where
  "count_handle cap st =
     st\<lparr>bytes_in_use := bytes_in_use st + cap, live_handles := live_handles st + 1\<rparr>"

definition count_hit :: "size_t \<Rightarrow> MemoryPoolStats \<Rightarrow> MemoryPoolStats" where
  "count_hit cap st =
     st\<lparr>cache_hits := cache_hits st + 1, bytes_cached := bytes_cached st - cap\<rparr>"

definition acquire_device :: "size_t \<Rightarrow> ('g pst, PooledBuffer) cmd" where
  "acquire_device bytes s =
     (case bucket_for bytes of
        Ret cap \<Rightarrow>
          (let s1 = upd_stats (\<lambda>st. st\<lparr>acquisitions := acquisitions st + 1\<rparr>) s;
               s2 = s1\<lparr>mp := (mp s1)\<lparr>device_free := touch cap (device_free (mp s1))\<rparr>\<rparr>;
               free_list = bucket_list (device_free (mp s2)) cap;
               handle = (\<lambda>p. \<lparr>attached = True, buf_ptr = p, capacity = cap, requested = bytes, pinned = False\<rparr>)
           in if free_list \<noteq> []
              then let s3 = upd_stats (count_hit cap) (s2\<lparr>mp := (mp s2)\<lparr>device_free :=
                     AList.update cap (butlast free_list) (device_free (mp s2))\<rparr>\<rparr>)
                   in (Ret (handle (last free_list)), upd_stats (count_handle cap) s3)
              else cbind (on_dev (allocate_block (device_id (mp s2)) cap False))
                     (\<lambda>p s. (Ret (handle p), upd_stats (count_handle cap)
                        (upd_stats (\<lambda>st. st\<lparr>cudamalloc_calls := cudamalloc_calls st + 1\<rparr>) s))) s2)
      | _ \<Rightarrow> (Hang, s))"

definition acquire_pinned :: "size_t \<Rightarrow> ('g pst, PooledBuffer) cmd" where
  "acquire_pinned bytes s =
     (case bucket_for bytes of
        Ret cap \<Rightarrow>
          (let s1 = upd_stats (\<lambda>st. st\<lparr>acquisitions := acquisitions st + 1\<rparr>) s;
               s2 = s1\<lparr>mp := (mp s1)\<lparr>pinned_free := touch cap (pinned_free (mp s1))\<rparr>\<rparr>;
               free_list = bucket_list (pinned_free (mp s2)) cap;
               handle = (\<lambda>p. \<lparr>attached = True, buf_ptr = p, capacity = cap, requested = bytes, pinned = True\<rparr>)
           in if free_list \<noteq> []
              then let s3 = upd_stats (count_hit cap) (s2\<lparr>mp := (mp s2)\<lparr>pinned_free :=
                     AList.update cap (butlast free_list) (pinned_free (mp s2))\<rparr>\<rparr>)
                   in (Ret (handle (last free_list)), upd_stats (count_handle cap) s3)
              else cbind (on_dev (allocate_block (device_id (mp s2)) cap True))
                     (\<lambda>p s. (Ret (handle p), upd_stats (count_handle cap) s)) s2)
      | _ \<Rightarrow> (Hang, s))"

definition pool_release :: "addr \<Rightarrow> size_t \<Rightarrow> bool \<Rightarrow> 'g pst \<Rightarrow> 'g pst" where
  "pool_release p cap pin s =
     (let m = mp s;
          m' = (if pin
                then m\<lparr>pinned_free := AList.update cap (bucket_list (pinned_free m) cap @ [p]) (pinned_free m)\<rparr>
                else m\<lparr>device_free := AList.update cap (bucket_list (device_free m) cap @ [p]) (device_free m)\<rparr>)
      in upd_stats (\<lambda>st. st\<lparr>bytes_in_use := bytes_in_use st - cap,
           bytes_cached := bytes_cached st + cap, live_handles := live_handles st - 1\<rparr>) (s\<lparr>mp := m'\<rparr>))"

text \<open>\<open>trim\<close>: free every cached block of a map and empty its lists.\<close>

fun free_blocks :: "bool \<Rightarrow> size_t \<Rightarrow> addr list \<Rightarrow> 'g pst \<Rightarrow> 'g pst" where
  "free_blocks pin cap [] s = s"
| "free_blocks pin cap (p # ps) s =
     free_blocks pin cap ps
       (upd_stats (\<lambda>st. st\<lparr>bytes_cached := bytes_cached st - cap\<rparr>) (s\<lparr>dev := free_block p pin (dev s)\<rparr>))"

fun trim_lists :: "bool \<Rightarrow> free_lists \<Rightarrow> 'g pst \<Rightarrow> free_lists \<times> 'g pst" where
  "trim_lists pin [] s = ([], s)"
| "trim_lists pin ((cap, blocks) # m) s =
     (case trim_lists pin m (free_blocks pin cap blocks s) of (m', s') \<Rightarrow> ((cap, []) # m', s'))"

definition trim :: "'g pst \<Rightarrow> 'g pst" where
  "trim s =
     (case trim_lists False (device_free (mp s)) s of
        (df, s1) \<Rightarrow> (case trim_lists True (pinned_free (mp s1)) (s1\<lparr>mp := (mp s1)\<lparr>device_free := df\<rparr>\<rparr>) of
           (pf, s2) \<Rightarrow> s2\<lparr>mp := (mp s2)\<lparr>pinned_free := pf\<rparr>\<rparr>))"

definition pool_destroy :: "'g pst \<Rightarrow> 'g pst res" where
  "pool_destroy s = (if live_handles (pool_stats (mp s)) \<noteq> 0 then Terminate else Ret (trim s))"

definition get_stats :: "MemoryPool \<Rightarrow> MemoryPoolStats" where
  "get_stats m = pool_stats m"

text \<open>The handle's own operations; \<open>pooled_release\<close> leaves \<open>pinned_\<close> as it was.\<close>

definition pooled_release :: "PooledBuffer \<Rightarrow> 'g pst \<Rightarrow> PooledBuffer \<times> 'g pst" where
  "pooled_release b s =
     (b\<lparr>attached := False, buf_ptr := nullptr, capacity := 0, requested := 0\<rparr>,
      if attached b \<and> buf_ptr b \<noteq> nullptr then pool_release (buf_ptr b) (capacity b) (pinned b) s else s)"

definition pooled_destroy :: "PooledBuffer \<Rightarrow> 'g pst \<Rightarrow> 'g pst" where
  "pooled_destroy b s = snd (pooled_release b s)"

definition pooled_move :: "PooledBuffer \<Rightarrow> PooledBuffer \<times> PooledBuffer" where
  "pooled_move other = (other, pooled_blank)"

definition pooled_assign ::
    "bool \<Rightarrow> PooledBuffer \<Rightarrow> PooledBuffer \<Rightarrow> 'g pst \<Rightarrow> (PooledBuffer \<times> PooledBuffer) \<times> 'g pst" where
  "pooled_assign same this other s =
     (if same then ((this, other), s)
      else case pooled_release this s of
        (this1, s1) \<Rightarrow>
          ((this1\<lparr>attached := attached other, buf_ptr := buf_ptr other, capacity := capacity other,
             requested := requested other, pinned := pinned other\<rparr>, pooled_blank), s1))"

section \<open>Blocks\<close>

text \<open>A block: whether it is page-locked, the capacity of its bucket, its address.\<close>

type_synonym block = "bool \<times> size_t \<times> addr"

definition block_key :: "block \<Rightarrow> bool \<times> addr" where
  "block_key b = (fst b, snd (snd b))"

abbreviation block_cap :: "block \<Rightarrow> size_t" where
  "block_cap b \<equiv> fst (snd b)"

definition entries :: "bool \<Rightarrow> free_lists \<Rightarrow> block list" where
  "entries pin m = concat (map (\<lambda>(c, ps). map (\<lambda>p. (pin, c, p)) ps) m)"

definition cached :: "MemoryPool \<Rightarrow> block list" where
  "cached m = entries False (device_free m) @ entries True (pinned_free m)"

definition block_of :: "PooledBuffer \<Rightarrow> block list" where
  "block_of b = (if attached b \<and> buf_ptr b \<noteq> nullptr then [(pinned b, capacity b, buf_ptr b)] else [])"

definition out :: "PooledBuffer list \<Rightarrow> block list" where
  "out hs = concat (map block_of hs)"

lemma block_key_simp [simp]: "block_key (pin, c, p) = (pin, p)"
  by (simp add: block_key_def)

lemma block_key_image [simp]: "(pin, p) \<in> block_key ` set bs \<longleftrightarrow> (\<exists>c. (pin, c, p) \<in> set bs)"
  by (force simp: block_key_def)

lemma entries_simps [simp]:
  "entries pin [] = []" "entries pin ((c, ps) # m) = map (\<lambda>p. (pin, c, p)) ps @ entries pin m"
  by (simp_all add: entries_def)

lemma bucket_list_notin: "c \<notin> fst ` set m \<Longrightarrow> bucket_list m c = []"
  by (simp add: bucket_list_def map_of_eq_None_iff [THEN iffD2])

lemma entries_update:
  "distinct (map fst m) \<Longrightarrow>
   mset (entries pin (AList.update c ps m)) + mset (map (\<lambda>p. (pin, c, p)) (bucket_list m c)) =
   mset (entries pin m) + mset (map (\<lambda>p. (pin, c, p)) ps)"
proof (induction m)
  case Nil
  then show ?case by (simp add: bucket_list_def)
next
  case (Cons a m)
  obtain k qs where a: "a = (k, qs)" by (cases a)
  show ?case
  proof (cases "k = c")
    case True
    then show ?thesis by (simp add: a bucket_list_def)
  next
    case False
    then have "bucket_list (a # m) c = bucket_list m c" by (simp add: a bucket_list_def)
    with False Cons show ?thesis by (simp add: a add.assoc)
  qed
qed

lemma distinct_keys_update: "distinct (map fst m) \<Longrightarrow> distinct (map fst (AList.update c ps m))"
  by (rule AList.distinct_update)

lemma bucket_list_update [simp]:
  "bucket_list (AList.update c ps m) c' = (if c' = c then ps else bucket_list m c')"
  by (simp add: bucket_list_def update_conv')

lemma entries_touch: "distinct (map fst m) \<Longrightarrow> mset (entries pin (touch c m)) = mset (entries pin m)"
  using entries_update [of m pin c "bucket_list m c"] by (simp add: touch_def)

lemma bucket_list_touch [simp]: "bucket_list (touch c m) = bucket_list m"
  by (rule ext) (simp add: touch_def)

lemma distinct_keys_touch: "distinct (map fst m) \<Longrightarrow> distinct (map fst (touch c m))"
  by (simp add: touch_def distinct_keys_update)

text \<open>Taking the last block of a list, and putting one back.\<close>

lemma entries_pop:
  assumes "distinct (map fst m)" "bucket_list m c \<noteq> []"
  shows "mset (entries pin m) =
    add_mset (pin, c, last (bucket_list m c)) (mset (entries pin (AList.update c (butlast (bucket_list m c)) m)))"
proof -
  let ?l = "bucket_list m c" and ?f = "\<lambda>p. (pin, c, p)"
  have "map ?f ?l = map ?f (butlast ?l @ [last ?l])" using assms(2) by simp
  then have "map ?f ?l = map ?f (butlast ?l) @ [?f (last ?l)]" by (simp only: map_append list.map)
  with entries_update [OF assms(1), of pin c "butlast ?l"] show ?thesis by simp
qed

lemma entries_push:
  assumes "distinct (map fst m)"
  shows "mset (entries pin (AList.update c (bucket_list m c @ [p]) m)) =
    add_mset (pin, c, p) (mset (entries pin m))"
  using entries_update [OF assms, of pin c "bucket_list m c @ [p]"] by simp

section \<open>Blocks and the device\<close>

text \<open>
  The device holds exactly the given blocks besides those it held before (\<open>Ld\<close> and \<open>Lh\<close>); no two
  of them share an address and each is as large as its bucket.
\<close>

definition backed :: "addr set \<Rightarrow> addr set \<Rightarrow> gview \<Rightarrow> block list \<Rightarrow> bool" where
  "backed Ld Lh v bs \<longleftrightarrow>
     distinct (map block_key bs) \<and>
     (\<forall>c p. (False, c, p) \<in> set bs \<longrightarrow> p \<noteq> nullptr \<and> p \<notin> Ld \<and> length (dev_data v p) = floats c) \<and>
     (\<forall>c p. (True, c, p) \<in> set bs \<longrightarrow> p \<noteq> nullptr \<and> p \<notin> Lh \<and> length (host_data v p) = floats c) \<and>
     dev_live v = Ld \<union> {p. \<exists>c. (False, c, p) \<in> set bs} \<and>
     host_live v = Lh \<union> {p. \<exists>c. (True, c, p) \<in> set bs}"

lemma backed_mset:
  assumes "mset bs = mset bs'"
  shows "backed Ld Lh v bs = backed Ld Lh v bs'"
proof -
  have "mset (map block_key bs) = mset (map block_key bs')" using assms by simp
  then have "distinct (map block_key bs) = distinct (map block_key bs')"
    by (rule mset_eq_imp_distinct_iff)
  with mset_eq_setD [OF assms] show ?thesis by (simp only: backed_def)
qed

lemma backed_device:
  assumes "backed Ld Lh v bs" "p \<noteq> nullptr" "p \<notin> dev_live v" "length d = floats c"
  shows "backed Ld Lh (v\<lparr>dev_live := insert p (dev_live v), dev_data := (dev_data v)(p := d)\<rparr>)
    ((False, c, p) # bs)"
  using assms by (auto simp: backed_def)

lemma backed_host:
  assumes "backed Ld Lh v bs" "p \<noteq> nullptr" "p \<notin> host_live v" "length d = floats c"
  shows "backed Ld Lh (v\<lparr>host_live := insert p (host_live v), host_data := (host_data v)(p := d)\<rparr>)
    ((True, c, p) # bs)"
  using assms by (auto simp: backed_def)

lemma backed_free_device:
  assumes "backed Ld Lh v ((False, c, p) # bs)"
  shows "p \<in> dev_live v" "backed Ld Lh (v\<lparr>dev_live := dev_live v - {p}\<rparr>) bs"
  using assms by (auto simp: backed_def)

lemma backed_free_host:
  assumes "backed Ld Lh v ((True, c, p) # bs)"
  shows "p \<in> host_live v" "backed Ld Lh (v\<lparr>host_live := host_live v - {p}\<rparr>) bs"
  using assms by (auto simp: backed_def)

text \<open>Work on the device that leaves the existing blocks and the queued work alone.\<close>

definition grows :: "gview \<Rightarrow> gview \<Rightarrow> bool" where
  "grows v v' \<longleftrightarrow>
     inflight v' = inflight v \<and> stream_live v' = stream_live v \<and>
     (\<forall>p \<in> dev_live v. p \<in> dev_live v' \<and> dev_data v' p = dev_data v p) \<and>
     (\<forall>p \<in> host_live v. p \<in> host_live v' \<and> host_data v' p = host_data v p)"

lemma grows_refl [simp]: "grows v v"
  by (simp add: grows_def)

lemma grows_trans: "grows v v' \<Longrightarrow> grows v' v'' \<Longrightarrow> grows v v''"
  by (simp add: grows_def)

text \<open>What an attempt to allocate leads to: a new block, or an error and nothing else.\<close>

definition alloc_outcome ::
    "addr set \<Rightarrow> addr set \<Rightarrow> block list \<Rightarrow> bool \<Rightarrow> size_t \<Rightarrow> 'g gpu \<Rightarrow> addr res \<Rightarrow> 'g gpu \<Rightarrow> bool" where
  "alloc_outcome Ld Lh bs pin cap g r g' \<longleftrightarrow>
     api g' = api g \<and> grows (gview_of g) (gview_of g') \<and>
     ((\<exists>p. r = Ret p \<and> p \<noteq> nullptr \<and> backed Ld Lh (gview_of g') ((pin, cap, p) # bs)) \<or>
      (\<exists>m. r = Throw (CudaError m)) \<and> backed Ld Lh (gview_of g') bs)"

lemma alloc_outcome_host:
  assumes laws: "cuda_laws (api g)" and bk: "backed Ld Lh (gview_of g) bs"
    and c: "checked_new (cudaHostAlloc (api g) cap) what g = (r, g')"
  shows "alloc_outcome Ld Lh bs True cap g r g'"
proof (cases "is_ret r")
  case True
  then obtain p where r: "r = Ret p" by (auto simp: is_ret_iff)
  from host_alloc(3) [OF laws c r] obtain d where p: "p \<noteq> nullptr" "p \<notin> host_live (gview_of g)"
    "length d = floats cap" and v: "gview_of g' = (gview_of g)\<lparr>host_live := insert p (host_live (gview_of g)),
      host_data := (host_data (gview_of g))(p := d)\<rparr>" by blast
  from p(2) have "grows (gview_of g) (gview_of g')" by (auto simp: v grows_def)
  with backed_host [OF bk p] host_alloc(1) [OF laws c] r p(1) show ?thesis
    by (simp add: alloc_outcome_def v)
next
  case False
  with host_alloc(1,2) [OF laws c] bk show ?thesis by (simp add: alloc_outcome_def)
qed

lemma alloc_outcome_device:
  assumes laws: "cuda_laws (api g)" and bk: "backed Ld Lh (gview_of g) bs"
    and c: "checked_new (cudaMalloc (api g) cap) what g = (r, g')"
  shows "alloc_outcome Ld Lh bs False cap g r g'"
proof (cases "is_ret r")
  case True
  then obtain p where r: "r = Ret p" by (auto simp: is_ret_iff)
  from device_alloc(3) [OF laws c r] obtain d where p: "p \<noteq> nullptr" "p \<notin> dev_live (gview_of g)"
    "length d = floats cap" and v: "gview_of g' = (gview_of g)\<lparr>dev_live := insert p (dev_live (gview_of g)),
      dev_data := (dev_data (gview_of g))(p := d)\<rparr>" by blast
  from p(2) have "grows (gview_of g) (gview_of g')" by (auto simp: v grows_def)
  with backed_device [OF bk p] device_alloc(1) [OF laws c] r p(1) show ?thesis
    by (simp add: alloc_outcome_def v)
next
  case False
  with device_alloc(1,2) [OF laws c] bk show ?thesis by (simp add: alloc_outcome_def)
qed

lemma allocate_block_cases:
  assumes laws: "cuda_laws (api g)" and bk: "backed Ld Lh (gview_of g) bs"
    and al: "allocate_block d cap pin g = (r, g')"
  shows "alloc_outcome Ld Lh bs pin cap g r g'"
proof (cases pin)
  case True
  with al alloc_outcome_host [OF laws bk] show ?thesis by (simp add: allocate_block_def)
next
  case False
  obtain r1 g1 where c1: "checked (cudaSetDevice (api g) d) ''cudaSetDevice'' g = (r1, g1)" by fastforce
  note sd = checked_set_device [OF laws c1]
  from sd(3) consider "r1 = Ret ()" | m where "r1 = Throw (CudaError m)" by blast
  then show ?thesis
  proof cases
    case 1
    with False al c1 have "checked_new (cudaMalloc (api g1) cap) ''cudaMalloc'' g1 = (r, g')"
      by (simp add: allocate_block_def cbind_Ret)
    moreover have "cuda_laws (api g1)" "backed Ld Lh (gview_of g1) bs" using laws bk sd by simp_all
    ultimately have "alloc_outcome Ld Lh bs False cap g1 r g'" by (intro alloc_outcome_device)
    with False sd show ?thesis by (simp add: alloc_outcome_def)
  next
    case 2
    with False al c1 have "r = Throw (CudaError m)" "g' = g1"
      by (simp_all add: allocate_block_def cbind_Throw)
    with sd bk show ?thesis by (simp add: alloc_outcome_def)
  qed
qed

section \<open>The pool's invariant\<close>

text \<open>
  \<open>os\<close> are the blocks handed out. Together with the cached ones they are what the device holds for
  the pool, and the counters agree with both.
\<close>

definition pool_inv :: "addr set \<Rightarrow> addr set \<Rightarrow> block list \<Rightarrow> 'g pst \<Rightarrow> bool" where
  "pool_inv Ld Lh os s \<longleftrightarrow>
     cuda_laws (api (dev s)) \<and>
     distinct (map fst (device_free (mp s))) \<and> distinct (map fst (pinned_free (mp s))) \<and>
     backed Ld Lh (gview_of (dev s)) (os @ cached (mp s)) \<and>
     bytes_in_use (pool_stats (mp s)) = sum_list (map block_cap os) \<and>
     bytes_cached (pool_stats (mp s)) = sum_list (map block_cap (cached (mp s))) \<and>
     live_handles (pool_stats (mp s)) = vsize os"

lemma sum_list_mset: "mset xs = mset ys \<Longrightarrow> sum_list (map f xs) = (sum_list (map f ys) :: size_t)"
  by (metis mset_map sum_mset_sum_list)

lemma pool_inv_mset:
  assumes "mset os = mset os'"
  shows "pool_inv Ld Lh os s = pool_inv Ld Lh os' s"
proof -
  have "mset (os @ cached (mp s)) = mset (os' @ cached (mp s))" using assms by simp
  note b = backed_mset [OF this, of Ld Lh "gview_of (dev s)"]
  have "length os = length os'" using assms by (rule mset_eq_length)
  then have "vsize os = vsize os'" by (simp add: vsize_def)
  with b sum_list_mset [OF assms, of block_cap] show ?thesis by (simp only: pool_inv_def)
qed

lemma pool_inv_new:
  assumes "cuda_laws (api g)"
  shows "pool_inv (dev_live (gview_of g)) (host_live (gview_of g)) [] \<lparr>mp = new_pool d, dev = g\<rparr>"
  using assms by (simp add: pool_inv_def new_pool_def cached_def backed_def zero_pool_stats_def vsize_def)

text \<open>Moving a block between the two sides, in terms of the multiset of cached blocks.\<close>

lemma pool_inv_hand_out:
  assumes "pool_inv Ld Lh os s"
    and "mset (cached (mp s)) = add_mset x (mset (cached m'))"
    and "distinct (map fst (device_free m'))" "distinct (map fst (pinned_free m'))"
    and "bytes_in_use (pool_stats m') = bytes_in_use (pool_stats (mp s)) + block_cap x"
    and "bytes_cached (pool_stats m') = bytes_cached (pool_stats (mp s)) - block_cap x"
    and "live_handles (pool_stats m') = live_handles (pool_stats (mp s)) + 1"
  shows "pool_inv Ld Lh (x # os) (s\<lparr>mp := m'\<rparr>)"
proof -
  have "mset (os @ cached (mp s)) = mset ((x # os) @ cached m')" using assms(2) by simp
  then have "backed Ld Lh (gview_of (dev s)) ((x # os) @ cached m')"
    using backed_mset assms(1) unfolding pool_inv_def by blast
  moreover have "sum_list (map block_cap (cached (mp s))) = block_cap x + sum_list (map block_cap (cached m'))"
    using sum_list_mset [of "cached (mp s)" "x # cached m'" block_cap] assms(2) by simp
  ultimately show ?thesis
    using assms by (simp add: pool_inv_def vsize_def add.commute)
qed

lemma pool_inv_take_back:
  assumes "pool_inv Ld Lh (x # os) s"
    and "mset (cached m') = add_mset x (mset (cached (mp s)))"
    and "distinct (map fst (device_free m'))" "distinct (map fst (pinned_free m'))"
    and "bytes_in_use (pool_stats m') = bytes_in_use (pool_stats (mp s)) - block_cap x"
    and "bytes_cached (pool_stats m') = bytes_cached (pool_stats (mp s)) + block_cap x"
    and "live_handles (pool_stats m') = live_handles (pool_stats (mp s)) - 1"
  shows "pool_inv Ld Lh os (s\<lparr>mp := m'\<rparr>)"
proof -
  have "mset ((x # os) @ cached (mp s)) = mset (os @ cached m')" using assms(2) by simp
  then have "backed Ld Lh (gview_of (dev s)) (os @ cached m')"
    using backed_mset assms(1) unfolding pool_inv_def by blast
  moreover have "sum_list (map block_cap (cached m')) = block_cap x + sum_list (map block_cap (cached (mp s)))"
    using sum_list_mset [of "cached m'" "x # cached (mp s)" block_cap] assms(2) by simp
  ultimately show ?thesis
    using assms by (simp add: pool_inv_def vsize_def add.commute)
qed

section \<open>Every operation keeps it\<close>

text \<open>
  The two \<open>acquire\<close> functions differ in the map they use and in one counter; the proofs treat them
  as one.
\<close>

definition free_of :: "bool \<Rightarrow> MemoryPool \<Rightarrow> free_lists" where
  "free_of pin m = (if pin then pinned_free m else device_free m)"

definition set_free :: "bool \<Rightarrow> free_lists \<Rightarrow> MemoryPool \<Rightarrow> MemoryPool" where
  "set_free pin l m = (if pin then m\<lparr>pinned_free := l\<rparr> else m\<lparr>device_free := l\<rparr>)"

definition handle :: "bool \<Rightarrow> size_t \<Rightarrow> size_t \<Rightarrow> addr \<Rightarrow> PooledBuffer" where
  "handle pin cap n p = \<lparr>attached = True, buf_ptr = p, capacity = cap, requested = n, pinned = pin\<rparr>"

text \<open>The state once the request is counted and its bucket exists.\<close>

definition looked_up :: "bool \<Rightarrow> size_t \<Rightarrow> 'g pst \<Rightarrow> 'g pst" where
  "looked_up pin cap s =
     s\<lparr>mp := set_free pin (touch cap (free_of pin (mp s)))
       ((mp s)\<lparr>pool_stats := (pool_stats (mp s))\<lparr>acquisitions := acquisitions (pool_stats (mp s)) + 1\<rparr>\<rparr>)\<rparr>"

definition count_malloc :: "bool \<Rightarrow> MemoryPoolStats \<Rightarrow> MemoryPoolStats" where
  "count_malloc pin st = (if pin then st else st\<lparr>cudamalloc_calls := cudamalloc_calls st + 1\<rparr>)"

definition acquire :: "bool \<Rightarrow> size_t \<Rightarrow> ('g pst, PooledBuffer) cmd" where
  "acquire pin n s =
     (case bucket_for n of
        Ret cap \<Rightarrow>
          (let s2 = looked_up pin cap s; l = bucket_list (free_of pin (mp s2)) cap
           in if l \<noteq> []
              then (Ret (handle pin cap n (last l)),
                    upd_stats (count_handle cap) (upd_stats (count_hit cap)
                      (s2\<lparr>mp := set_free pin (AList.update cap (butlast l) (free_of pin (mp s2))) (mp s2)\<rparr>)))
              else cbind (on_dev (allocate_block (device_id (mp s2)) cap pin))
                     (\<lambda>p s. (Ret (handle pin cap n p),
                        upd_stats (count_handle cap) (upd_stats (count_malloc pin) s))) s2)
      | _ \<Rightarrow> (Hang, s))"

lemma acquire_device_eq: "acquire_device n s = acquire False n s"
  by (cases rule: bucket_for_cases [of n])
    (simp_all add: acquire_device_def acquire_def looked_up_def free_of_def set_free_def handle_def
      upd_stats_def count_malloc_def Let_def)

lemma acquire_pinned_eq: "acquire_pinned n s = acquire True n s"
  by (cases rule: bucket_for_cases [of n])
    (simp_all add: acquire_pinned_def acquire_def looked_up_def free_of_def set_free_def handle_def
      upd_stats_def count_malloc_def Let_def)

lemma free_simps [simp]:
  "free_of pin (set_free pin l m) = l" "pool_stats (set_free pin l m) = pool_stats m"
  "device_id (set_free pin l m) = device_id m" "free_of pin (m\<lparr>pool_stats := st\<rparr>) = free_of pin m"
  by (simp_all add: free_of_def set_free_def)

lemma cached_set_free:
  "mset (cached (set_free pin l m)) + mset (entries pin (free_of pin m)) =
   mset (cached m) + mset (entries pin l)"
  by (simp add: cached_def set_free_def free_of_def)

lemma cached_stats [simp]: "cached (m\<lparr>pool_stats := st\<rparr>) = cached m"
  by (simp add: cached_def)

lemma distinct_set_free:
  assumes "distinct (map fst (device_free m))" "distinct (map fst (pinned_free m))" "distinct (map fst l)"
  shows "distinct (map fst (device_free (set_free pin l m)))"
    "distinct (map fst (pinned_free (set_free pin l m)))"
  using assms by (simp_all add: set_free_def)

lemma pool_inv_keys: "pool_inv Ld Lh os s \<Longrightarrow> distinct (map fst (free_of pin (mp s)))"
  by (simp add: pool_inv_def free_of_def)

lemma looked_up_inv:
  assumes inv: "pool_inv Ld Lh os s"
  shows "pool_inv Ld Lh os (looked_up pin cap s)"
proof -
  let ?l = "touch cap (free_of pin (mp s))"
  let ?m = "mp (looked_up pin cap s)"
  have "mset (entries pin ?l) = mset (entries pin (free_of pin (mp s)))"
    using entries_touch pool_inv_keys [OF inv] by blast
  then have ms: "mset (cached ?m) = mset (cached (mp s))"
    using cached_set_free [of pin ?l "(mp s)\<lparr>pool_stats := pool_stats ?m\<rparr>"]
    by (simp add: looked_up_def)
  then have "mset (os @ cached (mp s)) = mset (os @ cached ?m)" by simp
  note b = backed_mset [OF this, of Ld Lh "gview_of (dev s)"]
  have "distinct (map fst (device_free ?m))" "distinct (map fst (pinned_free ?m))"
    using inv distinct_set_free [OF _ _ distinct_keys_touch [OF pool_inv_keys [OF inv]]]
    by (simp_all add: looked_up_def pool_inv_def)
  with inv b sum_list_mset [OF ms, of block_cap] show ?thesis
    by (simp add: pool_inv_def) (simp add: looked_up_def)
qed

text \<open>A cache hit.\<close>

lemma acquire_hit:
  assumes inv: "pool_inv Ld Lh os s" and l: "bucket_list (free_of pin (mp s)) cap \<noteq> []"
  defines "p \<equiv> last (bucket_list (free_of pin (mp s)) cap)"
    and "s' \<equiv> upd_stats (count_handle cap) (upd_stats (count_hit cap) (s\<lparr>mp := set_free pin
      (AList.update cap (butlast (bucket_list (free_of pin (mp s)) cap)) (free_of pin (mp s))) (mp s)\<rparr>))"
  shows "pool_inv Ld Lh ((pin, cap, p) # os) s'" and "dev s' = dev s"
proof -
  let ?u = "AList.update cap (butlast (bucket_list (free_of pin (mp s)) cap)) (free_of pin (mp s))"
  have "mset (entries pin (free_of pin (mp s))) = add_mset (pin, cap, p) (mset (entries pin ?u))"
    unfolding p_def by (rule entries_pop [OF pool_inv_keys [OF inv] l])
  with cached_set_free [of pin ?u "mp s"]
  have ms: "mset (cached (mp s)) = add_mset (pin, cap, p) (mset (cached (set_free pin ?u (mp s))))"
    by simp
  have d: "distinct (map fst ?u)" by (rule distinct_keys_update [OF pool_inv_keys [OF inv]])
  have s': "s' = s\<lparr>mp := mp s'\<rparr>" by (simp add: s'_def upd_stats_def)
  have "pool_inv Ld Lh ((pin, cap, p) # os) (s\<lparr>mp := mp s'\<rparr>)"
  proof (rule pool_inv_hand_out [OF inv])
    show "mset (cached (mp s)) = add_mset (pin, cap, p) (mset (cached (mp s')))"
      using ms by (simp add: s'_def upd_stats_def)
  qed (use inv distinct_set_free [OF _ _ d] in
      \<open>simp_all add: s'_def upd_stats_def count_handle_def count_hit_def pool_inv_def\<close>)
  then show "pool_inv Ld Lh ((pin, cap, p) # os) s'" using s' by simp
  show "dev s' = dev s" by (simp add: s'_def upd_stats_def)
qed

text \<open>A cache miss that the device could serve.\<close>

lemma acquire_miss:
  assumes "pool_inv Ld Lh os s" and "api g' = api (dev s)"
    and "backed Ld Lh (gview_of g') ((pin, cap, p) # os @ cached (mp s))"
  shows "pool_inv Ld Lh ((pin, cap, p) # os)
    (upd_stats (count_handle cap) (upd_stats (count_malloc pin) (s\<lparr>dev := g'\<rparr>)))"
  using assms
  by (simp add: pool_inv_def upd_stats_def count_handle_def count_malloc_def vsize_def add.commute)

text \<open>A handle fresh from the pool.\<close>

definition acquired :: "size_t \<Rightarrow> bool \<Rightarrow> PooledBuffer \<Rightarrow> bool" where
  "acquired n pin b \<longleftrightarrow> attached b \<and> buf_ptr b \<noteq> nullptr \<and> pinned b = pin \<and> requested b = n \<and>
     bucket_for n = Ret (capacity b)"

lemma acquired_handle:
  "bucket_for n = Ret cap \<Longrightarrow> p \<noteq> nullptr \<Longrightarrow> acquired n pin (handle pin cap n p)"
  "p \<noteq> nullptr \<Longrightarrow> block_of (handle pin cap n p) = [(pin, cap, p)]"
  by (simp_all add: acquired_def handle_def block_of_def)

lemma acquire_cases:
  assumes inv: "pool_inv Ld Lh os s" and aq: "acquire pin n s = (r, s')"
  obtains (hang) "r = Hang" "s' = s" "bucket_for n = Hang"
    | (ret) b where "r = Ret b" "acquired n pin b" "pool_inv Ld Lh (block_of b @ os) s'"
        "api (dev s') = api (dev s)" "grows (gview_of (dev s)) (gview_of (dev s'))"
    | (throw) m where "r = Throw (CudaError m)" "pool_inv Ld Lh os s'"
        "api (dev s') = api (dev s)" "grows (gview_of (dev s)) (gview_of (dev s'))"
proof (cases rule: bucket_for_cases [of n])
  case hangs
  with aq that(1) show ?thesis by (simp add: acquire_def)
next
  case (bucket cap)
  define s2 where "s2 = looked_up pin cap s"
  let ?l = "bucket_list (free_of pin (mp s2)) cap"
  have dev2: "dev s2 = dev s" by (simp add: s2_def looked_up_def)
  have inv2: "pool_inv Ld Lh os s2" unfolding s2_def by (rule looked_up_inv [OF inv])
  show ?thesis
  proof (cases "?l = []")
    case False
    note hit = acquire_hit [OF inv2 False]
    have "last ?l \<noteq> nullptr" using hit(1) by (cases pin) (auto simp: pool_inv_def backed_def)
    with aq bucket False hit dev2 acquired_handle(1) [of n cap "last ?l" pin] acquired_handle(2) [of "last ?l" pin cap n] show ?thesis
      by (intro that(2) [of "handle pin cap n (last ?l)"]) (auto simp: acquire_def s2_def Let_def)
  next
    case True
    obtain q g' where al: "allocate_block (device_id (mp s2)) cap pin (dev s2) = (q, g')" by fastforce
    have "cuda_laws (api (dev s2))" "backed Ld Lh (gview_of (dev s2)) (os @ cached (mp s2))"
      using inv2 by (simp_all add: pool_inv_def)
    note ac = allocate_block_cases [OF this al, unfolded alloc_outcome_def]
    have g': "api g' = api (dev s)" "grows (gview_of (dev s)) (gview_of g')" using ac dev2 by auto
    from ac consider (got) p where "q = Ret p" "p \<noteq> nullptr"
        "backed Ld Lh (gview_of g') ((pin, cap, p) # os @ cached (mp s2))"
      | (not) m where "q = Throw (CudaError m)" "backed Ld Lh (gview_of g') (os @ cached (mp s2))"
      by blast
    then show ?thesis
    proof cases
      case got
      with aq bucket True al acquire_miss [OF inv2 _ got(3)] g' dev2 acquired_handle(1) [of n cap p pin]
        acquired_handle(2) [of p pin cap n]
      show ?thesis
        by (intro that(2) [of "handle pin cap n p"])
          (auto simp: acquire_def s2_def Let_def cbind_def on_dev_def upd_stats_def)
    next
      case not
      have "pool_inv Ld Lh os (s2\<lparr>dev := g'\<rparr>)" using inv2 not(2) g'(1) dev2 by (simp add: pool_inv_def)
      with aq bucket True al not(1) g' show ?thesis
        by (intro that(3) [of m]) (auto simp: acquire_def s2_def Let_def cbind_def on_dev_def)
    qed
  qed
qed

lemmas acquire_device_cases = acquire_cases [where pin = False, folded acquire_device_eq,
  consumes 2, case_names hang ret throw]
lemmas acquire_pinned_cases = acquire_cases [where pin = True, folded acquire_pinned_eq,
  consumes 2, case_names hang ret throw]

subsection \<open>Giving blocks back\<close>

lemma pool_release_inv:
  assumes inv: "pool_inv Ld Lh ((pin, cap, p) # os) s"
  shows "pool_inv Ld Lh os (pool_release p cap pin s)" and "dev (pool_release p cap pin s) = dev s"
proof -
  let ?u = "AList.update cap (bucket_list (free_of pin (mp s)) cap @ [p]) (free_of pin (mp s))"
  define s' where "s' = pool_release p cap pin s"
  have s': "s' = s\<lparr>mp := mp s'\<rparr>" by (simp add: s'_def pool_release_def upd_stats_def Let_def)
  have m': "mp s' = (set_free pin ?u (mp s))\<lparr>pool_stats := (pool_stats (mp s))\<lparr>
      bytes_in_use := bytes_in_use (pool_stats (mp s)) - cap,
      bytes_cached := bytes_cached (pool_stats (mp s)) + cap,
      live_handles := live_handles (pool_stats (mp s)) - 1\<rparr>\<rparr>"
    by (simp add: s'_def pool_release_def upd_stats_def set_free_def free_of_def Let_def)
  have "mset (entries pin ?u) = add_mset (pin, cap, p) (mset (entries pin (free_of pin (mp s))))"
    by (rule entries_push [OF pool_inv_keys [OF inv]])
  with cached_set_free [of pin ?u "mp s"]
  have ms: "mset (cached (mp s')) = add_mset (pin, cap, p) (mset (cached (mp s)))"
    by (simp add: m')
  have d: "distinct (map fst ?u)" by (rule distinct_keys_update [OF pool_inv_keys [OF inv]])
  have "pool_inv Ld Lh os (s\<lparr>mp := mp s'\<rparr>)"
    by (rule pool_inv_take_back [OF inv ms])
      (use inv distinct_set_free [OF _ _ d] in \<open>simp_all add: m' pool_inv_def\<close>)
  then show "pool_inv Ld Lh os (pool_release p cap pin s)" using s' by (simp add: s'_def)
  show "dev (pool_release p cap pin s) = dev s"
    by (simp add: pool_release_def upd_stats_def Let_def)
qed

lemma pooled_destroy_inv:
  assumes "pool_inv Ld Lh (block_of b @ os) s"
  shows "pool_inv Ld Lh os (pooled_destroy b s)" and "dev (pooled_destroy b s) = dev s"
proof -
  have "pool_inv Ld Lh os (pooled_destroy b s) \<and> dev (pooled_destroy b s) = dev s"
  proof (cases "attached b \<and> buf_ptr b \<noteq> nullptr")
    case True
    with assms have "pool_inv Ld Lh ((pinned b, capacity b, buf_ptr b) # os) s" by (simp add: block_of_def)
    from pool_release_inv [OF this] True show ?thesis by (simp add: pooled_destroy_def pooled_release_def)
  next
    case False
    then have "pooled_destroy b s = s" "block_of b = []"
      by (auto simp: pooled_destroy_def pooled_release_def block_of_def)
    with assms show ?thesis by simp
  qed
  then show "pool_inv Ld Lh os (pooled_destroy b s)" "dev (pooled_destroy b s) = dev s" by blast+
qed

lemma free_block_backed:
  assumes "cuda_laws (api g)" and "backed Ld Lh (gview_of g) ((pin, cap, p) # bs)"
  shows "api (free_block p pin g) = api g" and "backed Ld Lh (gview_of (free_block p pin g)) bs"
    and "stream_live (gview_of (free_block p pin g)) = stream_live (gview_of g)"
  using assms device_freed [OF assms(1), of p] host_freed [OF assms(1), of p]
    backed_free_device [of Ld Lh "gview_of g" cap p bs] backed_free_host [of Ld Lh "gview_of g" cap p bs]
  by (cases pin; simp add: free_block_def)+

text \<open>What \<open>trim\<close> does to the pool record: only one counter changes before the lists are emptied.\<close>

abbreviation cached_less :: "size_t \<Rightarrow> MemoryPool \<Rightarrow> MemoryPool" where
  "cached_less n m \<equiv> m\<lparr>pool_stats := (pool_stats m)\<lparr>bytes_cached := bytes_cached (pool_stats m) - n\<rparr>\<rparr>"

lemma free_blocks_backed:
  assumes "cuda_laws (api (dev s))" and "backed Ld Lh (gview_of (dev s)) (map (\<lambda>p. (pin, cap, p)) ps @ bs)"
  shows "api (dev (free_blocks pin cap ps s)) = api (dev s) \<and>
    backed Ld Lh (gview_of (dev (free_blocks pin cap ps s))) bs \<and>
    stream_live (gview_of (dev (free_blocks pin cap ps s))) = stream_live (gview_of (dev s)) \<and>
    mp (free_blocks pin cap ps s) = cached_less (sum_list (map (\<lambda>p. cap) ps)) (mp s)"
  using assms
proof (induction ps arbitrary: s)
  case (Cons p ps)
  let ?s = "upd_stats (\<lambda>st. st\<lparr>bytes_cached := bytes_cached st - cap\<rparr>) (s\<lparr>dev := free_block p pin (dev s)\<rparr>)"
  have "backed Ld Lh (gview_of (dev s)) ((pin, cap, p) # map (\<lambda>p. (pin, cap, p)) ps @ bs)"
    using Cons.prems(2) by simp
  note fb = free_block_backed [OF Cons.prems(1) this]
  have "dev ?s = free_block p pin (dev s)" by (simp add: upd_stats_def)
  with Cons.IH [of ?s] fb Cons.prems(1) show ?case by (simp add: upd_stats_def diff_diff_eq)
qed simp

lemma trim_lists_backed:
  assumes "cuda_laws (api (dev s))" and "backed Ld Lh (gview_of (dev s)) (entries pin m @ bs)"
    and "trim_lists pin m s = (m', s')"
  shows "api (dev s') = api (dev s) \<and> backed Ld Lh (gview_of (dev s')) bs \<and>
    stream_live (gview_of (dev s')) = stream_live (gview_of (dev s)) \<and>
    mp s' = cached_less (sum_list (map block_cap (entries pin m))) (mp s) \<and>
    map fst m' = map fst m \<and> entries pin m' = []"
  using assms
proof (induction m arbitrary: s m' s')
  case (Cons a m)
  obtain cap ps where a: "a = (cap, ps)" by (cases a)
  let ?s = "free_blocks pin cap ps s"
  obtain m1 s1 where t: "trim_lists pin m ?s = (m1, s1)" by fastforce
  have fb: "api (dev ?s) = api (dev s) \<and> backed Ld Lh (gview_of (dev ?s)) (entries pin m @ bs) \<and>
      stream_live (gview_of (dev ?s)) = stream_live (gview_of (dev s)) \<and>
      mp ?s = cached_less (sum_list (map (\<lambda>p. cap) ps)) (mp s)"
    using Cons.prems(1,2) by (intro free_blocks_backed) (simp_all add: a)
  have eq: "m' = (cap, []) # m1" "s' = s1" using Cons.prems(3) t by (simp_all add: a)
  from Cons.IH [OF _ _ t] fb Cons.prems(1) eq show ?case by (simp add: a diff_diff_eq comp_def)
qed simp

lemma trim_inv:
  assumes inv: "pool_inv Ld Lh os s"
  shows "pool_inv Ld Lh os (trim s)" and "cached (mp (trim s)) = []"
    and "live_handles (pool_stats (mp (trim s))) = live_handles (pool_stats (mp s))"
    and "stream_live (gview_of (dev (trim s))) = stream_live (gview_of (dev s))"
proof -
  let ?de = "entries False (device_free (mp s))" and ?pe = "entries True (pinned_free (mp s))"
  obtain df s1 where t1: "trim_lists False (device_free (mp s)) s = (df, s1)" by fastforce
  have "mset (os @ cached (mp s)) = mset (?de @ ?pe @ os)" by (simp add: cached_def)
  then have "backed Ld Lh (gview_of (dev s)) (?de @ ?pe @ os)"
    using inv backed_mset unfolding pool_inv_def by blast
  moreover have laws: "cuda_laws (api (dev s))" using inv by (simp add: pool_inv_def)
  ultimately have 1: "api (dev s1) = api (dev s)" "backed Ld Lh (gview_of (dev s1)) (?pe @ os)"
    "mp s1 = cached_less (sum_list (map block_cap ?de)) (mp s)"
    "map fst df = map fst (device_free (mp s))" "entries False df = []"
    "stream_live (gview_of (dev s1)) = stream_live (gview_of (dev s))"
    using trim_lists_backed [OF _ _ t1, of Ld Lh "?pe @ os"] by auto
  let ?s1 = "s1\<lparr>mp := (mp s1)\<lparr>device_free := df\<rparr>\<rparr>"
  obtain pf s2 where t2: "trim_lists True (pinned_free (mp s1)) ?s1 = (pf, s2)" by fastforce
  have "pinned_free (mp s1) = pinned_free (mp s)" by (simp add: 1(3))
  with trim_lists_backed [OF _ _ t2, of Ld Lh os] 1 laws
  have 2: "api (dev s2) = api (dev s)" "backed Ld Lh (gview_of (dev s2)) os"
    "mp s2 = cached_less (sum_list (map block_cap ?pe)) ((mp s1)\<lparr>device_free := df\<rparr>)"
    "map fst pf = map fst (pinned_free (mp s))" "entries True pf = []"
    "stream_live (gview_of (dev s2)) = stream_live (gview_of (dev s))"
    by auto
  have ts: "trim s = s2\<lparr>mp := (mp s2)\<lparr>pinned_free := pf\<rparr>\<rparr>"
    by (simp add: trim_def t1 t2)
  show c: "cached (mp (trim s)) = []" using 1(5) 2(3,5) by (simp add: ts cached_def)
  show "live_handles (pool_stats (mp (trim s))) = live_handles (pool_stats (mp s))"
    by (simp add: ts 2(3) 1(3))
  show "stream_live (gview_of (dev (trim s))) = stream_live (gview_of (dev s))" by (simp add: ts 2(6))
  have "bytes_cached (pool_stats (mp (trim s))) = 0"
    using inv by (simp add: ts 2(3) 1(3) pool_inv_def cached_def)
  with c inv 1(1,4) 2(1,2,4) show "pool_inv Ld Lh os (trim s)"
    by (simp add: pool_inv_def) (simp add: ts 2(3) 1(3))
qed

section \<open>Programs over handles\<close>

text \<open>
  As for the owned buffers: acquire into a new variable, end the life of one, move, move-assign, and
  trim the pool. A call that throws adds no variable; one that hangs does nothing more.
\<close>

datatype poolop = PAcquireDevice size_t | PAcquirePinned size_t | PDestroy nat | PMove nat
  | PAssign nat nat | PTrim

fun pool_step :: "poolop \<Rightarrow> PooledBuffer list \<times> 'g pst \<Rightarrow> PooledBuffer list \<times> 'g pst" where
  "pool_step (PAcquireDevice n) (hs, s) =
     (case acquire_device n s of (Ret b, s') \<Rightarrow> (hs @ [b], s') | (_, s') \<Rightarrow> (hs, s'))"
| "pool_step (PAcquirePinned n) (hs, s) =
     (case acquire_pinned n s of (Ret b, s') \<Rightarrow> (hs @ [b], s') | (_, s') \<Rightarrow> (hs, s'))"
| "pool_step (PDestroy i) (hs, s) =
     (if i < length hs then (hs[i := pooled_blank], pooled_destroy (hs ! i) s) else (hs, s))"
| "pool_step (PMove i) (hs, s) =
     (if i < length hs
      then (case pooled_move (hs ! i) of (new, old) \<Rightarrow> (hs[i := old] @ [new], s)) else (hs, s))"
| "pool_step (PAssign i j) (hs, s) =
     (if i < length hs \<and> j < length hs
      then (case pooled_assign (i = j) (hs ! i) (hs ! j) s of
              ((this, other), s') \<Rightarrow> (hs[j := other, i := this], s'))
      else (hs, s))"
| "pool_step PTrim (hs, s) = (hs, trim s)"

fun pool_run :: "poolop list \<Rightarrow> PooledBuffer list \<times> 'g pst \<Rightarrow> PooledBuffer list \<times> 'g pst" where
  "pool_run [] c = c"
| "pool_run (op # ops) c = pool_run ops (pool_step op c)"

lemma block_of_blank [simp]: "block_of pooled_blank = []"
  by (simp add: block_of_def pooled_blank_def)

lemma out_simps [simp]:
  "out [] = []" "out (b # hs) = block_of b @ out hs" "out (hs @ hs') = out hs @ out hs'"
  by (simp_all add: out_def)

lemma out_update:
  "i < length hs \<Longrightarrow>
   mset (out (hs[i := b])) + mset (block_of (hs ! i)) = mset (out hs) + mset (block_of b)"
proof (induction hs arbitrary: i)
  case (Cons h hs)
  then show ?case by (cases i) (auto simp: add.assoc add.left_commute)
qed simp

text \<open>Pulling one variable's block to the front.\<close>

lemma pool_inv_focus:
  assumes "i < length hs"
  shows "pool_inv Ld Lh (out hs) s = pool_inv Ld Lh (block_of (hs ! i) @ out (hs[i := pooled_blank])) s"
  using out_update [OF assms, of pooled_blank] by (intro pool_inv_mset) (simp add: add.commute)

lemma pool_step_destroy:
  assumes "i < length hs" "pool_inv Ld Lh (out hs) s"
  shows "pool_inv Ld Lh (out (hs[i := pooled_blank])) (pooled_destroy (hs ! i) s)"
  using pooled_destroy_inv(1) pool_inv_focus [OF assms(1)] assms(2) by blast

lemma pooled_assign_simps:
  assumes "pooled_assign False a b s = ((a', b'), s')"
  shows "s' = pooled_destroy a s" "block_of a' = block_of b" "b' = pooled_blank"
  using assms by (auto simp: pooled_assign_def pooled_release_def pooled_destroy_def block_of_def)

lemma pool_step_assign:
  assumes ij: "i < length hs" "j < length hs" "i \<noteq> j" and inv: "pool_inv Ld Lh (out hs) s"
    and a: "pooled_assign False (hs ! i) (hs ! j) s = ((a', b'), s')"
  shows "pool_inv Ld Lh (out (hs[j := b', i := a'])) s'"
proof -
  note as = pooled_assign_simps [OF a]
  have "pool_inv Ld Lh (out (hs[i := pooled_blank])) s'"
    using pool_step_destroy [OF ij(1) inv] as(1) by simp
  moreover have "mset (out (hs[j := b', i := a'])) = mset (out (hs[i := pooled_blank]))"
  proof -
    have "hs[j := b', i := a'] = hs[i := pooled_blank, j := b', i := a']"
      using ij(3) by (simp add: list_update_swap)
    moreover have "mset (out (hs[i := pooled_blank, j := b', i := a'])) =
        mset (out (hs[i := pooled_blank, j := b'])) + mset (block_of a')"
      using out_update [of i "hs[i := pooled_blank, j := b']" a'] ij by simp
    moreover have "mset (out (hs[i := pooled_blank, j := b'])) + mset (block_of (hs ! j)) =
        mset (out (hs[i := pooled_blank]))"
      using out_update [of j "hs[i := pooled_blank]" b'] ij as(3) by simp
    ultimately show ?thesis using as(2) by simp
  qed
  ultimately show ?thesis using pool_inv_mset by blast
qed

lemma pool_inv_snoc: "pool_inv Ld Lh (block_of b @ out hs) s \<Longrightarrow> pool_inv Ld Lh (out (hs @ [b])) s"
proof -
  have "mset (block_of b @ out hs) = mset (out (hs @ [b]))" by simp
  from pool_inv_mset [OF this] show "pool_inv Ld Lh (block_of b @ out hs) s \<Longrightarrow> ?thesis" by blast
qed

lemma pool_step_inv:
  assumes inv: "pool_inv Ld Lh (out hs) s" and st: "pool_step op (hs, s) = (hs', s')"
  shows "pool_inv Ld Lh (out hs') s'"
proof (cases op)
  case (PAcquireDevice n)
  obtain r s1 where r: "acquire_device n s = (r, s1)" by fastforce
  from inv r show ?thesis
    by (cases rule: acquire_device_cases) (use PAcquireDevice r st inv pool_inv_snoc in auto)
next
  case (PAcquirePinned n)
  obtain r s1 where r: "acquire_pinned n s = (r, s1)" by fastforce
  from inv r show ?thesis
    by (cases rule: acquire_pinned_cases) (use PAcquirePinned r st inv pool_inv_snoc in auto)
next
  case (PDestroy i)
  with st inv pool_step_destroy [of i hs Ld Lh s] show ?thesis by (auto split: if_splits)
next
  case (PMove i)
  show ?thesis
  proof (cases "i < length hs")
    case True
    with PMove st have "hs' = hs[i := pooled_blank] @ [hs ! i]" "s' = s"
      by (simp_all add: pooled_move_def)
    with inv pool_inv_focus [OF True] pool_inv_snoc show ?thesis by blast
  qed (use PMove st inv in simp)
next
  case (PAssign i j)
  show ?thesis
  proof (cases "i < length hs \<and> j < length hs \<and> i \<noteq> j")
    case True
    obtain a' b' s1 where a: "pooled_assign False (hs ! i) (hs ! j) s = ((a', b'), s1)"
      by (cases "pooled_assign False (hs ! i) (hs ! j) s") auto
    with PAssign st True have "hs' = hs[j := b', i := a']" "s' = s1" by simp_all
    with pool_step_assign [OF _ _ _ inv a] True show ?thesis by simp
  next
    case False
    then have "hs' = hs \<and> s' = s"
      using PAssign st by (auto simp: pooled_assign_def split: if_splits)
    with inv show ?thesis by simp
  qed
next
  case PTrim
  with st inv trim_inv(1) [OF inv] show ?thesis by simp
qed

lemma pool_run_inv:
  "pool_inv Ld Lh (out hs) s \<Longrightarrow> pool_run ops (hs, s) = (hs', s') \<Longrightarrow> pool_inv Ld Lh (out hs') s'"
proof (induction ops arbitrary: hs s)
  case (Cons op ops)
  obtain hs1 s1 where st: "pool_step op (hs, s) = (hs1, s1)" by fastforce
  with Cons.prems(2) have "pool_run ops (hs1, s1) = (hs', s')" by simp
  with Cons.IH [of hs1 s1] pool_step_inv [OF Cons.prems(1) st] show ?case by blast
qed simp

section \<open>Properties of the pool\<close>

text \<open>
  C12: For every program over handles, whatever allocations fail: no block has two owners (handles or free
  lists), every block is as large as its bucket, the device holds exactly the pool's blocks besides what it
  held before, and the byte and handle counters agree with the blocks handed out and cached.
\<close>

theorem pool_accounts:
  assumes "cuda_laws (api g)" and "pool_run ops ([], \<lparr>mp = new_pool d, dev = g\<rparr>) = (hs, s)"
  shows "pool_inv (dev_live (gview_of g)) (host_live (gview_of g)) (out hs) s"
proof -
  have "pool_inv (dev_live (gview_of g)) (host_live (gview_of g)) (out []) \<lparr>mp = new_pool d, dev = g\<rparr>"
    using pool_inv_new [OF assms(1)] by simp
  from pool_run_inv [OF this assms(2)] show ?thesis .
qed

lemmas pool_evals = acquire_device_def acquire_pinned_def bucket_for_small upd_stats_def touch_def
  bucket_list_def on_dev_def allocate_block_def count_handle_def count_hit_def new_pool_def
  zero_pool_stats_def pooled_destroy_def pooled_release_def pool_release_def pooled_blank_def
  pool_destroy_def trim_def free_block_def Let_def

definition pool_demo :: "poolop list" where
  "pool_demo = [PAcquireDevice 100, PDestroy 0, PAcquireDevice 200, PAcquirePinned 8]"

theorem pool_accounts_witness:
  "out (fst (pool_run pool_demo ([], \<lparr>mp = new_pool 0, dev = sim_gpu 100\<rparr>))) =
     [(False, 4096, 1), (True, 4096, 2)] \<and>
   bytes_in_use (pool_stats (mp (snd (pool_run pool_demo ([], \<lparr>mp = new_pool 0, dev = sim_gpu 100\<rparr>))))) = 8192"
proof -
  let ?c = "pool_run pool_demo ([], \<lparr>mp = new_pool 0, dev = sim_gpu 100\<rparr>)"
  have o: "out (fst ?c) = [(False, 4096, 1), (True, 4096, 2)]"
    by (simp add: pool_demo_def pool_evals sim_evals block_of_def word_le_nat_alt)
  obtain hs s where c: "?c = (hs, s)" by fastforce
  have "pool_inv (dev_live (gview_of (sim_gpu 100))) (host_live (gview_of (sim_gpu 100))) (out hs) s"
    using pool_accounts [OF _ c] sim_laws by simp
  with o c show ?thesis by (simp add: pool_inv_def)
qed

text \<open>
  C24: Destroying the pool after its handles gives back every block it ever allocated and touches nothing
  else; destroying it while handles are alive ends the process instead of leaving them dangling.
\<close>

theorem pool_destroy_safe:
  assumes "cuda_laws (api g)" and "pool_run ops ([], \<lparr>mp = new_pool d, dev = g\<rparr>) = (hs, s)"
  shows "(out hs = [] \<longrightarrow> (\<exists>s'. pool_destroy s = Ret s' \<and>
      dev_live (gview_of (dev s')) = dev_live (gview_of g) \<and>
      host_live (gview_of (dev s')) = host_live (gview_of g))) \<and>
    (out hs \<noteq> [] \<and> length (out hs) < 2 ^ 64 \<longrightarrow> pool_destroy s = Terminate)"
proof -
  have "pool_inv (dev_live (gview_of g)) (host_live (gview_of g)) (out []) \<lparr>mp = new_pool d, dev = g\<rparr>"
    using pool_inv_new [OF assms(1)] by simp
  from pool_run_inv [OF this assms(2)]
  have inv: "pool_inv (dev_live (gview_of g)) (host_live (gview_of g)) (out hs) s" .
  then have lh: "live_handles (pool_stats (mp s)) = vsize (out hs)" by (simp add: pool_inv_def)
  have "pool_destroy s = Terminate" if "out hs \<noteq> []" "length (out hs) < 2 ^ 64"
  proof -
    have "unat (vsize (out hs)) \<noteq> 0" using that by (simp add: unat_vsize)
    with lh show ?thesis by (auto simp: pool_destroy_def)
  qed
  moreover have "\<exists>s'. pool_destroy s = Ret s' \<and> dev_live (gview_of (dev s')) = dev_live (gview_of g) \<and>
      host_live (gview_of (dev s')) = host_live (gview_of g)" if "out hs = []"
    using trim_inv(1,2) [OF inv] lh that
    by (auto simp: pool_destroy_def vsize_def pool_inv_def backed_def)
  ultimately show ?thesis by blast
qed

theorem pool_destroy_safe_witness:
  "pool_destroy (snd (pool_run pool_demo ([], \<lparr>mp = new_pool 0, dev = sim_gpu 100\<rparr>))) = Terminate"
proof -
  let ?c = "pool_run pool_demo ([], \<lparr>mp = new_pool 0, dev = sim_gpu 100\<rparr>)"
  have "out (fst ?c) = [(False, 4096, 1), (True, 4096, 2)]"
    by (simp add: pool_demo_def pool_evals sim_evals block_of_def word_le_nat_alt)
  moreover obtain hs s where c: "?c = (hs, s)" by fastforce
  moreover note pool_destroy_safe [OF _ c]
  ultimately show ?thesis using sim_laws by simp
qed

text \<open>
  A released device block is the next one handed out for its bucket, without any call to the CUDA
  runtime and without counting an allocation: after warm-up the hot path does not allocate.
\<close>

theorem released_block_reused:
  assumes "attached b" "buf_ptr b \<noteq> nullptr" "\<not> pinned b" "bucket_for n = Ret (capacity b)"
  shows "\<exists>b' s'. acquire_device n (pooled_destroy b s) = (Ret b', s') \<and>
    buf_ptr b' = buf_ptr b \<and> capacity b' = capacity b \<and> requested b' = n \<and> dev s' = dev s \<and>
    cudamalloc_calls (pool_stats (mp s')) = cudamalloc_calls (pool_stats (mp s)) \<and>
    cache_hits (pool_stats (mp s')) = cache_hits (pool_stats (mp s)) + 1 \<and>
    bytes_in_use (pool_stats (mp s')) = bytes_in_use (pool_stats (mp s)) \<and>
    bucket_list (device_free (mp s')) (capacity b) = bucket_list (device_free (mp s)) (capacity b)"
proof -
  have "\<exists>m. pooled_destroy b s = s\<lparr>mp := m\<rparr> \<and>
      bucket_list (device_free m) (capacity b) = bucket_list (device_free (mp s)) (capacity b) @ [buf_ptr b] \<and>
      pool_stats m = (pool_stats (mp s))\<lparr>bytes_in_use := bytes_in_use (pool_stats (mp s)) - capacity b,
        bytes_cached := bytes_cached (pool_stats (mp s)) + capacity b,
        live_handles := live_handles (pool_stats (mp s)) - 1\<rparr>"
    using assms(1-3)
    by (intro exI [of _ "mp (pooled_destroy b s)"])
      (simp add: pooled_destroy_def pooled_release_def pool_release_def upd_stats_def Let_def)
  then show ?thesis
    using assms(4) by (auto simp: acquire_device_def upd_stats_def count_handle_def count_hit_def Let_def)
qed

theorem released_block_reused_witness:
  "\<exists>b' s'. acquire_device 300 (pooled_destroy
      \<lparr>attached = True, buf_ptr = 9, capacity = 4096, requested = 5, pinned = False\<rparr>
      \<lparr>mp = new_pool 0, dev = sim_gpu 1\<rparr>) = (Ret b', s') \<and> buf_ptr b' = 9"
proof -
  have "bucket_for 300 = Ret 4096" by (simp add: bucket_for_small)
  with released_block_reused
    [of "\<lparr>attached = True, buf_ptr = 9, capacity = 4096, requested = 5, pinned = False\<rparr>" 300
      "\<lparr>mp = new_pool 0, dev = sim_gpu 1\<rparr>"]
  show ?thesis by auto
qed

end
