(* ===== verification/Request_Queue.thy ===== *)
theory Request_Queue
  imports Floats
begin

text \<open>
  \<open>RequestQueue\<close> (cpp/src/scheduler/request_queue.cpp): the deque behind a mutex and a
  condition variable. Every critical section is one function on the queue's state; the blocking
  consumer call \<open>wait_and_drain\<close> is a control state that leaves the lock exactly where the code
  waits, and the step relation interleaves it with producers, shutdown, notifications, spurious
  wake-ups and the passing of time. The interface the scheduler relies on is the locale
  \<open>closable_fifo\<close>, interpreted here on the queue's own operations.
\<close>

section \<open>Data\<close>

record InferenceResult =
  res_request_id :: u64
  logits :: "f32 list"

text \<open>
  \<open>arrival_time\<close> is a point of the steady clock in nanoseconds; \<open>result_promise\<close> names the
  shared state of the request's \<open>std::promise\<close>.
\<close>

record InferenceRequest =
  request_id :: u64
  input_data :: "f32 list"
  arrival_time :: int
  result_promise :: nat

record RequestQueue =
  queue :: "InferenceRequest list"
  stop_requested :: bool

definition empty_queue :: RequestQueue where
  "empty_queue = \<lparr>queue = [], stop_requested = False\<rparr>"

section \<open>Critical sections\<close>

text \<open>
  A deque of 64-byte requests holds at most \<open>PTRDIFF_MAX / 64\<close> of them; \<open>push_back\<close> on a full
  one throws and leaves it as it is.
\<close>

definition deque_max_size :: nat where
  "deque_max_size = 2 ^ 57 - 1"

definition push :: "InferenceRequest \<Rightarrow> RequestQueue \<Rightarrow> bool res \<times> RequestQueue" where
  "push request q =
     (if stop_requested q then (Ret False, q)
      else if deque_max_size \<le> length (queue q)
      then (Throw (LengthError ''cannot create std::deque larger than max_size()''), q)
      else (Ret True, q\<lparr>queue := queue q @ [request]\<rparr>))"

definition shutdown :: "RequestQueue \<Rightarrow> RequestQueue" where
  "shutdown q = q\<lparr>stop_requested := True\<rparr>"

definition queue_size :: "RequestQueue \<Rightarrow> size_t" where
  "queue_size q = vsize (queue q)"

text \<open>The draining loop; \<open>front()\<close> of an empty deque is undefined.\<close>

fun drain_loop :: "nat \<Rightarrow> 'a list \<Rightarrow> 'a list \<Rightarrow> ('a list \<times> 'a list) res" where
  "drain_loop 0 batch items = Ret (batch, items)"
| "drain_loop (Suc n) batch [] = Undef"
| "drain_loop (Suc n) batch (x # items) = drain_loop n (batch @ [x]) items"

definition drain :: "size_t \<Rightarrow> RequestQueue \<Rightarrow> (InferenceRequest list \<times> RequestQueue) res" where
  "drain max_batch_size q =
     res_bind (drain_loop (unat (min max_batch_size (queue_size q))) [] (queue q))
       (\<lambda>(batch, items). Ret (batch, q\<lparr>queue := items\<rparr>))"

section \<open>The consumer\<close>

text \<open>
  Where the consumer is: not inside \<open>wait_and_drain\<close>; blocked in the untimed wait; blocked in
  the timed wait with its absolute deadline; or returning a batch. The flag of a blocked state
  says that a notification has reached it.
\<close>

datatype wad_pc =
    Outside
  | Parked1 bool
  | Parked2 int bool
  | Returned "InferenceRequest list"

definition wad_return :: "size_t \<Rightarrow> RequestQueue \<Rightarrow> (wad_pc \<times> RequestQueue) res" where
  "wad_return max_batch_size q =
     res_bind (drain max_batch_size q) (\<lambda>(batch, q'). Ret (Returned batch, q'))"

text \<open>
  The timed wait: evaluate its predicate with the lock held, drain when it holds or when the
  wait has run out, and otherwise block again until the deadline.
\<close>

definition wad_window ::
    "size_t \<Rightarrow> int \<Rightarrow> bool \<Rightarrow> RequestQueue \<Rightarrow> (wad_pc \<times> RequestQueue) res" where
  "wad_window max_batch_size deadline expired q =
     (if max_batch_size \<le> queue_size q \<or> stop_requested q \<or> expired
      then wad_return max_batch_size q
      else Ret (Parked2 deadline False, q))"

text \<open>The call up to the first place where it blocks or returns; \<open>timeout\<close> is in milliseconds.\<close>

definition wad_enter ::
    "size_t \<Rightarrow> int \<Rightarrow> int \<Rightarrow> RequestQueue \<Rightarrow> (wad_pc \<times> RequestQueue) res" where
  "wad_enter max_batch_size timeout now q =
     (if queue q = [] \<and> \<not> stop_requested q then Ret (Parked1 False, q)
      else if queue q = [] then Ret (Returned [], q)
      else if 0 < timeout
      then wad_window max_batch_size (now + timeout * 1000000) False q
      else wad_return max_batch_size q)"

fun notified :: "wad_pc \<Rightarrow> wad_pc" where
  "notified (Parked1 b) = Parked1 True"
| "notified (Parked2 d b) = Parked2 d True"
| "notified pc = pc"

section \<open>Interleavings\<close>

text \<open>
  \<open>notifying\<close> counts the threads that have left the critical section of \<open>push\<close> or
  \<open>shutdown\<close> and have not yet called \<open>notify_one\<close> or \<open>notify_all\<close>. With the single
  consumer the class is written for, the two notifications do the same.
\<close>

record qsys =
  rq :: RequestQueue
  cpc :: wad_pc
  now :: int
  notifying :: nat

definition init_qsys :: qsys where
  "init_qsys = \<lparr>rq = empty_queue, cpc = Outside, now = 0, notifying = 0\<rparr>"

text \<open>What the consumer's environment does: a pending notification arrives, time passes.\<close>

inductive env_step :: "qsys \<Rightarrow> qsys \<Rightarrow> bool" where
  e_notify: "notifying s = Suc n \<Longrightarrow> env_step s (s\<lparr>notifying := n, cpc := notified (cpc s)\<rparr>)"
| e_tick: "now s \<le> t \<Longrightarrow> env_step s (s\<lparr>now := t\<rparr>)"

text \<open>
  What the consumer does: call \<open>wait_and_drain\<close>, wake up (notified or spuriously) in either wait,
  or run out of time in the second.
\<close>

inductive consumer_step :: "size_t \<Rightarrow> int \<Rightarrow> qsys \<Rightarrow> qsys \<Rightarrow> bool" for max_batch_size timeout where
  c_call: "cpc s = Outside \<Longrightarrow>
     wad_enter max_batch_size timeout (now s) (rq s) = Ret (pc', q') \<Longrightarrow>
     consumer_step max_batch_size timeout s (s\<lparr>rq := q', cpc := pc'\<rparr>)"
| c_wake1: "cpc s = Parked1 b \<Longrightarrow>
     wad_enter max_batch_size timeout (now s) (rq s) = Ret (pc', q') \<Longrightarrow>
     consumer_step max_batch_size timeout s (s\<lparr>rq := q', cpc := pc'\<rparr>)"
| c_wake2: "cpc s = Parked2 d b \<Longrightarrow>
     wad_window max_batch_size d False (rq s) = Ret (pc', q') \<Longrightarrow>
     consumer_step max_batch_size timeout s (s\<lparr>rq := q', cpc := pc'\<rparr>)"
| c_timeout: "cpc s = Parked2 d b \<Longrightarrow> d \<le> now s \<Longrightarrow>
     wad_window max_batch_size d True (rq s) = Ret (pc', q') \<Longrightarrow>
     consumer_step max_batch_size timeout s (s\<lparr>rq := q', cpc := pc'\<rparr>)"

inductive_cases consumer_stepE: "consumer_step n t s s'"

inductive qstep :: "size_t \<Rightarrow> int \<Rightarrow> qsys \<Rightarrow> qsys \<Rightarrow> bool" for max_batch_size timeout where
  q_push: "push r (rq s) = (Ret True, q') \<Longrightarrow>
     qstep max_batch_size timeout s (s\<lparr>rq := q', notifying := Suc (notifying s)\<rparr>)"
| q_shutdown:
    "qstep max_batch_size timeout s
       (s\<lparr>rq := shutdown (rq s), notifying := Suc (notifying s)\<rparr>)"
| q_env: "env_step s s' \<Longrightarrow> qstep max_batch_size timeout s s'"
| q_consumer: "consumer_step max_batch_size timeout s s' \<Longrightarrow> qstep max_batch_size timeout s s'"
| q_taken: "cpc s = Returned b \<Longrightarrow> qstep max_batch_size timeout s (s\<lparr>cpc := Outside\<rparr>)"

section \<open>What the critical sections do\<close>

lemma drain_loop_eq:
  "drain_loop n batch items =
     (if n \<le> length items then Ret (batch @ take n items, drop n items) else Undef)"
  by (induction n batch items rule: drain_loop.induct) auto

lemma unat_vsize_le: "unat (vsize xs) \<le> length xs"
  by (simp add: vsize_def unat_of_nat)

text \<open>The number of requests one call takes off the queue.\<close>

definition drain_count :: "size_t \<Rightarrow> RequestQueue \<Rightarrow> nat" where
  "drain_count n q = unat (min n (queue_size q))"

lemma drain_count_le: "drain_count n q \<le> length (queue q)" "drain_count n q \<le> unat n"
  using unat_vsize_le [of "queue q"]
  by (auto simp: drain_count_def queue_size_def min_def word_le_nat_alt)

lemma drain_count_fits:
  "length (queue q) < 2 ^ 64 \<Longrightarrow> drain_count n q = min (unat n) (length (queue q))"
  by (simp add: drain_count_def queue_size_def min_def word_le_nat_alt unat_vsize)

lemma drain_eq:
  "drain n q =
     Ret (take (drain_count n q) (queue q), q\<lparr>queue := drop (drain_count n q) (queue q)\<rparr>)"
  using drain_count_le(1) [of n q] by (simp add: drain_def drain_loop_eq drain_count_def)

lemma wad_return_eq:
  "wad_return n q =
     Ret (Returned (take (drain_count n q) (queue q)),
          q\<lparr>queue := drop (drain_count n q) (queue q)\<rparr>)"
  by (simp add: wad_return_def drain_eq)

section \<open>The interface the scheduler relies on\<close>

text \<open>
  A closable first-in first-out queue of bounded capacity, with a batched dequeue.
\<close>

locale closable_fifo =
  fixes items :: "'q \<Rightarrow> 'a list"
    and closed :: "'q \<Rightarrow> bool"
    and enq :: "'a \<Rightarrow> 'q \<Rightarrow> bool res \<times> 'q"
    and deq :: "size_t \<Rightarrow> 'q \<Rightarrow> ('a list \<times> 'q) res"
    and close :: "'q \<Rightarrow> 'q"
    and capacity :: nat
  assumes enq_open: "\<not> closed q \<Longrightarrow> length (items q) < capacity \<Longrightarrow>
      \<exists>q'. enq x q = (Ret True, q') \<and> items q' = items q @ [x] \<and> \<not> closed q'"
    and enq_closed: "closed q \<Longrightarrow> enq x q = (Ret False, q)"
    and enq_full: "\<not> closed q \<Longrightarrow> capacity \<le> length (items q) \<Longrightarrow>
      \<exists>e. enq x q = (Throw e, q)"
    and deq_splits: "\<exists>b q'. deq n q = Ret (b, q') \<and> items q = b @ items q' \<and>
      closed q' = closed q \<and> length b \<le> unat n"
    and deq_takes: "deq n q = Ret (b, q') \<Longrightarrow> length (items q) \<le> capacity \<Longrightarrow>
      length b = min (unat n) (length (items q))"
    and close_items [simp]: "items (close q) = items q"
    and close_closed [simp]: "closed (close q)"

text \<open>A sequence of operations, with the elements it accepted and the ones it delivered.\<close>

datatype 'a qop = Enq 'a | Deq size_t | Close

fun fifo_run ::
    "('a \<Rightarrow> 'q \<Rightarrow> bool res \<times> 'q) \<Rightarrow> (size_t \<Rightarrow> 'q \<Rightarrow> ('a list \<times> 'q) res) \<Rightarrow> ('q \<Rightarrow> 'q) \<Rightarrow>
     'a qop list \<Rightarrow> 'q \<Rightarrow> ('a list \<times> 'a list \<times> 'q) res" where
  "fifo_run enq deq close [] q = Ret ([], [], q)"
| "fifo_run enq deq close (Enq x # ops) q =
     (case enq x q of (r, q') \<Rightarrow>
        res_bind (fifo_run enq deq close ops q')
          (\<lambda>(acc, del, qf). Ret (if r = Ret True then x # acc else acc, del, qf)))"
| "fifo_run enq deq close (Deq n # ops) q =
     res_bind (deq n q) (\<lambda>(b, q').
       res_bind (fifo_run enq deq close ops q') (\<lambda>(acc, del, qf). Ret (acc, b @ del, qf)))"
| "fifo_run enq deq close (Close # ops) q = fifo_run enq deq close ops (close q)"

context closable_fifo
begin

lemma enq_cases:
  obtains (accepted) q' where "enq x q = (Ret True, q')" "items q' = items q @ [x]"
      "\<not> closed q" "\<not> closed q'"
    | (rejected) r where "enq x q = (r, q)" "r \<noteq> Ret True"
  using enq_open [of q x] enq_closed [of q x] enq_full [of q x]
  by (cases "closed q"; cases "length (items q) < capacity") (auto simp: not_less)

lemma deqE:
  obtains b q' where "deq n q = Ret (b, q')" "items q = b @ items q'" "closed q' = closed q"
    "length b \<le> unat n"
  using deq_splits [of n q] by blast

text \<open>Nothing is lost, duplicated or reordered, and no sequence of operations gets stuck.\<close>

lemma run_conserves:
  "\<exists>acc del qf. fifo_run enq deq close ops q = Ret (acc, del, qf) \<and>
     items q @ acc = del @ items qf"
proof (induction ops arbitrary: q)
  case Nil
  show ?case by simp
next
  case (Cons op ops)
  show ?case
  proof (cases op)
    case (Enq x)
    show ?thesis
    proof (cases rule: enq_cases [of x q])
      case (accepted q')
      obtain acc del qf where "fifo_run enq deq close ops q' = Ret (acc, del, qf)"
        "items q' @ acc = del @ items qf" using Cons.IH [of q'] by blast
      with Enq accepted show ?thesis by simp
    next
      case (rejected r)
      obtain acc del qf where "fifo_run enq deq close ops q = Ret (acc, del, qf)"
        "items q @ acc = del @ items qf" using Cons.IH [of q] by blast
      with Enq rejected show ?thesis by simp
    qed
  next
    case (Deq n)
    obtain b q' where dq: "deq n q = Ret (b, q')" "items q = b @ items q'" by (rule deqE)
    obtain acc del qf where "fifo_run enq deq close ops q' = Ret (acc, del, qf)"
      "items q' @ acc = del @ items qf" using Cons.IH [of q'] by blast
    with Deq dq show ?thesis by simp
  next
    case Close
    with Cons.IH [of "close q"] show ?thesis by simp
  qed
qed

text \<open>Once closed, a queue accepts nothing more.\<close>

lemma closed_accepts_nothing:
  "closed q \<Longrightarrow> fifo_run enq deq close ops q = Ret (acc, del, qf) \<Longrightarrow> acc = []"
proof (induction ops arbitrary: q acc del)
  case Nil
  then show ?case by simp
next
  case (Cons op ops)
  show ?case
  proof (cases op)
    case (Enq x)
    with Cons show ?thesis by (auto simp: enq_closed res_simps)
  next
    case (Deq n)
    obtain b q' where "deq n q = Ret (b, q')" "closed q' = closed q" by (rule deqE)
    with Deq Cons show ?thesis by (auto simp: res_simps)
  next
    case Close
    with Cons.IH [of "close q"] Cons.prems show ?thesis by simp
  qed
qed

end

interpretation rqi: closable_fifo queue stop_requested push drain shutdown deque_max_size
proof unfold_locales
  fix q :: RequestQueue and x n b q'
  show "drain n q = Ret (b, q') \<Longrightarrow> length (queue q) \<le> deque_max_size \<Longrightarrow>
      length b = min (unat n) (length (queue q))"
    by (auto simp: drain_eq drain_count_fits deque_max_size_def)
  show "\<exists>b q'. drain n q = Ret (b, q') \<and> queue q = b @ queue q' \<and>
      stop_requested q' = stop_requested q \<and> length b \<le> unat n"
    using drain_count_le(2) [of n q] by (auto simp: drain_eq)
qed (auto simp: push_def shutdown_def)

section \<open>The consumer's states\<close>

lemma wad_window_cases:
  obtains (drained) "wad_window n d e q = wad_return n q"
      "n \<le> queue_size q \<or> stop_requested q \<or> e"
    | (parked) "wad_window n d e q = Ret (Parked2 d False, q)"
      "\<not> n \<le> queue_size q" "\<not> stop_requested q" "\<not> e"
  by (cases "n \<le> queue_size q \<or> stop_requested q \<or> e") (auto simp: wad_window_def)

lemma wad_enter_cases:
  obtains (parked) "wad_enter n t c q = Ret (Parked1 False, q)" "queue q = []" "\<not> stop_requested q"
    | (stopped) "wad_enter n t c q = Ret (Returned [], q)" "queue q = []" "stop_requested q"
    | (window) "wad_enter n t c q = wad_window n (c + t * 1000000) False q" "queue q \<noteq> []" "0 < t"
    | (immediate) "wad_enter n t c q = wad_return n q" "queue q \<noteq> []" "t \<le> 0"
  by (cases "queue q = []"; cases "stop_requested q"; cases "0 < t")
    (auto simp: wad_enter_def)

inductive qreach :: "size_t \<Rightarrow> int \<Rightarrow> qsys \<Rightarrow> bool" for n t where
  qreach_init: "qreach n t init_qsys"
| qreach_step: "qreach n t s \<Longrightarrow> qstep n t s s' \<Longrightarrow> qreach n t s'"

text \<open>
  No wake-up is lost: whenever a blocked consumer could proceed, a notification has reached it
  or a thread is about to send one. A consumer in its timed wait always has a request to serve.
\<close>

definition no_lost_wakeup :: "size_t \<Rightarrow> qsys \<Rightarrow> bool" where
  "no_lost_wakeup n s \<longleftrightarrow>
     (case cpc s of
        Parked1 b \<Rightarrow> (queue (rq s) \<noteq> [] \<or> stop_requested (rq s)) \<longrightarrow> b \<or> 0 < notifying s
      | Parked2 d b \<Rightarrow> queue (rq s) \<noteq> [] \<and>
          ((n \<le> queue_size (rq s) \<or> stop_requested (rq s)) \<longrightarrow> b \<or> 0 < notifying s)
      | _ \<Rightarrow> True)"

lemma no_lost_wakeup_return:
  "wad_return n q = Ret (pc', q') \<Longrightarrow> no_lost_wakeup n (s\<lparr>rq := q', cpc := pc'\<rparr>)"
  by (auto simp: wad_return_eq no_lost_wakeup_def)

lemma no_lost_wakeup_window:
  assumes "wad_window n d e q = Ret (pc', q')" and "queue q \<noteq> []"
  shows "no_lost_wakeup n (s\<lparr>rq := q', cpc := pc'\<rparr>)"
proof (cases rule: wad_window_cases [of n d e q])
  case drained
  with assms(1) show ?thesis by (simp add: no_lost_wakeup_return)
next
  case parked
  with assms show ?thesis by (auto simp: no_lost_wakeup_def)
qed

lemma no_lost_wakeup_enter:
  assumes "wad_enter n t c q = Ret (pc', q')"
  shows "no_lost_wakeup n (s\<lparr>rq := q', cpc := pc'\<rparr>)"
proof (cases rule: wad_enter_cases [of n t c q])
  case window
  with assms show ?thesis by (simp add: no_lost_wakeup_window)
next
  case immediate
  with assms show ?thesis by (simp add: no_lost_wakeup_return)
qed (use assms in \<open>auto simp: no_lost_wakeup_def\<close>)

lemma env_step_no_lost_wakeup:
  "env_step s s' \<Longrightarrow> no_lost_wakeup n s \<Longrightarrow> no_lost_wakeup n s'"
proof (induction rule: env_step.induct)
  case (e_notify s m)
  then show ?case by (cases "cpc s") (auto simp: no_lost_wakeup_def)
next
  case (e_tick s c)
  then show ?case by (auto simp: no_lost_wakeup_def split: wad_pc.splits)
qed

lemma consumer_step_no_lost_wakeup:
  "consumer_step n t s s' \<Longrightarrow> no_lost_wakeup n s \<Longrightarrow> no_lost_wakeup n s'"
proof (induction rule: consumer_step.induct)
  case (c_wake2 s d b pc' q')
  then show ?case by (intro no_lost_wakeup_window) (auto simp: no_lost_wakeup_def)
next
  case (c_timeout s d b pc' q')
  then show ?case by (intro no_lost_wakeup_window) (auto simp: no_lost_wakeup_def)
qed (blast intro: no_lost_wakeup_enter)+

lemma qstep_no_lost_wakeup:
  "qstep n t s s' \<Longrightarrow> no_lost_wakeup n s \<Longrightarrow> no_lost_wakeup n s'"
proof (induction rule: qstep.induct)
  case (q_push r s q')
  then show ?case
    by (auto simp: no_lost_wakeup_def push_def split: wad_pc.splits if_splits)
next
  case (q_shutdown s)
  then show ?case by (auto simp: no_lost_wakeup_def shutdown_def split: wad_pc.splits)
next
  case (q_taken s b)
  then show ?case by (simp add: no_lost_wakeup_def)
qed (blast intro: env_step_no_lost_wakeup consumer_step_no_lost_wakeup)+

text \<open>
  What else holds between the steps: the deque stays within its capacity, the batching window
  closes at most \<open>timeout\<close> after the present, and a returned batch is no longer than
  \<open>max_batch_size\<close> and empty only when the queue is drained and shut down (or the limit is 0).
\<close>

definition consumer_ok :: "size_t \<Rightarrow> int \<Rightarrow> qsys \<Rightarrow> bool" where
  "consumer_ok n t s \<longleftrightarrow>
     length (queue (rq s)) \<le> deque_max_size \<and>
     (case cpc s of
        Parked2 d b \<Rightarrow> 0 < t \<and> d \<le> now s + t * 1000000
      | Returned b \<Rightarrow> length b \<le> unat n \<and>
          (b = [] \<longrightarrow> n = 0 \<or> queue (rq s) = [] \<and> stop_requested (rq s))
      | _ \<Rightarrow> True)"

lemma consumer_ok_return:
  assumes "wad_return n q = Ret (pc', q')" "queue q \<noteq> []" "length (queue q) \<le> deque_max_size"
  shows "consumer_ok n t (s\<lparr>rq := q', cpc := pc'\<rparr>)"
  using assms drain_count_le(2) [of n q] drain_count_fits [of q n]
  by (auto simp: consumer_ok_def wad_return_eq deque_max_size_def min_def unat_eq_zero split: if_splits)

lemma consumer_ok_window:
  assumes "wad_window n d e q = Ret (pc', q')" "queue q \<noteq> []" "length (queue q) \<le> deque_max_size"
    and "0 < t" "d \<le> now s + t * 1000000"
  shows "consumer_ok n t (s\<lparr>rq := q', cpc := pc'\<rparr>)"
proof (cases rule: wad_window_cases [of n d e q])
  case drained
  with assms show ?thesis by (simp add: consumer_ok_return)
next
  case parked
  with assms show ?thesis by (auto simp: consumer_ok_def)
qed

lemma consumer_ok_enter:
  assumes "wad_enter n t (now s) q = Ret (pc', q')" "length (queue q) \<le> deque_max_size"
  shows "consumer_ok n t (s\<lparr>rq := q', cpc := pc'\<rparr>)"
proof (cases rule: wad_enter_cases [of n t "now s" q])
  case window
  with assms consumer_ok_window [of n "now s + t * 1000000" False q pc' q' t s]
  show ?thesis by simp
next
  case immediate
  with assms show ?thesis by (simp add: consumer_ok_return)
qed (use assms in \<open>auto simp: consumer_ok_def\<close>)

lemma env_step_consumer_ok:
  "env_step s s' \<Longrightarrow> consumer_ok n t s \<Longrightarrow> consumer_ok n t s'"
proof (induction rule: env_step.induct)
  case (e_notify s m)
  then show ?case by (cases "cpc s") (auto simp: consumer_ok_def)
next
  case (e_tick s c)
  then show ?case by (auto simp: consumer_ok_def split: wad_pc.splits)
qed

lemma consumer_step_consumer_ok:
  "consumer_step n t s s' \<Longrightarrow> consumer_ok n t s \<Longrightarrow> no_lost_wakeup n s \<Longrightarrow> consumer_ok n t s'"
proof (induction rule: consumer_step.induct)
  case (c_call s pc' q')
  then show ?case by (intro consumer_ok_enter) (auto simp: consumer_ok_def)
next
  case (c_wake1 s b pc' q')
  then show ?case by (intro consumer_ok_enter) (auto simp: consumer_ok_def)
next
  case (c_wake2 s d b pc' q')
  from c_wake2.hyps(2) show ?case
    by (rule consumer_ok_window)
      (use c_wake2 in \<open>auto simp: consumer_ok_def no_lost_wakeup_def\<close>)
next
  case (c_timeout s d b pc' q')
  from c_timeout.hyps(3) show ?case
    by (rule consumer_ok_window)
      (use c_timeout in \<open>auto simp: consumer_ok_def no_lost_wakeup_def\<close>)
qed

lemma qstep_consumer_ok:
  "qstep n t s s' \<Longrightarrow> consumer_ok n t s \<Longrightarrow> no_lost_wakeup n s \<Longrightarrow> consumer_ok n t s'"
proof (induction rule: qstep.induct)
  case (q_push r s q')
  then show ?case
    by (auto simp: consumer_ok_def push_def split: wad_pc.splits if_splits)
next
  case (q_shutdown s)
  then show ?case by (auto simp: consumer_ok_def shutdown_def split: wad_pc.splits)
next
  case (q_taken s b)
  then show ?case by (simp add: consumer_ok_def)
qed (blast intro: env_step_consumer_ok consumer_step_consumer_ok)+

definition queue_inv :: "size_t \<Rightarrow> int \<Rightarrow> qsys \<Rightarrow> bool" where
  "queue_inv n t s \<longleftrightarrow> no_lost_wakeup n s \<and> consumer_ok n t s"

lemma queue_inv_init: "queue_inv n t init_qsys"
  by (simp add: queue_inv_def no_lost_wakeup_def consumer_ok_def init_qsys_def empty_queue_def)

lemma qstep_queue_inv: "qstep n t s s' \<Longrightarrow> queue_inv n t s \<Longrightarrow> queue_inv n t s'"
  by (auto simp: queue_inv_def intro: qstep_no_lost_wakeup qstep_consumer_ok)

lemma qreach_queue_inv: "qreach n t s \<Longrightarrow> queue_inv n t s"
  by (induction rule: qreach.induct) (auto intro: queue_inv_init qstep_queue_inv)

text \<open>The consumer's sections always complete: they block or return.\<close>

lemma wad_window_total: "\<exists>pc' q'. wad_window n d e q = Ret (pc', q')"
  by (cases rule: wad_window_cases [of n d e q]) (auto simp: wad_return_eq)

lemma wad_enter_total: "\<exists>pc' q'. wad_enter n t c q = Ret (pc', q')"
  using wad_window_total by (cases rule: wad_enter_cases [of n t c q]) (auto simp: wad_return_eq)






text \<open>A consumer's step moves requests from the front of the queue into the returned batch.\<close>

definition held :: "wad_pc \<Rightarrow> InferenceRequest list" where
  "held pc = (case pc of Returned b \<Rightarrow> b | _ \<Rightarrow> [])"

lemma held_simps [simp]:
  "held Outside = []" "held (Parked1 f) = []" "held (Parked2 d f) = []" "held (Returned b) = b"
  "held (notified pc) = held pc"
  by (simp_all add: held_def) (cases pc; simp add: held_def)

lemma wad_return_moves:
  "wad_return n q = Ret (pc', q') \<Longrightarrow>
     held pc' @ queue q' = queue q \<and> stop_requested q' = stop_requested q"
  by (auto simp: wad_return_eq)

lemma wad_window_moves:
  "wad_window n d e q = Ret (pc', q') \<Longrightarrow>
     held pc' @ queue q' = queue q \<and> stop_requested q' = stop_requested q"
  using wad_return_moves by (cases rule: wad_window_cases [of n d e q]) auto

lemma wad_enter_moves:
  "wad_enter n t c q = Ret (pc', q') \<Longrightarrow>
     held pc' @ queue q' = queue q \<and> stop_requested q' = stop_requested q"
  using wad_return_moves wad_window_moves
  by (cases rule: wad_enter_cases [of n t c q]) auto

lemma consumer_step_moves:
  assumes "consumer_step n t s s'"
  shows "held (cpc s) = [] \<and> held (cpc s') @ queue (rq s') = queue (rq s) \<and>
    stop_requested (rq s') = stop_requested (rq s)"
  using assms
  by (cases rule: consumer_step.cases)
    (simp_all add: wad_enter_moves wad_window_moves)

section \<open>Properties of the queue\<close>

text \<open>
  C23: Whatever sequence of \<open>push\<close>, \<open>wait_and_drain\<close> and \<open>shutdown\<close> sections runs on a fresh queue, every
  section completes, and the accepted requests are the delivered ones followed by those still queued:
  nothing is lost, duplicated or reordered.
\<close>

theorem queue_fifo:
  "\<exists>acc del qf. fifo_run push drain shutdown ops empty_queue = Ret (acc, del, qf) \<and>
     acc = del @ queue qf"
  using rqi.run_conserves [of ops empty_queue] by (simp add: empty_queue_def)

text \<open>
  After \<open>shutdown\<close> the queue accepts nothing more, while everything accepted before it is still
  delivered first in, first out.
\<close>

theorem shutdown_accepts_nothing:
  "\<exists>del qf. fifo_run push drain shutdown ops (shutdown q) = Ret ([], del, qf) \<and>
     queue q = del @ queue qf"
proof -
  obtain acc del qf where run: "fifo_run push drain shutdown ops (shutdown q) = Ret (acc, del, qf)"
    and "queue (shutdown q) @ acc = del @ queue qf"
    using rqi.run_conserves by blast
  moreover have "acc = []"
    using rqi.closed_accepts_nothing [OF rqi.close_closed run] .
  ultimately show ?thesis by simp
qed

text \<open>
  C15: In every interleaving of producers, \<open>shutdown\<close>, notifications, spurious wake-ups and time, a
  consumer blocked in \<open>wait_and_drain\<close> whose wait condition holds has been notified or will be: no
  wake-up is lost.
\<close>

theorem wakeup_not_lost:
  assumes "qreach n t s"
  shows "no_lost_wakeup n s"
  using qreach_queue_inv [OF assms] by (simp add: queue_inv_def)

definition sample_request :: InferenceRequest where
  "sample_request = \<lparr>request_id = 7, input_data = [fzero], arrival_time = 0, result_promise = 0\<rparr>"

definition parked_qsys :: qsys where
  "parked_qsys = init_qsys\<lparr>cpc := Parked1 False\<rparr>"

definition woken_qsys :: qsys where
  "woken_qsys = parked_qsys\<lparr>rq := \<lparr>queue = [sample_request], stop_requested = False\<rparr>, notifying := 1\<rparr>"

lemma qreach_parked: "qreach 4 5 parked_qsys"
proof -
  have "consumer_step 4 5 init_qsys (init_qsys\<lparr>rq := empty_queue, cpc := Parked1 False\<rparr>)"
    by (rule c_call) (simp_all add: init_qsys_def wad_enter_def empty_queue_def)
  then show ?thesis
    using qreach_step [OF qreach_init q_consumer]
    by (simp add: parked_qsys_def init_qsys_def empty_queue_def)
qed

lemma qreach_woken: "qreach 4 5 woken_qsys"
proof -
  have "push sample_request (rq parked_qsys) = (Ret True, \<lparr>queue = [sample_request], stop_requested = False\<rparr>)"
    by (simp add: push_def parked_qsys_def init_qsys_def empty_queue_def deque_max_size_def)
  from qreach_step [OF qreach_parked q_push [OF this]] show ?thesis
    by (simp add: woken_qsys_def parked_qsys_def init_qsys_def)
qed

theorem wakeup_not_lost_witness:
  "qreach 4 5 woken_qsys \<and> no_lost_wakeup 4 woken_qsys \<and> cpc woken_qsys = Parked1 False \<and>
   queue (rq woken_qsys) \<noteq> []"
  using qreach_woken wakeup_not_lost [OF qreach_woken]
  by (simp add: woken_qsys_def parked_qsys_def)





end
