(* ===== verification/Scheduler.thy ===== *)
theory Scheduler
  imports Request_Queue Execution_Engine
begin

text \<open>
  The sequential part of \<open>Scheduler\<close> (cpp/src/scheduler/scheduler.cpp): configuration,
  statistics, promises, and one iteration of \<open>run_loop\<close> from the drained requests to the
  resolved promises. The facts: a request of the wrong size is failed without touching its
  batch-mates; every other request is answered with the row the engine computes for its own
  input, whatever it was batched with, or with the engine's exception; nothing is resolved twice;
  and the counters account for exactly the requests that reached the engine.
\<close>

section \<open>Configuration and statistics\<close>

record SchedulerConfig =
  max_batch_size :: size_t
  max_wait :: int
  input_elems :: size_t
  output_elems :: size_t

definition default_scheduler_config :: SchedulerConfig where
  "default_scheduler_config =
     \<lparr>max_batch_size = 1, max_wait = 5, input_elems = 0, output_elems = 0\<rparr>"

record SchedulerStats =
  total_batches :: u64
  total_requests :: u64
  max_batch_size_seen :: u64
  total_queue_wait_us :: u64
  max_queue_wait_us :: u64
  total_exec_us :: u64

definition zero_stats :: SchedulerStats where
  "zero_stats = \<lparr>total_batches = 0, total_requests = 0, max_batch_size_seen = 0,
     total_queue_wait_us = 0, max_queue_wait_us = 0, total_exec_us = 0\<rparr>"

definition f64_1000 :: f64 where
  "f64_1000 = Fin False 1000"

definition avg_queue_wait_ms :: "SchedulerStats \<Rightarrow> f64" where
  "avg_queue_wait_ms s =
     (if total_requests s = 0 then fzero
      else f64_div (f64_div (f64_of_u64 (total_queue_wait_us s)) (f64_of_u64 (total_requests s)))
        f64_1000)"

definition max_queue_wait_ms :: "SchedulerStats \<Rightarrow> f64" where
  "max_queue_wait_ms s = f64_div (f64_of_u64 (max_queue_wait_us s)) f64_1000"

definition avg_exec_ms :: "SchedulerStats \<Rightarrow> f64" where
  "avg_exec_ms s =
     (if total_batches s = 0 then fzero
      else f64_div (f64_div (f64_of_u64 (total_exec_us s)) (f64_of_u64 (total_batches s)))
        f64_1000)"

text \<open>
  \<open>duration_cast<microseconds>\<close> of a nanosecond difference truncates towards zero; both uses in
  the scheduler then replace a negative count by zero.
\<close>

definition duration_us :: "int \<Rightarrow> int" where
  "duration_us ns = (if ns < 0 then - (- ns div 1000) else ns div 1000)"

definition elapsed_us :: "int \<Rightarrow> int \<Rightarrow> u64" where
  "elapsed_us start finish =
     (let delta = duration_us (finish - start) in if 0 < delta then of_int delta else 0)"

text \<open>
  The compare-exchange loop that raises a maximum. \<open>env\<close> lists, attempt by attempt, what another
  thread stored just before it (if anything) and whether the weak exchange fails spuriously;
  past its end the loop runs undisturbed. \<open>previous\<close> is the loop's last reading of the cell.
\<close>

fun cas_max_loop :: "u64 \<Rightarrow> (u64 option \<times> bool) list \<Rightarrow> u64 \<Rightarrow> u64 \<Rightarrow> u64" where
  "cas_max_loop new [] previous cell =
     (if previous < new
      then (if cell = previous then new else if cell < new then new else cell)
      else cell)"
| "cas_max_loop new ((other, spurious) # env) previous cell =
     (if previous < new
      then (let cell' = (case other of None \<Rightarrow> cell | Some v \<Rightarrow> v)
            in if cell' = previous \<and> \<not> spurious then new
               else cas_max_loop new env cell' cell')
      else cell)"

definition cas_max :: "u64 \<Rightarrow> u64 \<Rightarrow> u64" where
  "cas_max new cell = cas_max_loop new [] cell cell"

section \<open>Promises\<close>

text \<open>The shared state of a promise, and a store of them; a promise can be resolved once.\<close>

datatype pstate = Unset | Value InferenceResult | Exception exn

type_synonym pstore = "nat \<Rightarrow> pstate"

definition set_value :: "nat \<Rightarrow> InferenceResult \<Rightarrow> pstore \<Rightarrow> pstore res" where
  "set_value p v st =
     (if st p = Unset then Ret (st(p := Value v))
      else Throw (FutureError ''promise already satisfied''))"

definition set_exception :: "nat \<Rightarrow> exn \<Rightarrow> pstore \<Rightarrow> pstore res" where
  "set_exception p e st =
     (if st p = Unset then Ret (st(p := Exception e))
      else Throw (FutureError ''promise already satisfied''))"

section \<open>One iteration of the worker loop\<close>

text \<open>What an iteration works on: the engine, the counters and the promises.\<close>

record 'e core =
  engine :: 'e
  counters :: SchedulerStats
  promises :: pstore

definition size_mismatch :: exn where
  "size_mismatch = InferenceError ''input size does not match configured input_elems''"

fun reject_misfits ::
    "size_t \<Rightarrow> InferenceRequest list \<Rightarrow> pstore \<Rightarrow> (InferenceRequest list \<times> pstore) res" where
  "reject_misfits elems [] st = Ret ([], st)"
| "reject_misfits elems (req # drained) st =
     (if vsize (input_data req) \<noteq> elems
      then res_bind (set_exception (result_promise req) size_mismatch st)
             (reject_misfits elems drained)
      else res_bind (reject_misfits elems drained st)
             (\<lambda>(batch, st'). Ret (req # batch, st')))"

definition count_batch :: "InferenceRequest list \<Rightarrow> SchedulerStats \<Rightarrow> SchedulerStats" where
  "count_batch batch s =
     s\<lparr>total_batches := total_batches s + 1,
       total_requests := total_requests s + vsize batch,
       max_batch_size_seen := cas_max (vsize batch) (max_batch_size_seen s)\<rparr>"

fun record_waits :: "int \<Rightarrow> InferenceRequest list \<Rightarrow> SchedulerStats \<Rightarrow> SchedulerStats" where
  "record_waits dequeued_at [] s = s"
| "record_waits dequeued_at (req # batch) s =
     (let waited_us = elapsed_us (arrival_time req) dequeued_at
      in record_waits dequeued_at batch
           (s\<lparr>total_queue_wait_us := total_queue_wait_us s + waited_us,
             max_queue_wait_us := cas_max waited_us (max_queue_wait_us s)\<rparr>))"

text \<open>Slice each output row and resolve the promise of the request with the same index.\<close>

fun resolve_rows ::
    "size_t \<Rightarrow> f32 list \<Rightarrow> nat \<Rightarrow> InferenceRequest list \<Rightarrow> pstore \<Rightarrow> unit res \<times> pstore" where
  "resolve_rows elems output i [] st = (Ret (), st)"
| "resolve_rows elems output i (req # batch) st =
     (case res_bind (vec_slice output (of_nat i * elems) ((of_nat i + 1) * elems))
        (\<lambda>l. set_value (result_promise req)
               \<lparr>res_request_id = request_id req, logits = l\<rparr> st) of
        Ret st' \<Rightarrow> resolve_rows elems output (Suc i) batch st'
      | Throw e \<Rightarrow> (Throw e, st)
      | Terminate \<Rightarrow> (Terminate, st)
      | Undef \<Rightarrow> (Undef, st)
      | Hang \<Rightarrow> (Hang, st))"

text \<open>The handler: an exception here leaves the thread function, which ends the process.\<close>

fun fail_all :: "exn \<Rightarrow> InferenceRequest list \<Rightarrow> pstore \<Rightarrow> pstore res" where
  "fail_all e [] st = Ret st"
| "fail_all e (req # batch) st =
     (case set_exception (result_promise req) e st of
        Ret st' \<Rightarrow> fail_all e batch st'
      | Throw _ \<Rightarrow> Terminate
      | Terminate \<Rightarrow> Terminate
      | Undef \<Rightarrow> Undef
      | Hang \<Rightarrow> Hang)"

definition deliver ::
    "SchedulerConfig \<Rightarrow> InferenceRequest list \<Rightarrow> f32 list \<Rightarrow> pstore \<Rightarrow> pstore res" where
  "deliver cfg batch output st =
     (if vsize output \<noteq> vsize batch * output_elems cfg
      then fail_all (InferenceError ''engine returned an unexpected output size'') batch st
      else case resolve_rows (output_elems cfg) output 0 batch st of
             (Ret _, st') \<Rightarrow> Ret st'
           | (Throw e, st') \<Rightarrow> fail_all e batch st'
           | (Terminate, st') \<Rightarrow> Terminate
           | (Undef, st') \<Rightarrow> Undef
           | (Hang, st') \<Rightarrow> Hang)"

text \<open>
  The batch that passed the size check: count it, concatenate it, call the engine and hand the
  rows or the exception to the promises. \<open>dequeued_at\<close>, \<open>exec_started\<close> and \<open>exec_ended\<close> are
  the clock readings. A concatenation too long for a vector throws outside the \<open>try\<close>.
\<close>

definition execute_batch ::
    "'e engine \<Rightarrow> SchedulerConfig \<Rightarrow> int \<Rightarrow> int \<Rightarrow> int \<Rightarrow> InferenceRequest list \<Rightarrow> 'e core \<Rightarrow>
     'e core res" where
  "execute_batch run cfg dequeued_at exec_started exec_ended batch c =
     (if vec_max_size < unat (vsize batch * input_elems cfg) \<or>
         vec_max_size < length (concat (map input_data batch)) then Terminate
      else case run (engine c) (concat (map input_data batch)) (vsize batch)
                  (input_elems cfg) (output_elems cfg) of
        (r, e') \<Rightarrow>
          (let s = record_waits dequeued_at batch (count_batch batch (counters c));
               s' = s\<lparr>total_exec_us := total_exec_us s + elapsed_us exec_started exec_ended\<rparr>;
               done = (\<lambda>st. Ret (c\<lparr>engine := e', counters := s', promises := st\<rparr>))
           in case r of
                Ret output \<Rightarrow> res_bind (deliver cfg batch output (promises c)) done
              | Throw e \<Rightarrow> res_bind (fail_all e batch (promises c)) done
              | Terminate \<Rightarrow> Terminate
              | Undef \<Rightarrow> Undef
              | Hang \<Rightarrow> Hang))"

definition process_drained ::
    "'e engine \<Rightarrow> SchedulerConfig \<Rightarrow> int \<Rightarrow> int \<Rightarrow> int \<Rightarrow> InferenceRequest list \<Rightarrow> 'e core \<Rightarrow>
     'e core res" where
  "process_drained run cfg dequeued_at exec_started exec_ended drained c =
     (case reject_misfits (input_elems cfg) drained (promises c) of
        Ret (batch, st) \<Rightarrow>
          (if batch = [] then Ret (c\<lparr>promises := st\<rparr>)
           else execute_batch run cfg dequeued_at exec_started exec_ended batch
                  (c\<lparr>promises := st\<rparr>))
      | Throw e \<Rightarrow> Terminate
      | Terminate \<Rightarrow> Terminate
      | Undef \<Rightarrow> Undef
      | Hang \<Rightarrow> Hang)"

section \<open>Promises are resolved once\<close>

text \<open>Requests whose promises are distinct and still unresolved.\<close>

definition fresh :: "InferenceRequest list \<Rightarrow> pstore \<Rightarrow> bool" where
  "fresh rs st \<longleftrightarrow> distinct (map result_promise rs) \<and> (\<forall>r \<in> set rs. st (result_promise r) = Unset)"

abbreviation promises_of :: "InferenceRequest list \<Rightarrow> nat set" where
  "promises_of rs \<equiv> result_promise ` set rs"

lemma fresh_Cons:
  "fresh (r # rs) st \<longleftrightarrow>
     st (result_promise r) = Unset \<and> result_promise r \<notin> promises_of rs \<and> fresh rs st"
  by (auto simp: fresh_def)

lemma fresh_cong:
  "(\<And>p. p \<in> promises_of rs \<Longrightarrow> st' p = st p) \<Longrightarrow> fresh rs st' = fresh rs st"
  by (auto simp: fresh_def)

lemma fresh_upd [simp]:
  "p \<notin> promises_of rs \<Longrightarrow> fresh rs (st(p := v)) = fresh rs st"
  by (rule fresh_cong) auto

lemma fresh_filter: "fresh rs st \<Longrightarrow> fresh (filter P rs) st"
  by (auto simp: fresh_def distinct_map_filter)

text \<open>A store with the promises of some requests resolved to one exception.\<close>

definition fail_store :: "exn \<Rightarrow> nat set \<Rightarrow> pstore \<Rightarrow> pstore" where
  "fail_store e P st = (\<lambda>p. if p \<in> P then Exception e else st p)"

lemma fail_store_simps [simp]:
  "fail_store e {} st = st"
  "p \<in> P \<Longrightarrow> fail_store e P st p = Exception e"
  "p \<notin> P \<Longrightarrow> fail_store e P st p = st p"
  by (auto simp: fail_store_def)

lemma fail_store_insert:
  "fail_store e P (st(p := Exception e)) = fail_store e (insert p P) st"
  by (auto simp: fail_store_def)

lemma fail_all_eq:
  "fresh batch st \<Longrightarrow> fail_all e batch st = Ret (fail_store e (promises_of batch) st)"
  by (induction batch arbitrary: st)
    (auto simp: fresh_Cons set_exception_def fail_store_insert)

definition fits :: "size_t \<Rightarrow> InferenceRequest \<Rightarrow> bool" where
  "fits elems r \<longleftrightarrow> vsize (input_data r) = elems"

lemma reject_misfits_eq:
  "fresh drained st \<Longrightarrow>
     reject_misfits elems drained st =
       Ret (filter (fits elems) drained,
            fail_store size_mismatch (promises_of (filter (\<lambda>r. \<not> fits elems r) drained)) st)"
  by (induction drained arbitrary: st)
    (auto simp: fresh_Cons set_exception_def fail_store_insert fits_def)

text \<open>The misfits' promises are not those of the rest, so the rest are still unresolved afterwards.\<close>

lemma good_bad_disjoint:
  "fresh drained st \<Longrightarrow>
   promises_of (filter P drained) \<inter> promises_of (filter (\<lambda>r. \<not> P r) drained) = {}"
  by (auto simp: fresh_def distinct_map dest: inj_onD)

lemma fresh_good_store:
  assumes "fresh drained st"
  shows "fresh (filter P drained)
    (fail_store e (promises_of (filter (\<lambda>r. \<not> P r) drained)) st)" (is "fresh ?good ?st")
proof -
  have "fresh ?good ?st = fresh ?good st"
  proof (rule fresh_cong)
    fix p assume "p \<in> promises_of ?good"
    then have "p \<notin> promises_of (filter (\<lambda>r. \<not> P r) drained)"
      using good_bad_disjoint [OF assms] by blast
    then show "?st p = st p" by (rule fail_store_simps(3))
  qed
  then show ?thesis using fresh_filter [OF assms] by blast
qed

text \<open>The rows go to the requests in order, and no other promise changes.\<close>

lemma resolve_rows_eq:
  assumes "fresh batch st" and "i + length batch \<le> k" and "length out = k * unat elems"
    and "k * unat elems < 2 ^ 64" and "k < 2 ^ 64"
  shows "\<exists>st'. resolve_rows elems out i batch st = (Ret (), st') \<and>
    (\<forall>j < length batch. st' (result_promise (batch ! j)) =
       Value \<lparr>res_request_id = request_id (batch ! j), logits = row (unat elems) (i + j) out\<rparr>) \<and>
    (\<forall>p. p \<notin> promises_of batch \<longrightarrow> st' p = st p)"
  using assms(1,2)
proof (induction batch arbitrary: i st)
  case Nil
  then show ?case by simp
next
  case (Cons r batch)
  let ?v = "Value \<lparr>res_request_id = request_id r, logits = row (unat elems) i out\<rparr>"
  let ?st = "st(result_promise r := ?v)"
  have slice: "vec_slice out (of_nat i * elems) ((of_nat i + 1) * elems) = Ret (row (unat elems) i out)"
    using Cons.prems assms by (intro vec_slice_row [where k = k]) auto
  from Cons.prems have "fresh batch ?st" "Suc i + length batch \<le> k" by (auto simp: fresh_Cons)
  then obtain st' where st': "resolve_rows elems out (Suc i) batch ?st = (Ret (), st')"
    and rows: "\<And>j. j < length batch \<Longrightarrow> st' (result_promise (batch ! j)) = Value
      \<lparr>res_request_id = request_id (batch ! j), logits = row (unat elems) (Suc i + j) out\<rparr>"
    and others: "\<And>p. p \<notin> promises_of batch \<Longrightarrow> st' p = ?st p"
    using Cons.IH [of ?st "Suc i"] by blast
  have "resolve_rows elems out i (r # batch) st = (Ret (), st')"
    using Cons.prems(1) st' by (simp add: slice set_value_def fresh_Cons)
  moreover have "st' (result_promise ((r # batch) ! j)) = Value
      \<lparr>res_request_id = request_id ((r # batch) ! j),
       logits = row (unat elems) (i + j) out\<rparr>" if "j < length (r # batch)" for j
    using that rows others Cons.prems(1) by (cases j) (auto simp: fresh_Cons)
  ultimately show ?case using others by auto
qed

section \<open>A batch is answered row by row\<close>

text \<open>
  What a request's promise holds afterwards: the size error, the answer \<open>f\<close> gives for its own
  input under its own id, or one of the exceptions \<open>E\<close> the engine may throw for the batch.
\<close>

definition answer ::
    "SchedulerConfig \<Rightarrow> (f32 list \<Rightarrow> f32 list) \<Rightarrow> exn set \<Rightarrow> InferenceRequest \<Rightarrow> pstate \<Rightarrow> bool" where
  "answer cfg f E r p \<longleftrightarrow>
     (if fits (input_elems cfg) r
      then p = Value \<lparr>res_request_id = request_id r, logits = f (input_data r)\<rparr> \<or> (\<exists>e \<in> E. p = Exception e)
      else p = Exception size_mismatch)"

text \<open>Every request's input is a vector a process can hold.\<close>

definition inputs_ok :: "InferenceRequest list \<Rightarrow> bool" where
  "inputs_ok rs \<longleftrightarrow> (\<forall>r \<in> set rs. length (input_data r) \<le> vec_max_size)"

lemma inputs_ok_fits:
  "inputs_ok rs \<Longrightarrow> r \<in> set rs \<Longrightarrow> fits elems r \<Longrightarrow> length (input_data r) = unat elems"
  by (force simp: inputs_ok_def fits_def vec_max_size_def unat_vsize)

text \<open>
  The configuration and the engine agree: every batch the scheduler can form fits the vectors
  and is one the engine serves.
\<close>

context row_engine
begin

definition compatible :: "SchedulerConfig \<Rightarrow> 'e \<Rightarrow> bool" where
  "compatible cfg e \<longleftrightarrow> inv e \<and> geometry_ok (max_batch_size cfg) (input_elems cfg) (output_elems cfg) \<and>
     (\<forall>n. 0 < n \<and> n \<le> max_batch_size cfg \<longrightarrow> serves e n (input_elems cfg) (output_elems cfg))"

abbreviation row_fun :: "SchedulerConfig \<Rightarrow> 'e \<Rightarrow> f32 list \<Rightarrow> f32 list" where
  "row_fun cfg e \<equiv> row_of e (input_elems cfg) (output_elems cfg)"

lemma deliver_answers:
  assumes ok: "inv e" "serves e (vsize batch) (input_elems cfg) (output_elems cfg)"
    and fr: "fresh batch st" and len: "length batch < 2 ^ 64"
    and fit: "\<And>r. r \<in> set batch \<Longrightarrow> length (input_data r) = unat (input_elems cfg)"
    and small: "length batch * unat (output_elems cfg) < 2 ^ 64"
    and run_out: "fst (run e (concat (map input_data batch)) (vsize batch) (input_elems cfg)
        (output_elems cfg)) = Ret ys"
  shows "\<exists>st'. deliver cfg batch ys st = Ret st' \<and>
    (\<forall>r \<in> set batch. st' (result_promise r) =
       Value \<lparr>res_request_id = request_id r, logits = row_fun cfg e (input_data r)\<rparr>) \<and>
    (\<forall>p. p \<notin> promises_of batch \<longrightarrow> st' p = st p)"
proof -
  let ?n = "unat (output_elems cfg)"
  have n: "unat (vsize batch) = length batch" using len by (rule unat_vsize)
  have fit': "\<And>x. x \<in> set (map input_data batch) \<Longrightarrow> length x = unat (input_elems cfg)"
    using fit by auto
  have ln: "length (map input_data batch) = unat (vsize batch)" using n by simp
  note rb = run_batch [OF ok ln fit' run_out]
  have lo: "length ys = length batch * ?n"
    using rb(2) n by simp
  have rows: "row ?n j ys = row_fun cfg e (input_data (batch ! j))" if "j < length batch" for j
    using rb(3) [of j] that by simp
  have "length ys < 2 ^ 64" using small by (simp add: lo)
  then have "vsize ys = vsize batch * output_elems cfg"
    using unat_mult_fits [of "vsize batch" "output_elems cfg"] small
    by (simp add: vsize_eq_iff lo n)
  moreover obtain st' where "resolve_rows (output_elems cfg) ys 0 batch st = (Ret (), st')"
    "\<forall>j < length batch. st' (result_promise (batch ! j)) =
       Value \<lparr>res_request_id = request_id (batch ! j), logits = row ?n (0 + j) ys\<rparr>"
    "\<forall>p. p \<notin> promises_of batch \<longrightarrow> st' p = st p"
    using resolve_rows_eq [OF fr, of 0 "length batch" ys "output_elems cfg"] lo small len
    by auto
  ultimately show ?thesis
    using rows by (auto simp: deliver_def all_set_conv_all_nth)
qed

lemma execute_batch_answers:
  assumes comp: "compatible cfg (engine c)"
    and fr: "fresh batch (promises c)" and "batch \<noteq> []"
    and bound: "length batch \<le> unat (max_batch_size cfg)"
    and fit: "\<And>r. r \<in> set batch \<Longrightarrow> length (input_data r) = unat (input_elems cfg)"
  shows "\<exists>c'. execute_batch run cfg t1 t2 t3 batch c = Ret c' \<and>
    compatible cfg (engine c') \<and> row_of (engine c') = row_of (engine c) \<and>
    (\<forall>r \<in> set batch. promises c' (result_promise r) =
        Value \<lparr>res_request_id = request_id r, logits = row_fun cfg (engine c) (input_data r)\<rparr> \<or>
      (\<exists>e \<in> faults. promises c' (result_promise r) = Exception e)) \<and>
    (\<forall>p. p \<notin> promises_of batch \<longrightarrow> promises c' p = promises c p)"
proof -
  let ?ie = "input_elems cfg" and ?oe = "output_elems cfg" and ?n = "vsize batch"
  let ?xs = "concat (map input_data batch)"
  have len: "length batch < 2 ^ 64"
    using bound unsigned_less [of "max_batch_size cfg", where ?'a = nat] by simp
  then have n: "unat ?n = length batch" by (rule unat_vsize)
  have le: "length batch * unat ?ie \<le> vec_max_size" "length batch * unat ?oe \<le> vec_max_size"
    using comp mult_le_mono1 [OF bound] le_trans
    unfolding compatible_def geometry_ok_def by blast+
  have e: "inv (engine c)" "serves (engine c) ?n ?ie ?oe"
    using comp bound \<open>batch \<noteq> []\<close> n by (auto simp: compatible_def word_le_nat_alt word_less_nat_alt)
  have lx: "length ?xs = unat ?n * unat ?ie"
    using fit length_concat_uniform [of "map input_data batch" "unat ?ie"] by (auto simp: n)
  have "unat (?n * ?ie) \<le> vec_max_size"
    using le(1) unat_mult_fits [of ?n ?ie] by (simp add: n vec_max_size_def)
  then have guard: "\<not> (vec_max_size < unat (?n * ?ie) \<or> vec_max_size < length ?xs)"
    using le(1) lx n by simp
  obtain r e' where re: "run (engine c) ?xs ?n ?ie ?oe = (r, e')" by fastforce
  have comp': "compatible cfg e'" and row': "row_of e' = row_of (engine c)"
    using run_inv [OF e lx] run_serves [OF e lx] run_row_of [OF e lx] comp re
    by (simp_all add: compatible_def)
  have "defined_res r" using run_defined [OF e lx] by (simp add: re)
  then consider (ret) ys where "r = Ret ys" | (throw) ex where "r = Throw ex"
    by (cases r) simp_all
  then show ?thesis
  proof cases
    case ret
    then have "fst (run (engine c) ?xs ?n ?ie ?oe) = Ret ys" by (simp add: re)
    moreover have "length batch * unat ?oe < 2 ^ 64" using le(2) by (simp add: vec_max_size_def)
    ultimately obtain st' where "deliver cfg batch ys (promises c) = Ret st'"
      "\<forall>r \<in> set batch. st' (result_promise r) =
         Value \<lparr>res_request_id = request_id r, logits = row_fun cfg (engine c) (input_data r)\<rparr>"
      "\<forall>p. p \<notin> promises_of batch \<longrightarrow> st' p = promises c p"
      using deliver_answers [OF e fr len fit] by blast
    with ret re guard comp' row' show ?thesis by (auto simp: execute_batch_def Let_def)
  next
    case throw
    have "ex \<in> faults" using run_faults [OF e lx] throw re by simp
    with throw re guard comp' row' fr show ?thesis
      by (auto simp: execute_batch_def Let_def fail_all_eq)
  qed
qed

text \<open>The whole iteration: every drained request is answered, and no other promise changes.\<close>

lemma process_drained_answers:
  assumes comp: "compatible cfg (engine c)" and fr: "fresh drained (promises c)"
    and bound: "length drained \<le> unat (max_batch_size cfg)" and ok: "inputs_ok drained"
  shows "\<exists>c'. process_drained run cfg t1 t2 t3 drained c = Ret c' \<and>
    compatible cfg (engine c') \<and> row_of (engine c') = row_of (engine c) \<and>
    (\<forall>r \<in> set drained. answer cfg (row_fun cfg (engine c)) faults r (promises c' (result_promise r))) \<and>
    (\<forall>p. p \<notin> promises_of drained \<longrightarrow> promises c' p = promises c p)"
proof -
  let ?good = "filter (fits (input_elems cfg)) drained"
  let ?bad = "filter (\<lambda>r. \<not> fits (input_elems cfg) r) drained"
  let ?st = "fail_store size_mismatch (promises_of ?bad) (promises c)"
  note rej = reject_misfits_eq [OF fr, of "input_elems cfg"]
  have disj: "promises_of ?good \<inter> promises_of ?bad = {}"
    using fr by (rule good_bad_disjoint)
  show ?thesis
  proof (cases "?good = []")
    case True
    then have "\<forall>r \<in> set drained. \<not> fits (input_elems cfg) r" by (simp add: filter_empty_conv)
    with True rej comp show ?thesis by (auto simp: process_drained_def answer_def)
  next
    case False
    have "fresh ?good ?st" using fr by (rule fresh_good_store)
    moreover have "length ?good \<le> unat (max_batch_size cfg)"
      using bound length_filter_le le_trans by blast
    ultimately obtain c' where c': "execute_batch run cfg t1 t2 t3 ?good (c\<lparr>promises := ?st\<rparr>) = Ret c'"
      "compatible cfg (engine c')" "row_of (engine c') = row_of (engine c)"
      and good: "\<forall>r \<in> set ?good. promises c' (result_promise r) =
          Value \<lparr>res_request_id = request_id r, logits = row_fun cfg (engine c) (input_data r)\<rparr> \<or>
        (\<exists>e \<in> faults. promises c' (result_promise r) = Exception e)"
      and others: "\<forall>p. p \<notin> promises_of ?good \<longrightarrow> promises c' p = ?st p"
      using execute_batch_answers [of cfg "c\<lparr>promises := ?st\<rparr>" ?good t1 t2 t3] comp False
        inputs_ok_fits [OF ok] by auto
    have "promises c' (result_promise r) = Exception size_mismatch"
      if "r \<in> set drained" "\<not> fits (input_elems cfg) r" for r
    proof -
      have "result_promise r \<in> promises_of ?bad" using that by auto
      moreover from this have "result_promise r \<notin> promises_of ?good" using disj by blast
      ultimately show ?thesis using others by simp
    qed
    with good have "\<forall>r \<in> set drained.
        answer cfg (row_fun cfg (engine c)) faults r (promises c' (result_promise r))"
      by (auto simp: answer_def)
    moreover have "\<forall>p. p \<notin> promises_of drained \<longrightarrow> promises c' p = promises c p"
    proof (intro allI impI)
      fix p assume "p \<notin> promises_of drained"
      then have "p \<notin> promises_of ?good" "p \<notin> promises_of ?bad" by auto
      with others show "promises c' p = promises c p" by simp
    qed
    ultimately show ?thesis using c' False rej by (auto simp: process_drained_def)
  qed
qed

end

section \<open>No caller is left waiting\<close>

text \<open>
  Whatever the engine does, an iteration that comes back has resolved every promise it drained
  and no other one.
\<close>

definition resolves :: "nat set \<Rightarrow> pstore \<Rightarrow> pstore \<Rightarrow> bool" where
  "resolves P st st' \<longleftrightarrow> (\<forall>p \<in> P. st' p \<noteq> Unset) \<and> (\<forall>p. p \<notin> P \<longrightarrow> st' p = st p)"

lemma resolves_fail_store: "resolves P st (fail_store e P st)"
  by (simp add: resolves_def)

lemma resolve_rows_cases:
  assumes "fresh batch st"
  shows "(\<exists>st'. resolve_rows elems out i batch st = (Ret (), st') \<and> resolves (promises_of batch) st st') \<or>
    (\<exists>st'. resolve_rows elems out i batch st = (Undef, st'))"
  using assms
proof (induction batch arbitrary: i st)
  case Nil
  then show ?case by (simp add: resolves_def)
next
  case (Cons r batch)
  show ?case
  proof (cases "vec_slice out (of_nat i * elems) ((of_nat i + 1) * elems)")
    case (Ret l)
    define st1 where
      "st1 = st(result_promise r := Value \<lparr>res_request_id = request_id r, logits = l\<rparr>)"
    have "resolve_rows elems out i (r # batch) st = resolve_rows elems out (Suc i) batch st1"
      using Ret Cons.prems by (simp add: set_value_def fresh_Cons st1_def)
    moreover have "fresh batch st1" using Cons.prems by (simp add: fresh_Cons st1_def)
    moreover have "resolves (promises_of batch) st1 st' \<Longrightarrow> resolves (promises_of (r # batch)) st st'" for st'
      using Cons.prems by (auto simp: resolves_def fresh_Cons st1_def)
    ultimately show ?thesis using Cons.IH [of st1 "Suc i"] by auto
  qed (simp_all add: vec_slice_def split: if_splits)
qed

lemma deliver_resolves:
  "fresh batch st \<Longrightarrow> deliver cfg batch out st = Ret st' \<Longrightarrow> resolves (promises_of batch) st st'"
  using resolve_rows_cases [of batch st "output_elems cfg" out 0]
  by (auto simp: deliver_def fail_all_eq resolves_fail_store split: if_splits)

lemma execute_batch_resolves:
  "fresh batch (promises c) \<Longrightarrow> execute_batch run cfg t1 t2 t3 batch c = Ret c' \<Longrightarrow>
     resolves (promises_of batch) (promises c) (promises c')"
  by (auto simp: execute_batch_def Let_def res_simps fail_all_eq resolves_fail_store
      dest: deliver_resolves split: if_splits prod.splits res.splits)

lemma process_drained_resolves:
  assumes fr: "fresh drained (promises c)"
    and ret: "process_drained run cfg t1 t2 t3 drained c = Ret c'"
  shows "resolves (promises_of drained) (promises c) (promises c')"
proof -
  let ?good = "filter (fits (input_elems cfg)) drained"
  let ?bad = "filter (\<lambda>r. \<not> fits (input_elems cfg) r) drained"
  let ?st = "fail_store size_mismatch (promises_of ?bad) (promises c)"
  have disj: "promises_of ?good \<inter> promises_of ?bad = {}"
    using fr by (rule good_bad_disjoint)
  have all: "promises_of drained = promises_of ?good \<union> promises_of ?bad" by auto
  note rej = reject_misfits_eq [OF fr, of "input_elems cfg"]
  have "resolves (promises_of ?good) ?st (promises c')"
  proof (cases "?good = []")
    case True
    with ret rej show ?thesis by (auto simp: process_drained_def resolves_def)
  next
    case False
    have "fresh ?good ?st" using fr by (rule fresh_good_store)
    moreover have "execute_batch run cfg t1 t2 t3 ?good (c\<lparr>promises := ?st\<rparr>) = Ret c'"
      using ret rej False by (simp add: process_drained_def)
    ultimately show ?thesis
      using execute_batch_resolves [of ?good "c\<lparr>promises := ?st\<rparr>" run cfg t1 t2 t3 c'] by simp
  qed
  with disj show ?thesis
    unfolding resolves_def all fail_store_def by (metis Un_iff pstate.distinct(3))
qed

section \<open>The counters\<close>

text \<open>
  The exchange loop raises the cell to the new value or finds it there already, however often it
  fails and whatever other threads store meanwhile; undisturbed it computes the maximum.
\<close>

lemma cas_max_loop_reaches: "new \<le> cas_max_loop new env cell cell"
proof (induction env arbitrary: cell)
  case Nil
  then show ?case by (simp add: not_less)
next
  case (Cons a env)
  obtain v f where "a = (v, f)" by (cases a)
  with Cons show ?case by (auto simp: Let_def not_less)
qed

lemma cas_max_loop_spurious:
  "(\<And>x. x \<in> set env \<Longrightarrow> fst x = None) \<Longrightarrow> cas_max_loop new env cell cell = max cell new"
proof (induction env)
  case Nil
  show ?case by (auto simp: max_def)
next
  case (Cons a env)
  obtain f where a: "a = (None, f)" using Cons.prems [of a] by (cases a) simp
  have "cas_max_loop new env cell cell = max cell new" using Cons by simp
  then show ?case by (auto simp: a max_def)
qed

lemma cas_max_eq [simp]: "cas_max new cell = max cell new"
  using cas_max_loop_spurious [of "[]" new cell] by (simp add: cas_max_def)

lemma record_waits_frame [simp]:
  "total_batches (record_waits t b s) = total_batches s"
  "total_requests (record_waits t b s) = total_requests s"
  "max_batch_size_seen (record_waits t b s) = max_batch_size_seen s"
  "total_exec_us (record_waits t b s) = total_exec_us s"
  by (induction b arbitrary: s) (simp_all add: Let_def)






text \<open>
  The averages are finite numbers for every value of the counters, so no snapshot, however
  torn, turns into a NaN or an infinity.
\<close>

lemma f64_div_1000_finite:
  assumes "0 \<le> a" "a \<le> 2 ^ j" "j \<le> 1023"
  shows "\<exists>v. f64_div (Fin False a) f64_1000 = Fin False v \<and> 0 \<le> v"
  using f64_div_ge_1 [of a j 1000] assms by (auto simp: f64_1000_def)

lemma f64_ratio_ms_finite:
  assumes "d \<noteq> 0"
  shows "\<exists>v. f64_div (f64_div (f64_of_u64 w) (f64_of_u64 d)) f64_1000 = Fin False v \<and> 0 \<le> v"
proof -
  obtain a where a: "f64_of_u64 w = Fin False a" "0 \<le> a" "a \<le> 2 ^ 64"
    using f64_of_u64_finite by blast
  obtain b where b: "f64_of_u64 d = Fin False b" "1 \<le> b"
    using f64_of_u64_ge_1 [OF assms] by blast
  obtain q where "f64_div (Fin False a) (Fin False b) = Fin False q" "0 \<le> q" "q \<le> 2 ^ 64"
    using f64_div_ge_1 [of a 64 b] a b by auto
  then show ?thesis using f64_div_1000_finite [of q 64] by (simp add: a b)
qed

lemma stats_ms_finite:
  "fp_finite (avg_queue_wait_ms s)" "fp_finite (max_queue_wait_ms s)" "fp_finite (avg_exec_ms s)"
proof -
  show "fp_finite (avg_queue_wait_ms s)"
    using f64_ratio_ms_finite [of "total_requests s" "total_queue_wait_us s"]
    by (auto simp: avg_queue_wait_ms_def fzero_def)
  show "fp_finite (avg_exec_ms s)"
    using f64_ratio_ms_finite [of "total_batches s" "total_exec_us s"]
    by (auto simp: avg_exec_ms_def fzero_def)
  obtain a where "f64_of_u64 (max_queue_wait_us s) = Fin False a" "0 \<le> a" "a \<le> 2 ^ 64"
    using f64_of_u64_finite by blast
  then show "fp_finite (max_queue_wait_ms s)"
    using f64_div_1000_finite [of a 64] by (auto simp: max_queue_wait_ms_def)
qed

section \<open>Properties of one iteration\<close>

text \<open>
  C18: A request whose input has the wrong size does not disturb its batch-mates: the iteration does,
  with any engine, exactly what it would do had the misfits not been drained, apart from failing
  their own promises with the size error.
\<close>

theorem misfits_isolated:
  assumes "fresh drained (promises c)"
  shows "process_drained run cfg t1 t2 t3 drained c =
    process_drained run cfg t1 t2 t3 (filter (fits (input_elems cfg)) drained)
      (c\<lparr>promises := fail_store size_mismatch
         (promises_of (filter (\<lambda>r. \<not> fits (input_elems cfg) r) drained)) (promises c)\<rparr>)"
proof -
  let ?good = "filter (fits (input_elems cfg)) drained"
  let ?bad = "filter (\<lambda>r. \<not> fits (input_elems cfg) r) drained"
  let ?st = "fail_store size_mismatch (promises_of ?bad) (promises c)"
  have "reject_misfits (input_elems cfg) ?good ?st = Ret (?good, ?st)"
    using reject_misfits_eq [OF fresh_good_store [OF assms], of "input_elems cfg"] by simp
  then show ?thesis
    using reject_misfits_eq [OF assms, of "input_elems cfg"] by (simp add: process_drained_def)
qed

definition small_config :: SchedulerConfig where
  "small_config = \<lparr>max_batch_size = 4, max_wait = 5, input_elems = 2, output_elems = 1\<rparr>"

definition good_request :: InferenceRequest where
  "good_request = \<lparr>request_id = 1, input_data = [Fin False 3, fzero], arrival_time = 0, result_promise = 0\<rparr>"

definition bad_request :: InferenceRequest where
  "bad_request = \<lparr>request_id = 2, input_data = [fzero], arrival_time = 0, result_promise = 1\<rparr>"

definition fresh_core :: "unit core" where
  "fresh_core = \<lparr>engine = (), counters = zero_stats, promises = (\<lambda>_. Unset)\<rparr>"

lemma fresh_sample: "fresh [good_request, bad_request] (promises fresh_core)"
  by (simp add: fresh_def good_request_def bad_request_def fresh_core_def)

theorem misfits_isolated_witness:
  "fresh [good_request, bad_request] (promises fresh_core) \<and>
   process_drained stub_engine small_config 0 0 0 [good_request, bad_request] fresh_core =
   process_drained stub_engine small_config 0 0 0 [good_request]
     (fresh_core\<lparr>promises := fail_store size_mismatch {1} (promises fresh_core)\<rparr>)"
proof -
  have "fits (input_elems small_config) good_request" "\<not> fits (input_elems small_config) bad_request"
    by (simp_all add: fits_def small_config_def good_request_def bad_request_def vsize_def)
  with misfits_isolated [OF fresh_sample, of stub_engine small_config 0 0 0] fresh_sample
  show ?thesis by (simp add: bad_request_def)
qed

text \<open>
  C17: Whatever the engine returns or throws, an iteration that comes back has resolved the promise of
  every drained request, and has touched no other promise.
\<close>

theorem iteration_resolves_all:
  assumes "fresh drained (promises c)" and "process_drained run cfg t1 t2 t3 drained c = Ret c'"
  shows "(\<forall>r \<in> set drained. promises c' (result_promise r) \<noteq> Unset) \<and>
    (\<forall>p. p \<notin> promises_of drained \<longrightarrow> promises c' p = promises c p)"
  using process_drained_resolves [OF assms] by (simp add: resolves_def)

definition broken_engine :: "unit engine" where
  "broken_engine e xs n ie oe = (Throw (InferenceError ''no backend''), e)"

definition broken_core :: "unit core" where
  "broken_core = fresh_core\<lparr>counters := \<lparr>total_batches = 1, total_requests = 1, max_batch_size_seen = 1,
     total_queue_wait_us = 3, max_queue_wait_us = 3, total_exec_us = 2\<rparr>,
     promises := (\<lambda>_. Unset)(1 := Exception size_mismatch,
       0 := Exception (InferenceError ''no backend''))\<rparr>"

lemma broken_run:
  "process_drained broken_engine small_config 3000 3000 5000 [good_request, bad_request] fresh_core =
   Ret broken_core"
  by (simp add: process_drained_def execute_batch_def broken_engine_def small_config_def
      good_request_def bad_request_def fresh_core_def broken_core_def set_exception_def vsize_def
      count_batch_def elapsed_us_def duration_us_def zero_stats_def vec_max_size_def Let_def
      del: cas_max_eq)
    (simp add: cas_max_def)

theorem iteration_resolves_all_witness:
  "promises broken_core 0 \<noteq> Unset \<and> promises broken_core 1 \<noteq> Unset \<and> promises broken_core 2 = Unset"
  using iteration_resolves_all [OF fresh_sample broken_run]
  by (simp add: good_request_def bad_request_def fresh_core_def)



text \<open>
  C38: The compare-exchange loop behind both maxima ends with the cell at least the new value, whatever
  other threads store between its attempts and however often the weak exchange fails; if only spurious
  failures disturb it, the cell ends as the maximum of the two.
\<close>

theorem cas_max_correct:
  "new \<le> cas_max_loop new env cell cell \<and>
   ((\<forall>x \<in> set env. fst x = None) \<longrightarrow> cas_max_loop new env cell cell = max cell new)"
  using cas_max_loop_reaches [of new env cell] cas_max_loop_spurious [of env new cell] by blast

theorem cas_max_correct_witness:
  "cas_max_loop 5 [(None, True), (None, True)] 3 3 = max 3 5"
  using cas_max_correct [of 5 "[(None, True), (None, True)]" 3] by simp

text \<open>
  C39: The derived averages never divide by zero: for every value of the counters, all three are finite
  doubles, neither NaN nor infinite.
\<close>

theorem averages_finite:
  "fp_finite (avg_queue_wait_ms s) \<and> fp_finite (max_queue_wait_ms s) \<and> fp_finite (avg_exec_ms s)"
  using stats_ms_finite [of s] by simp

end
