(* ===== verification/Scheduler_System.thy ===== *)
theory Scheduler_System
  imports Scheduler
begin

text \<open>
  The running \<open>Scheduler\<close>: its lifecycle calls (\<open>start\<close>, \<open>stop\<close>, \<open>submit\<close>, \<open>stats\<close>,
  \<open>reset_stats\<close>), the worker thread's loop and their interleavings. A step is a critical section
  of the queue, an atomic store, a notification, one iteration of the worker on a drained batch,
  or the passing of time; \<open>stop\<close> is three steps (clear the flag, shut the queue down, join).
  Shown for every reachable state and any engine: requests are served in arrival order, none is
  lost or answered twice, the worker leaves only once the queue is drained, and after \<open>stop\<close>
  every step of the worker brings it closer to its exit. For an engine that keeps the row
  contract every answer is the one of the request's own input.
\<close>

section \<open>State\<close>

text \<open>\<open>std::thread\<close>: none attached, running the loop, or finished and not yet joined.\<close>

datatype thread_state = NoThread | Looping | Finished

datatype stop_pc = NotStopping | FlagCleared | QueueShut

text \<open>
  \<open>accepted\<close> and \<open>served\<close> are history: the requests \<open>submit\<close> took, and those the worker is
  done with, in order.
\<close>

record 'e sched =
  work :: "'e core"
  sq :: qsys
  running :: bool
  worker :: thread_state
  stopping :: stop_pc
  accepted :: "InferenceRequest list"
  served :: "InferenceRequest list"

definition new_scheduler :: "'e \<Rightarrow> 'e sched" where
  "new_scheduler e =
     \<lparr>work = \<lparr>engine = e, counters = zero_stats, promises = (\<lambda>_. Unset)\<rparr>,
      sq = init_qsys, running = False, worker = NoThread, stopping = NotStopping,
      accepted = [], served = []\<rparr>"

section \<open>Operations\<close>

text \<open>Assigning to a thread that is still joinable ends the process.\<close>

definition start :: "'e sched \<Rightarrow> 'e sched res" where
  "start s =
     (if running s then Ret s
      else if worker s \<noteq> NoThread then Terminate
      else Ret (s\<lparr>running := True, worker := Looping\<rparr>))"

definition stop_clear :: "'e sched \<Rightarrow> 'e sched" where
  "stop_clear s = s\<lparr>running := False, stopping := FlagCleared\<rparr>"

definition stop_shutdown :: "'e sched \<Rightarrow> 'e sched" where
  "stop_shutdown s =
     s\<lparr>sq := (sq s)\<lparr>rq := shutdown (rq (sq s)), notifying := Suc (notifying (sq s))\<rparr>,
       stopping := QueueShut\<rparr>"

text \<open>\<open>join\<close> blocks while the worker loops.\<close>

definition stop_join :: "'e sched \<Rightarrow> 'e sched option" where
  "stop_join s =
     (if worker s = Looping then None else Some (s\<lparr>worker := NoThread, stopping := NotStopping\<rparr>))"

text \<open>\<open>submit\<close> returns the future, here the name of the shared state.\<close>

definition submit :: "InferenceRequest \<Rightarrow> 'e sched \<Rightarrow> nat res \<times> 'e sched" where
  "submit request s =
     (case push request (rq (sq s)) of
        (Ret pushed, q') \<Rightarrow>
          (if pushed
           then (Ret (result_promise request),
                 s\<lparr>sq := (sq s)\<lparr>rq := q', notifying := Suc (notifying (sq s))\<rparr>,
                   accepted := accepted s @ [request]\<rparr>)
           else (Throw (InferenceError ''scheduler is stopped and cannot accept requests''), s))
      | (Throw e, q') \<Rightarrow> (Throw e, s)
      | (Terminate, q') \<Rightarrow> (Terminate, s)
      | (Undef, q') \<Rightarrow> (Undef, s)
      | (Hang, q') \<Rightarrow> (Hang, s))"

definition stats :: "'e sched \<Rightarrow> SchedulerStats" where
  "stats s = counters (work s)"

definition reset_stats :: "'e sched \<Rightarrow> 'e sched" where
  "reset_stats s = s\<lparr>work := (work s)\<lparr>counters := zero_stats\<rparr>\<rparr>"

text \<open>
  The body of \<open>run_loop\<close> after \<open>wait_and_drain\<close> has returned: leave the loop, go round again,
  or process the batch. The clock readings are those of \<^const>\<open>process_drained\<close>.
\<close>

definition iterate ::
    "'e engine \<Rightarrow> SchedulerConfig \<Rightarrow> int \<Rightarrow> int \<Rightarrow> int \<Rightarrow> 'e sched \<Rightarrow> 'e sched res" where
  "iterate run cfg t1 t2 t3 s =
     (case cpc (sq s) of
        Returned drained \<Rightarrow>
          (let s' = s\<lparr>sq := (sq s)\<lparr>cpc := Outside\<rparr>\<rparr>
           in if drained = []
              then Ret (if running s then s' else s'\<lparr>worker := Finished\<rparr>)
              else res_bind (process_drained run cfg t1 t2 t3 drained (work s))
                     (\<lambda>c. Ret (s'\<lparr>work := c, served := served s @ drained\<rparr>)))
      | _ \<Rightarrow> Undef)"

section \<open>Steps\<close>

inductive worker_step :: "'e engine \<Rightarrow> SchedulerConfig \<Rightarrow> 'e sched \<Rightarrow> 'e sched \<Rightarrow> bool"
  for run cfg where
  w_wait: "worker s = Looping \<Longrightarrow>
     consumer_step (max_batch_size cfg) (max_wait cfg) (sq s) q' \<Longrightarrow>
     worker_step run cfg s (s\<lparr>sq := q'\<rparr>)"
| w_iterate: "worker s = Looping \<Longrightarrow> cpc (sq s) = Returned b \<Longrightarrow>
     now (sq s) \<le> t1 \<Longrightarrow> t1 \<le> t2 \<Longrightarrow> t2 \<le> t3 \<Longrightarrow>
     iterate run cfg t1 t2 t3 s = Ret s' \<Longrightarrow> worker_step run cfg s s'"

text \<open>
  A request carries a promise of its own and an input a vector can hold. One thread at a time
  calls \<open>start\<close> and \<open>stop\<close>; any number call \<open>submit\<close>.
\<close>

inductive sstep :: "'e engine \<Rightarrow> SchedulerConfig \<Rightarrow> 'e sched \<Rightarrow> 'e sched \<Rightarrow> bool"
  for run cfg where
  s_worker: "worker_step run cfg s s' \<Longrightarrow> sstep run cfg s s'"
| s_env: "env_step (sq s) q' \<Longrightarrow> sstep run cfg s (s\<lparr>sq := q'\<rparr>)"
| s_submit: "submit r s = (Ret p, s') \<Longrightarrow> inputs_ok [r] \<Longrightarrow>
     result_promise r \<notin> promises_of (accepted s) \<Longrightarrow> sstep run cfg s s'"
| s_reset: "sstep run cfg s (reset_stats s)"
| s_start: "stopping s = NotStopping \<Longrightarrow> start s = Ret s' \<Longrightarrow> sstep run cfg s s'"
| s_stop_clear: "stopping s = NotStopping \<Longrightarrow> sstep run cfg s (stop_clear s)"
| s_stop_shutdown: "stopping s = FlagCleared \<Longrightarrow> sstep run cfg s (stop_shutdown s)"
| s_stop_join: "stopping s = QueueShut \<Longrightarrow> stop_join s = Some s' \<Longrightarrow> sstep run cfg s s'"

inductive sreach :: "'e engine \<Rightarrow> SchedulerConfig \<Rightarrow> 'e \<Rightarrow> 'e sched \<Rightarrow> bool"
  for run cfg e0 where
  sreach_init: "sreach run cfg e0 (new_scheduler e0)"
| sreach_step: "sreach run cfg e0 s \<Longrightarrow> sstep run cfg s s' \<Longrightarrow> sreach run cfg e0 s'"

section \<open>What any engine gets\<close>

abbreviation waiting :: "'e sched \<Rightarrow> InferenceRequest list" where
  "waiting s \<equiv> held (cpc (sq s)) @ queue (rq (sq s))"

text \<open>
  Requests flow from \<open>accepted\<close> through the queue and the worker to \<open>served\<close> in order; the
  promises of those on the way are unresolved and those of the served ones resolved. A worker
  that is not looping is outside the queue, and one that has finished has left it empty and shut.
\<close>

definition flow_inv :: "SchedulerConfig \<Rightarrow> 'e sched \<Rightarrow> bool" where
  "flow_inv cfg s \<longleftrightarrow>
     queue_inv (max_batch_size cfg) (max_wait cfg) (sq s) \<and>
     accepted s = served s @ waiting s \<and>
     distinct (map result_promise (accepted s)) \<and> inputs_ok (accepted s) \<and>
     (\<forall>r \<in> set (waiting s). promises (work s) (result_promise r) = Unset) \<and>
     (\<forall>r \<in> set (served s). promises (work s) (result_promise r) \<noteq> Unset) \<and>
     (\<forall>p. p \<notin> promises_of (accepted s) \<longrightarrow> promises (work s) p = Unset) \<and>
     (worker s \<noteq> Looping \<longrightarrow> cpc (sq s) = Outside) \<and>
     (worker s = Finished \<longrightarrow> max_batch_size cfg = 0 \<or>
        queue (rq (sq s)) = [] \<and> stop_requested (rq (sq s)))"

lemma flow_invD:
  assumes "flow_inv cfg s"
  shows "queue_inv (max_batch_size cfg) (max_wait cfg) (sq s)"
    and "accepted s = served s @ waiting s"
    and "distinct (map result_promise (accepted s))"
    and "inputs_ok (accepted s)"
    and "\<And>r. r \<in> set (waiting s) \<Longrightarrow> promises (work s) (result_promise r) = Unset"
    and "\<And>r. r \<in> set (served s) \<Longrightarrow> promises (work s) (result_promise r) \<noteq> Unset"
    and "\<And>p. p \<notin> promises_of (accepted s) \<Longrightarrow> promises (work s) p = Unset"
    and "worker s \<noteq> Looping \<Longrightarrow> cpc (sq s) = Outside"
    and "worker s = Finished \<Longrightarrow> max_batch_size cfg = 0 \<or>
      queue (rq (sq s)) = [] \<and> stop_requested (rq (sq s))"
  using assms unfolding flow_inv_def by blast+

lemma flow_inv_init: "flow_inv cfg (new_scheduler e)"
  by (simp add: flow_inv_def new_scheduler_def queue_inv_init inputs_ok_def)
    (simp add: init_qsys_def empty_queue_def)

text \<open>Steps that move no request and resolve no promise.\<close>

lemma flow_inv_frame:
  assumes "flow_inv cfg s"
    and "queue_inv (max_batch_size cfg) (max_wait cfg) (sq s')"
    and "accepted s' = accepted s" "served s' = served s" "waiting s' = waiting s"
    and "promises (work s') = promises (work s)"
    and "worker s' \<noteq> Looping \<Longrightarrow> cpc (sq s') = Outside"
    and "worker s' = Finished \<Longrightarrow> max_batch_size cfg = 0 \<or>
      queue (rq (sq s')) = [] \<and> stop_requested (rq (sq s'))"
  shows "flow_inv cfg s'"
  using flow_invD(2-7) [OF assms(1)] assms(2-8) unfolding flow_inv_def by metis

lemma flow_inv_consumer:
  assumes "flow_inv cfg s" "worker s = Looping"
    and "consumer_step (max_batch_size cfg) (max_wait cfg) (sq s) q'"
  shows "flow_inv cfg (s\<lparr>sq := q'\<rparr>)"
  using assms(2) consumer_step_moves [OF assms(3)]
    qstep_queue_inv [OF q_consumer [OF assms(3)] flow_invD(1) [OF assms(1)]]
  by (intro flow_inv_frame [OF assms(1)]) simp_all

lemma env_step_frame:
  "env_step q q' \<Longrightarrow> rq q' = rq q \<and> held (cpc q') = held (cpc q) \<and> (cpc q = Outside \<longrightarrow> cpc q' = Outside)"
  by (induction rule: env_step.induct) auto

lemma flow_inv_env:
  assumes "flow_inv cfg s" and "env_step (sq s) q'"
  shows "flow_inv cfg (s\<lparr>sq := q'\<rparr>)"
  using env_step_frame [OF assms(2)] flow_invD(8,9) [OF assms(1)]
    qstep_queue_inv [OF q_env [OF assms(2)] flow_invD(1) [OF assms(1)]]
  by (intro flow_inv_frame [OF assms(1)]) auto

lemma submitE:
  assumes "submit r s = (Ret p, s')"
  obtains q' where "push r (rq (sq s)) = (Ret True, q')" "p = result_promise r"
    "s' = s\<lparr>sq := (sq s)\<lparr>rq := q', notifying := Suc (notifying (sq s))\<rparr>,
           accepted := accepted s @ [r]\<rparr>"
  using assms by (auto simp: submit_def split: prod.splits res.splits if_splits)

lemma push_TrueD:
  "push r q = (Ret True, q') \<Longrightarrow> \<not> stop_requested q \<and> queue q' = queue q @ [r] \<and> \<not> stop_requested q'"
  by (auto simp: push_def split: if_splits)

lemma flow_inv_submit:
  assumes "flow_inv cfg s" "submit r s = (Ret p, s')" "inputs_ok [r]"
    and "result_promise r \<notin> promises_of (accepted s)"
  shows "flow_inv cfg s'"
  using assms(2)
proof (rule submitE)
  fix q'
  assume q': "push r (rq (sq s)) = (Ret True, q')"
    and s': "s' = s\<lparr>sq := (sq s)\<lparr>rq := q', notifying := Suc (notifying (sq s))\<rparr>,
           accepted := accepted s @ [r]\<rparr>"
  note d = flow_invD [OF assms(1)] and p = push_TrueD [OF q']
  show ?thesis
    unfolding flow_inv_def
  proof (intro conjI ballI allI impI)
    show "queue_inv (max_batch_size cfg) (max_wait cfg) (sq s')"
      using d(1) qstep_queue_inv [OF q_push [OF q']] by (simp add: s')
    show "accepted s' = served s' @ waiting s'" using d(2) p by (simp add: s')
    show "distinct (map result_promise (accepted s'))" using d(3) assms(4) by (simp add: s')
    show "inputs_ok (accepted s')" using d(4) assms(3) by (auto simp: s' inputs_ok_def)
    show "promises (work s') (result_promise x) = Unset" if "x \<in> set (waiting s')" for x
      using that d(5) d(7) [OF assms(4)] p by (auto simp: s')
    show "promises (work s') (result_promise x) \<noteq> Unset" if "x \<in> set (served s')" for x
      using that d(6) by (simp add: s')
    show "promises (work s') x = Unset" if "x \<notin> promises_of (accepted s')" for x
      using that d(7) by (simp add: s')
    show "cpc (sq s') = Outside" if "worker s' \<noteq> Looping"
      using that d(8) by (simp add: s')
    show "max_batch_size cfg = 0 \<or> queue (rq (sq s')) = [] \<and> stop_requested (rq (sq s'))"
      if "worker s' = Finished"
      using that d(9) p by (simp add: s')
  qed
qed

lemma flow_inv_iterate:
  assumes inv: "flow_inv cfg s" and "worker s = Looping" and b: "cpc (sq s) = Returned b"
    and it: "iterate run cfg t1 t2 t3 s = Ret s'"
  shows "flow_inv cfg s'"
proof -
  have qi: "queue_inv (max_batch_size cfg) (max_wait cfg) ((sq s)\<lparr>cpc := Outside\<rparr>)"
    using flow_invD(1) [OF inv] qstep_queue_inv [OF q_taken [OF b]] by blast
  show ?thesis
  proof (cases "b = []")
    case True
    have "max_batch_size cfg = 0 \<or> queue (rq (sq s)) = [] \<and> stop_requested (rq (sq s))"
      using flow_invD(1) [OF inv] b True by (auto simp: queue_inv_def consumer_ok_def)
    with True it b qi \<open>worker s = Looping\<close> show ?thesis
      by (intro flow_inv_frame [OF inv]) (auto simp: iterate_def Let_def split: if_splits)
  next
    case False
    from False it b obtain c where c: "process_drained run cfg t1 t2 t3 b (work s) = Ret c"
      and s': "s' = s\<lparr>sq := (sq s)\<lparr>cpc := Outside\<rparr>, work := c, served := served s @ b\<rparr>"
      by (auto simp: iterate_def Let_def res_simps)
    note d = flow_invD [OF inv]
    have acc: "accepted s = served s @ b @ queue (rq (sq s))" using d(2) b by simp
    have dist: "distinct (map result_promise (served s @ b @ queue (rq (sq s))))"
      using d(3) by (simp only: acc)
    have "fresh b (promises (work s))" using dist d(5) b by (auto simp: fresh_def)
    from process_drained_resolves [OF this c]
    have res: "\<And>p. p \<in> promises_of b \<Longrightarrow> promises c p \<noteq> Unset"
      "\<And>p. p \<notin> promises_of b \<Longrightarrow> promises c p = promises (work s) p"
      by (auto simp: resolves_def)
    show ?thesis
      unfolding flow_inv_def
    proof (intro conjI ballI allI impI)
      show "queue_inv (max_batch_size cfg) (max_wait cfg) (sq s')" using qi by (simp add: s')
      show "accepted s' = served s' @ waiting s'" by (simp add: s' acc)
      show "distinct (map result_promise (accepted s'))" using d(3) by (simp add: s')
      show "inputs_ok (accepted s')" using d(4) by (simp add: s')
      show "promises (work s') (result_promise x) = Unset" if "x \<in> set (waiting s')" for x
      proof -
        have "x \<in> set (queue (rq (sq s)))" using that by (simp add: s')
        moreover from this have "result_promise x \<notin> promises_of b" using dist by auto
        ultimately show ?thesis using d(5) res(2) b by (simp add: s')
      qed
      show "promises (work s') (result_promise x) \<noteq> Unset" if "x \<in> set (served s')" for x
        using that res d(6) by (cases "result_promise x \<in> promises_of b") (auto simp: s')
      show "promises (work s') x = Unset" if "x \<notin> promises_of (accepted s')" for x
      proof -
        from that have "x \<notin> promises_of (accepted s)" "x \<notin> promises_of b"
          by (auto simp: s' acc)
        then show ?thesis using d(7) res(2) by (simp add: s')
      qed
    qed (simp_all add: s' \<open>worker s = Looping\<close>)
  qed
qed

lemma flow_inv_shutdown:
  assumes "flow_inv cfg s"
  shows "flow_inv cfg (stop_shutdown s)"
  using qstep_queue_inv [OF q_shutdown flow_invD(1) [OF assms]] flow_invD(8,9) [OF assms]
  by (intro flow_inv_frame [OF assms]) (auto simp: stop_shutdown_def shutdown_def)

lemma sstep_flow_inv: "sstep run cfg s s' \<Longrightarrow> flow_inv cfg s \<Longrightarrow> flow_inv cfg s'"
proof (induction rule: sstep.induct)
  case (s_worker s s')
  then show ?case
    by (auto elim!: worker_step.cases intro: flow_inv_consumer flow_inv_iterate)
next
  case (s_env s q')
  then show ?case by (simp add: flow_inv_env)
next
  case (s_submit r s p s')
  then show ?case by (simp add: flow_inv_submit)
next
  case (s_stop_shutdown s)
  then show ?case by (simp add: flow_inv_shutdown)
next
  case (s_reset s)
  from flow_invD(1,8,9) [OF s_reset] show ?case
    by (intro flow_inv_frame [OF s_reset]) (simp_all add: reset_stats_def)
next
  case (s_start s s')
  from flow_invD(1,8,9) [OF s_start.prems] s_start.hyps show ?case
    by (intro flow_inv_frame [OF s_start.prems]) (auto simp: start_def split: if_splits)
next
  case (s_stop_clear s)
  from flow_invD(1,8,9) [OF s_stop_clear.prems] show ?case
    by (intro flow_inv_frame [OF s_stop_clear.prems]) (simp_all add: stop_clear_def)
next
  case (s_stop_join s s')
  from flow_invD(1,8,9) [OF s_stop_join.prems] s_stop_join.hyps show ?case
    by (intro flow_inv_frame [OF s_stop_join.prems]) (auto simp: stop_join_def split: if_splits)
qed

lemma sreach_flow_inv: "sreach run cfg e0 s \<Longrightarrow> flow_inv cfg s"
  by (induction rule: sreach.induct) (auto intro: flow_inv_init sstep_flow_inv)

section \<open>After stop\<close>

text \<open>\<open>stop\<close> has cleared the flag and shut the queue down.\<close>

definition stopped :: "'e sched \<Rightarrow> bool" where
  "stopped s \<longleftrightarrow> \<not> running s \<and> stop_requested (rq (sq s))"

text \<open>How far the worker is from its exit: three for each queued request and the batch at hand.\<close>

definition exit_rank :: "'e sched \<Rightarrow> nat" where
  "exit_rank s =
     (if worker s = Looping
      then 3 * length (queue (rq (sq s))) +
        (case cpc (sq s) of Returned b \<Rightarrow> if b = [] then 1 else 3 | _ \<Rightarrow> 2)
      else 0)"

lemma wad_return_nonempty:
  assumes "wad_return n q = Ret (pc', q')" "n \<noteq> 0" "queue q \<noteq> []" "length (queue q) \<le> deque_max_size"
  obtains b where "pc' = Returned b" "b \<noteq> []" "length (queue q') < length (queue q)"
proof -
  have "0 < drain_count n q"
    using assms by (simp add: drain_count_fits deque_max_size_def unat_gt_0)
  with assms that show ?thesis by (auto simp: wad_return_eq)
qed

text \<open>With the queue shut down the consumer does not block: it takes a batch, or finds none.\<close>

lemma wad_enter_stopped:
  assumes "wad_enter n t c q = Ret (pc', q')" "n \<noteq> 0" "stop_requested q"
    and "length (queue q) \<le> deque_max_size"
  obtains (none) "pc' = Returned []" "q' = q" "queue q = []"
    | (some) b where "pc' = Returned b" "b \<noteq> []" "length (queue q') < length (queue q)"
proof (cases "queue q = []")
  case True
  with assms none show ?thesis by (auto simp: wad_enter_def)
next
  case False
  with assms have "wad_return n q = Ret (pc', q')"
    by (auto simp: wad_enter_def wad_window_def split: if_splits)
  with assms False some show ?thesis by (blast elim: wad_return_nonempty)
qed

lemma consumer_step_stopped:
  assumes "consumer_step n t q q'" "n \<noteq> 0" "stop_requested (rq q)" "queue_inv n t q"
  obtains (none) "cpc q' = Returned []" "rq q' = rq q" "queue (rq q) = []"
    | (some) b where "cpc q' = Returned b" "b \<noteq> []" "length (queue (rq q')) < length (queue (rq q))"
proof -
  have cap: "length (queue (rq q)) \<le> deque_max_size"
    using assms(4) by (auto simp: queue_inv_def consumer_ok_def)
  from assms(1) show ?thesis
  proof cases
    case (c_wake2 d b pc' q1)
    then have "wad_return n (rq q) = Ret (pc', q1)" using assms(3) by (simp add: wad_window_def)
    moreover have "queue (rq q) \<noteq> []"
      using assms(4) c_wake2 by (auto simp: queue_inv_def no_lost_wakeup_def)
    ultimately show ?thesis
      using assms(2) cap some c_wake2 by (auto elim: wad_return_nonempty)
  next
    case (c_timeout d b pc' q1)
    then have "wad_return n (rq q) = Ret (pc', q1)" using assms(3) by (simp add: wad_window_def)
    moreover have "queue (rq q) \<noteq> []"
      using assms(4) c_timeout by (auto simp: queue_inv_def no_lost_wakeup_def)
    ultimately show ?thesis
      using assms(2) cap some c_timeout by (auto elim: wad_return_nonempty)
  next
    case (c_call pc' q1)
    from c_call(3) assms(2,3) cap show ?thesis
      by (rule wad_enter_stopped) (use none some c_call in auto)
  next
    case (c_wake1 b pc' q1)
    from c_wake1(3) assms(2,3) cap show ?thesis
      by (rule wad_enter_stopped) (use none some c_wake1 in auto)
  qed
qed

lemma consumer_step_not_returned: "consumer_step n t q q' \<Longrightarrow> cpc q \<noteq> Returned b"
  by (auto elim: consumer_step.cases)

text \<open>Each step of the worker brings it closer to the exit.\<close>

lemma worker_step_rank:
  assumes "worker_step run cfg s s'" "flow_inv cfg s" "stopped s" "max_batch_size cfg \<noteq> 0"
  shows "exit_rank s' < exit_rank s \<and> stopped s'"
  using assms(1)
proof cases
  case (w_wait q')
  have qi: "queue_inv (max_batch_size cfg) (max_wait cfg) (sq s)"
    using assms(2) by (rule flow_invD)
  have stop: "stop_requested (rq (sq s))" using assms(3) by (simp add: stopped_def)
  have "stop_requested (rq q')" using consumer_step_moves [OF w_wait(3)] stop by simp
  then have st: "stopped s'" using assms(3) w_wait(1) by (simp add: stopped_def)
  have rank: "exit_rank s = 3 * length (queue (rq (sq s))) + 2"
    using w_wait(2) consumer_step_not_returned [OF w_wait(3)]
    by (auto simp: exit_rank_def split: wad_pc.splits)
  from w_wait(3) assms(4) stop qi show ?thesis
    by (rule consumer_step_stopped) (use w_wait st rank in \<open>auto simp: exit_rank_def\<close>)
next
  case (w_iterate b t1 t2 t3)
  then show ?thesis
    using assms(3)
    by (auto simp: iterate_def Let_def exit_rank_def stopped_def res_simps split: if_splits)
qed

text \<open>No other step takes it further away.\<close>

lemma env_step_rank:
  "env_step q q' \<Longrightarrow> rq q' = rq q \<and> (case cpc q' of Returned b \<Rightarrow> cpc q = Returned b | _ \<Rightarrow> \<forall>b. cpc q \<noteq> Returned b)"
proof (induction rule: env_step.induct)
  case (e_notify s n)
  then show ?case by (cases "cpc s") auto
next
  case (e_tick s t)
  then show ?case by (cases "cpc s") auto
qed

lemma sstep_rank:
  assumes "sstep run cfg s s'" "flow_inv cfg s" "stopped s" "worker s = Looping"
    and "max_batch_size cfg \<noteq> 0"
  shows "exit_rank s' \<le> exit_rank s \<and> stopped s'"
  using assms(1)
proof cases
  case s_worker
  with worker_step_rank assms(2,3,5) show ?thesis by (blast intro: less_imp_le)
next
  case (s_env q')
  with env_step_rank [OF s_env(2)] assms(3) show ?thesis
    by (auto simp: exit_rank_def stopped_def split: wad_pc.splits)
next
  case (s_submit r p)
  from s_submit(1) show ?thesis
    by (rule submitE) (use assms(3) push_TrueD in \<open>fastforce simp: stopped_def\<close>)
next
  case s_start
  with assms(3,4) show ?thesis by (simp add: start_def stopped_def)
next
  case s_stop_join
  with assms(4) show ?thesis by (simp add: stop_join_def)
qed (use assms(3) in \<open>simp_all add: exit_rank_def stopped_def reset_stats_def stop_clear_def
      stop_shutdown_def shutdown_def\<close>)



section \<open>What an engine that keeps the row contract gives\<close>

context row_engine
begin

definition answer_inv :: "SchedulerConfig \<Rightarrow> 'e \<Rightarrow> 'e sched \<Rightarrow> bool" where
  "answer_inv cfg e0 s \<longleftrightarrow>
     compatible cfg (engine (work s)) \<and> row_of (engine (work s)) = row_of e0 \<and>
     (\<forall>r \<in> set (served s). answer cfg (row_fun cfg e0) faults r (promises (work s) (result_promise r)))"

lemma answer_inv_init: "compatible cfg e0 \<Longrightarrow> answer_inv cfg e0 (new_scheduler e0)"
  by (simp add: answer_inv_def new_scheduler_def)

text \<open>The worker's batch is always one that \<open>process_drained\<close> can answer.\<close>

lemma iterate_batch:
  assumes "flow_inv cfg s" "answer_inv cfg e0 s" "cpc (sq s) = Returned b"
  shows "\<exists>c'. process_drained run cfg t1 t2 t3 b (work s) = Ret c' \<and>
    compatible cfg (engine c') \<and> row_of (engine c') = row_of e0 \<and>
    (\<forall>r \<in> set b. answer cfg (row_fun cfg e0) faults r (promises c' (result_promise r))) \<and>
    (\<forall>p. p \<notin> promises_of b \<longrightarrow> promises c' p = promises (work s) p)"
proof -
  note d = flow_invD [OF assms(1)]
  have acc: "accepted s = served s @ b @ queue (rq (sq s))" using d(2) assms(3) by simp
  have "distinct (map result_promise b)" using d(3) by (simp add: acc)
  then have "fresh b (promises (work s))" using d(5) assms(3) by (simp add: fresh_def)
  moreover have "length b \<le> unat (max_batch_size cfg)"
    using d(1) assms(3) by (auto simp: queue_inv_def consumer_ok_def)
  moreover have "inputs_ok b" using d(4) by (auto simp: acc inputs_ok_def)
  ultimately show ?thesis
    using process_drained_answers [of cfg "work s" b t1 t2 t3] assms(2)
    by (simp add: answer_inv_def)
qed

lemma answer_inv_iterate:
  assumes "flow_inv cfg s" "answer_inv cfg e0 s" "cpc (sq s) = Returned b"
    and it: "iterate run cfg t1 t2 t3 s = Ret s'"
  shows "answer_inv cfg e0 s'"
proof (cases "b = []")
  case True
  with assms show ?thesis by (auto simp: iterate_def answer_inv_def Let_def split: if_splits)
next
  case False
  note d = flow_invD [OF assms(1)]
  obtain c where c: "process_drained run cfg t1 t2 t3 b (work s) = Ret c"
    and ok: "compatible cfg (engine c)" "row_of (engine c) = row_of e0"
    and new: "\<And>r. r \<in> set b \<Longrightarrow> answer cfg (row_fun cfg e0) faults r (promises c (result_promise r))"
    and old: "\<And>p. p \<notin> promises_of b \<Longrightarrow> promises c p = promises (work s) p"
    using iterate_batch [OF assms(1-3), of t1 t2 t3] by blast
  have s': "s' = s\<lparr>sq := (sq s)\<lparr>cpc := Outside\<rparr>, work := c, served := served s @ b\<rparr>"
    using it assms(3) False c by (simp add: iterate_def Let_def)
  have "answer cfg (row_fun cfg e0) faults r (promises c (result_promise r))" if "r \<in> set (served s)" for r
  proof -
    have "promises_of (served s) \<inter> promises_of b = {}" using d(2,3) assms(3) by auto
    with that have "result_promise r \<notin> promises_of b" by blast
    with old that assms(2) show ?thesis by (simp add: answer_inv_def)
  qed
  with ok new show ?thesis by (auto simp: s' answer_inv_def)
qed

lemma sstep_answer_inv:
  "sstep run cfg s s' \<Longrightarrow> flow_inv cfg s \<Longrightarrow> answer_inv cfg e0 s \<Longrightarrow> answer_inv cfg e0 s'"
proof (induction rule: sstep.induct)
  case (s_worker s s')
  from s_worker.hyps show ?case
  proof cases
    case (w_wait q')
    with s_worker.prems show ?thesis by (simp add: answer_inv_def)
  next
    case (w_iterate b t1 t2 t3)
    with s_worker.prems show ?thesis by (blast intro: answer_inv_iterate)
  qed
next
  case (s_submit r s p s')
  from s_submit.hyps(1) show ?case
    by (rule submitE) (use s_submit.prems in \<open>simp add: answer_inv_def\<close>)
qed (auto simp: answer_inv_def reset_stats_def start_def stop_clear_def stop_shutdown_def
      stop_join_def split: if_splits)

lemma sreach_answer_inv:
  assumes "sreach run cfg e0 s" "compatible cfg e0"
  shows "answer_inv cfg e0 s"
  using assms(1)
proof (induction rule: sreach.induct)
  case sreach_init
  show ?case using assms(2) by (rule answer_inv_init)
next
  case (sreach_step s s')
  then show ?case by (blast intro: sstep_answer_inv sreach_flow_inv)
qed

text \<open>The worker thread never stops making steps while it loops: it cannot end the process.\<close>

lemma iterate_returns:
  assumes "flow_inv cfg s" "answer_inv cfg e0 s" "cpc (sq s) = Returned b"
  shows "\<exists>s'. iterate run cfg t1 t2 t3 s = Ret s'"
  using iterate_batch [OF assms, of t1 t2 t3] assms(3)
  by (auto simp: iterate_def Let_def)

lemma worker_progress:
  assumes "flow_inv cfg s" "answer_inv cfg e0 s" "worker s = Looping"
  shows "\<exists>s'. worker_step run cfg s s'"
proof (cases "cpc (sq s)")
  case (Returned b)
  obtain s' where "iterate run cfg (now (sq s)) (now (sq s)) (now (sq s)) s = Ret s'"
    using iterate_returns [OF assms(1,2) Returned] by blast
  with assms(3) Returned show ?thesis by (blast intro: w_iterate)
next
  case Outside
  then show ?thesis
    using assms(3) wad_enter_total [of "max_batch_size cfg" "max_wait cfg" "now (sq s)" "rq (sq s)"]
    by (blast intro: w_wait c_call)
next
  case (Parked1 f)
  then show ?thesis
    using assms(3) wad_enter_total [of "max_batch_size cfg" "max_wait cfg" "now (sq s)" "rq (sq s)"]
    by (blast intro: w_wait c_wake1)
next
  case (Parked2 d f)
  then show ?thesis
    using assms(3) wad_window_total [of "max_batch_size cfg" d False "rq (sq s)"]
    by (blast intro: w_wait c_wake2)
qed

text \<open>After \<open>stop\<close> the worker's own steps take it to its exit.\<close>

lemma worker_exits:
  assumes "flow_inv cfg s" "answer_inv cfg e0 s" "stopped s" "max_batch_size cfg \<noteq> 0"
    and "worker s = Looping"
  shows "\<exists>s'. (worker_step run cfg)\<^sup>*\<^sup>* s s' \<and> worker s' = Finished"
  using assms
proof (induction "exit_rank s" arbitrary: s rule: less_induct)
  case less
  obtain s1 where s1: "worker_step run cfg s s1" using worker_progress less.prems by blast
  have inv: "flow_inv cfg s1" "answer_inv cfg e0 s1"
    using sstep_flow_inv sstep_answer_inv s_worker [OF s1] less.prems by blast+
  have rank: "exit_rank s1 < exit_rank s" "stopped s1"
    using worker_step_rank [OF s1] less.prems by blast+
  show ?case
  proof (cases "worker s1 = Looping")
    case True
    then obtain s' where "(worker_step run cfg)\<^sup>*\<^sup>* s1 s'" "worker s' = Finished"
      using less.hyps rank inv less.prems by blast
    with s1 show ?thesis by (blast intro: converse_rtranclp_into_rtranclp)
  next
    case False
    with s1 have "worker s1 = Finished"
      using less.prems(5)
      by cases (auto simp: iterate_def Let_def res_simps split: wad_pc.splits if_splits)
    with s1 show ?thesis by blast
  qed
qed

end

section \<open>Running a schedule\<close>

text \<open>
  A schedule names the steps one after the other, so that a run can be computed; each action is one
  of the steps above.
\<close>

datatype act = AStart | ASubmit InferenceRequest | ACall | AWake | ATimeout | AIterate int int int
  | ATick int | ANotify | AClear | AShut | AJoin

definition to_option :: "'a res \<Rightarrow> 'a option" where
  "to_option r = (case r of Ret x \<Rightarrow> Some x | _ \<Rightarrow> None)"

definition put_consumer :: "'e sched \<Rightarrow> wad_pc \<times> RequestQueue \<Rightarrow> 'e sched" where
  "put_consumer s = (\<lambda>(pc, q). s\<lparr>sq := (sq s)\<lparr>rq := q, cpc := pc\<rparr>\<rparr>)"

fun perform :: "'e engine \<Rightarrow> SchedulerConfig \<Rightarrow> act \<Rightarrow> 'e sched \<Rightarrow> 'e sched option" where
  "perform run cfg AStart s = (if stopping s = NotStopping then to_option (start s) else None)"
| "perform run cfg (ASubmit r) s =
     (if length (input_data r) \<le> vec_max_size \<and> result_promise r \<notin> promises_of (accepted s)
      then (case submit r s of (Ret p, s') \<Rightarrow> Some s' | _ \<Rightarrow> None) else None)"
| "perform run cfg ACall s =
     (if worker s = Looping \<and> cpc (sq s) = Outside
      then map_option (put_consumer s) (to_option
        (wad_enter (max_batch_size cfg) (max_wait cfg) (now (sq s)) (rq (sq s)))) else None)"
| "perform run cfg AWake s =
     (if worker s = Looping then
        (case cpc (sq s) of
           Parked1 b \<Rightarrow> map_option (put_consumer s) (to_option
             (wad_enter (max_batch_size cfg) (max_wait cfg) (now (sq s)) (rq (sq s))))
         | Parked2 d b \<Rightarrow> map_option (put_consumer s) (to_option
             (wad_window (max_batch_size cfg) d False (rq (sq s))))
         | _ \<Rightarrow> None) else None)"
| "perform run cfg ATimeout s =
     (case cpc (sq s) of
        Parked2 d b \<Rightarrow> (if worker s = Looping \<and> d \<le> now (sq s)
          then map_option (put_consumer s) (to_option
            (wad_window (max_batch_size cfg) d True (rq (sq s)))) else None)
      | _ \<Rightarrow> None)"
| "perform run cfg (AIterate t1 t2 t3) s =
     (case cpc (sq s) of
        Returned b \<Rightarrow> (if worker s = Looping \<and> now (sq s) \<le> t1 \<and> t1 \<le> t2 \<and> t2 \<le> t3
          then to_option (iterate run cfg t1 t2 t3 s) else None)
      | _ \<Rightarrow> None)"
| "perform run cfg (ATick t) s =
     (if now (sq s) \<le> t then Some (s\<lparr>sq := (sq s)\<lparr>now := t\<rparr>\<rparr>) else None)"
| "perform run cfg ANotify s =
     (case notifying (sq s) of
        0 \<Rightarrow> None
      | Suc n \<Rightarrow> Some (s\<lparr>sq := (sq s)\<lparr>notifying := n, cpc := notified (cpc (sq s))\<rparr>\<rparr>))"
| "perform run cfg AClear s = (if stopping s = NotStopping then Some (stop_clear s) else None)"
| "perform run cfg AShut s = (if stopping s = FlagCleared then Some (stop_shutdown s) else None)"
| "perform run cfg AJoin s = (if stopping s = QueueShut then stop_join s else None)"

fun perform_all :: "'e engine \<Rightarrow> SchedulerConfig \<Rightarrow> act list \<Rightarrow> 'e sched \<Rightarrow> 'e sched option" where
  "perform_all run cfg [] s = Some s"
| "perform_all run cfg (a # as) s =
     (case perform run cfg a s of None \<Rightarrow> None | Some s' \<Rightarrow> perform_all run cfg as s')"

lemma to_option_Some [simp]: "to_option r = Some x \<longleftrightarrow> r = Ret x"
  by (cases r) (simp_all add: to_option_def)

lemma consumer_worker_step:
  assumes "worker s = Looping"
    and "consumer_step (max_batch_size cfg) (max_wait cfg) (sq s) ((sq s)\<lparr>rq := q, cpc := pc\<rparr>)"
  shows "sstep run cfg s (put_consumer s (pc, q))"
  using s_worker [OF w_wait [OF assms]] by (simp add: put_consumer_def)

lemma consumer_perform:
  assumes "worker s = Looping" and "map_option (put_consumer s) (to_option r) = Some s'"
    and "\<And>pc q. r = Ret (pc, q) \<Longrightarrow>
      consumer_step (max_batch_size cfg) (max_wait cfg) (sq s) ((sq s)\<lparr>rq := q, cpc := pc\<rparr>)"
  shows "sstep run cfg s s'"
proof -
  from assms(2) obtain pc q where "r = Ret (pc, q)" "s' = put_consumer s (pc, q)" by auto
  with consumer_worker_step [OF assms(1) assms(3)] show ?thesis by simp
qed

lemma perform_wake_sound:
  assumes "perform run cfg AWake s = Some s'"
  shows "sstep run cfg s s'"
proof (cases "cpc (sq s)")
  case (Parked1 b)
  with assms have "worker s = Looping" "map_option (put_consumer s) (to_option
      (wad_enter (max_batch_size cfg) (max_wait cfg) (now (sq s)) (rq (sq s)))) = Some s'"
    by (simp_all split: if_splits)
  then show ?thesis by (rule consumer_perform) (rule c_wake1 [OF Parked1])
next
  case (Parked2 d b)
  with assms have "worker s = Looping" "map_option (put_consumer s) (to_option
      (wad_window (max_batch_size cfg) d False (rq (sq s)))) = Some s'"
    by (simp_all split: if_splits)
  then show ?thesis by (rule consumer_perform) (rule c_wake2 [OF Parked2])
qed (use assms in \<open>simp_all split: if_splits\<close>)

lemma perform_timeout_sound:
  assumes "perform run cfg ATimeout s = Some s'"
  shows "sstep run cfg s s'"
proof (cases "cpc (sq s)")
  case (Parked2 d b)
  with assms have due: "d \<le> now (sq s)" and "worker s = Looping" "map_option (put_consumer s) (to_option
      (wad_window (max_batch_size cfg) d True (rq (sq s)))) = Some s'"
    by (simp_all split: if_splits)
  from this(2,3) show ?thesis by (rule consumer_perform) (rule c_timeout [OF Parked2 due])
qed (use assms in simp_all)

lemma perform_iterate_sound:
  assumes "perform run cfg (AIterate t1 t2 t3) s = Some s'"
  shows "sstep run cfg s s'"
proof (cases "cpc (sq s)")
  case (Returned b)
  with assms have "worker s = Looping" "now (sq s) \<le> t1" "t1 \<le> t2" "t2 \<le> t3"
    "iterate run cfg t1 t2 t3 s = Ret s'"
    by (simp_all split: if_splits)
  then show ?thesis using s_worker w_iterate Returned by blast
qed (use assms in simp_all)

lemma perform_sound:
  assumes "perform run cfg a s = Some s'"
  shows "sstep run cfg s s'"
proof (cases a)
  case ACall
  with assms have "cpc (sq s) = Outside" "worker s = Looping" "map_option (put_consumer s) (to_option
      (wad_enter (max_batch_size cfg) (max_wait cfg) (now (sq s)) (rq (sq s)))) = Some s'"
    by (simp_all split: if_splits)
  from this(2,3) show ?thesis by (rule consumer_perform) (rule c_call [OF \<open>cpc (sq s) = Outside\<close>])
next
  case (ASubmit r)
  with assms have ok: "inputs_ok [r]" "result_promise r \<notin> promises_of (accepted s)"
    by (simp_all add: inputs_ok_def split: if_splits)
  with ASubmit assms obtain p where "submit r s = (Ret p, s')"
    by (cases "submit r s"; cases "fst (submit r s)") (auto simp: inputs_ok_def)
  from this ok show ?thesis by (rule s_submit)
next
  case (ATick t)
  with assms have "s' = s\<lparr>sq := (sq s)\<lparr>now := t\<rparr>\<rparr>" "now (sq s) \<le> t" by (simp_all split: if_splits)
  with s_env [OF e_tick] show ?thesis by blast
next
  case ANotify
  with assms obtain n where "notifying (sq s) = Suc n"
    "s' = s\<lparr>sq := (sq s)\<lparr>notifying := n, cpc := notified (cpc (sq s))\<rparr>\<rparr>"
    by (auto split: nat.splits)
  with s_env [OF e_notify] show ?thesis by blast
next
  case AStart
  with assms show ?thesis by (intro s_start) (simp_all split: if_splits)
next
  case AJoin
  with assms show ?thesis by (intro s_stop_join) (simp_all split: if_splits)
next
  case AClear
  with assms show ?thesis by (auto split: if_splits intro: s_stop_clear)
next
  case AShut
  with assms show ?thesis by (auto split: if_splits intro: s_stop_shutdown)
next
  case AWake
  then show ?thesis using perform_wake_sound assms by (simp only:)
next
  case ATimeout
  then show ?thesis using perform_timeout_sound assms by (simp only:)
next
  case (AIterate t1 t2 t3)
  then show ?thesis using perform_iterate_sound assms by (simp only:)
qed

lemma perform_all_sound:
  "sreach run cfg e s \<Longrightarrow> perform_all run cfg as s = Some s' \<Longrightarrow> sreach run cfg e s'"
proof (induction as arbitrary: s)
  case (Cons a as)
  then obtain s1 where "perform run cfg a s = Some s1" "perform_all run cfg as s1 = Some s'"
    by (auto split: option.splits)
  with Cons.IH [OF sreach_step [OF Cons.prems(1) perform_sound]] show ?case by simp
qed simp

text \<open>One request is submitted, the scheduler is stopped, and the worker drains and leaves.\<close>

definition demo_acts :: "act list" where
  "demo_acts = [AStart, ASubmit good_request, ACall, AClear, AShut, ANotify, AWake]"

definition demo_batched :: "unit sched" where
  "demo_batched =
     \<lparr>work = fresh_core,
      sq = \<lparr>rq = \<lparr>queue = [], stop_requested = True\<rparr>, cpc = Returned [good_request], now = 0, notifying = 1\<rparr>,
      running = False, worker = Looping, stopping = QueueShut, accepted = [good_request], served = []\<rparr>"

definition demo_core :: "unit core" where
  "demo_core =
     \<lparr>engine = (), counters = \<lparr>total_batches = 1, total_requests = 1, max_batch_size_seen = 1,
        total_queue_wait_us = 0, max_queue_wait_us = 0, total_exec_us = 0\<rparr>,
      promises = (\<lambda>_. Unset)(0 := Value \<lparr>res_request_id = 1, logits = [Fin False 3]\<rparr>)\<rparr>"

definition demo_finished :: "unit sched" where
  "demo_finished =
     \<lparr>work = demo_core,
      sq = \<lparr>rq = \<lparr>queue = [], stop_requested = True\<rparr>, cpc = Outside, now = 0, notifying = 1\<rparr>,
      running = False, worker = Finished, stopping = QueueShut, accepted = [good_request],
      served = [good_request]\<rparr>"

lemmas queue_evals = wad_enter_def wad_window_def wad_return_eq drain_count_def queue_size_def vsize_def
  push_def shutdown_def init_qsys_def empty_queue_def deque_max_size_def

lemmas sched_evals = new_scheduler_def start_def submit_def stop_clear_def stop_shutdown_def
  iterate_def put_consumer_def to_option_def


lemma demo_batched_run:
  "perform_all stub_engine small_config demo_acts (new_scheduler ()) = Some demo_batched"
  by (simp add: demo_acts_def demo_batched_def sched_evals queue_evals small_config_def
      good_request_def fresh_core_def vec_max_size_def word_le_nat_alt)

lemma demo_stub: "stub_run_inference [Fin False 3, fzero] 1 2 1 = Ret [Fin False 3]"
  using stub_run_rows [of "[Fin False 3, fzero]" 1 2 1]
  by (simp add: geometry_ok_def vec_max_size_def rows_def row_def fit_row_def)

lemma demo_process:
  "process_drained stub_engine small_config 0 0 0 [good_request] fresh_core = Ret demo_core"
  by (simp add: process_drained_def execute_batch_def stub_engine_def demo_stub
      small_config_def good_request_def fresh_core_def demo_core_def set_value_def vsize_def
      count_batch_def elapsed_us_def duration_us_def zero_stats_def vec_max_size_def Let_def
      deliver_def vec_slice_def max_def word_le_nat_alt)

lemma demo_finished_run:
  "perform_all stub_engine small_config [AIterate 0 0 0, ACall, AIterate 0 0 0] demo_batched =
   Some demo_finished"
  by (simp add: demo_batched_def iterate_def demo_process Let_def to_option_def put_consumer_def
      wad_enter_def demo_finished_def)

lemma demo_batched_reach: "sreach stub_engine small_config () demo_batched"
  using perform_all_sound [OF sreach_init demo_batched_run] .

lemma demo_finished_reach: "sreach stub_engine small_config () demo_finished"
  using perform_all_sound [OF demo_batched_reach demo_finished_run] .

text \<open>
  The same schedule reaches a served request with any engine that keeps the contract and any row widths.
\<close>

abbreviation config_of :: "size_t \<Rightarrow> size_t \<Rightarrow> SchedulerConfig" where
  "config_of ie oe \<equiv> \<lparr>max_batch_size = 4, max_wait = 5, input_elems = ie, output_elems = oe\<rparr>"

abbreviation request_of :: "f32 list \<Rightarrow> InferenceRequest" where
  "request_of xs \<equiv> \<lparr>request_id = 1, input_data = xs, arrival_time = 0, result_promise = 0\<rparr>"

definition batched_with :: "'e \<Rightarrow> f32 list \<Rightarrow> 'e sched" where
  "batched_with e xs =
     \<lparr>work = \<lparr>engine = e, counters = zero_stats, promises = (\<lambda>_. Unset)\<rparr>,
      sq = \<lparr>rq = \<lparr>queue = [], stop_requested = True\<rparr>, cpc = Returned [request_of xs], now = 0, notifying = 1\<rparr>,
      running = False, worker = Looping, stopping = QueueShut, accepted = [request_of xs], served = []\<rparr>"

lemma batched_with_reach:
  assumes "length xs \<le> vec_max_size"
  shows "sreach run (config_of ie oe) e (batched_with e xs)"
proof -
  have "perform_all run (config_of ie oe) [AStart, ASubmit (request_of xs), ACall, AClear, AShut, ANotify, AWake]
      (new_scheduler e) = Some (batched_with e xs)"
    using assms by (simp add: batched_with_def sched_evals queue_evals word_le_nat_alt)
  from perform_all_sound [OF sreach_init this] show ?thesis .
qed

context row_engine
begin

lemma served_reach:
  assumes "compatible (config_of ie oe) e" "length xs \<le> vec_max_size"
  shows "\<exists>s. sreach run (config_of ie oe) e s \<and> served s = [request_of xs]"
proof -
  note r = batched_with_reach [OF assms(2), of run ie oe e]
  have pc: "cpc (sq (batched_with e xs)) = Returned [request_of xs]" by (simp add: batched_with_def)
  obtain s where s: "iterate run (config_of ie oe) 0 0 0 (batched_with e xs) = Ret s"
    using iterate_returns [OF sreach_flow_inv [OF r] sreach_answer_inv [OF r assms(1)] pc] by blast
  then have "served s = [request_of xs]" by (auto simp: iterate_def batched_with_def res_bind_eq_Ret)
  moreover have "sstep run (config_of ie oe) (batched_with e xs) s"
    by (rule s_worker, rule w_iterate [OF _ pc _ _ _ s]) (simp_all add: batched_with_def)
  ultimately show ?thesis using sreach_step [OF r] by blast
qed

end

text \<open>A worker that has left its loop has served everything.\<close>

lemma finished_resolved:
  assumes "sreach run cfg e s" and "worker s = Finished" and "max_batch_size cfg \<noteq> 0"
  shows "served s = accepted s \<and> (\<forall>r \<in> set (accepted s). promises (work s) (result_promise r) \<noteq> Unset)"
proof -
  note d = flow_invD [OF sreach_flow_inv [OF assms(1)]]
  have "queue (rq (sq s)) = []" "cpc (sq s) = Outside" using d(8,9) assms(2,3) by auto
  with d(2,6) show ?thesis by simp
qed

section \<open>Properties of the running scheduler\<close>

text \<open>
  C5: In every interleaving and with any engine, the accepted requests are the served ones followed by
  the batch at hand and the queue, in arrival order; the promise of a served request is resolved and
  that of any other is not.
\<close>

theorem scheduler_in_order:
  assumes "sreach run cfg e s"
  shows "accepted s = served s @ waiting s \<and>
    (\<forall>r \<in> set (served s). promises (work s) (result_promise r) \<noteq> Unset) \<and>
    (\<forall>r \<in> set (waiting s). promises (work s) (result_promise r) = Unset)"
  using flow_invD(2,5,6) [OF sreach_flow_inv [OF assms]] by blast

theorem scheduler_in_order_witness:
  "accepted demo_batched = [] @ [good_request] \<and> promises (work demo_batched) 0 = Unset"
  using scheduler_in_order [OF demo_batched_reach]
  by (simp add: demo_batched_def good_request_def)

text \<open>
  C2: With the stub engine and any configuration whose largest batch fits a vector, in every
  interleaving, every served request of the right size has been answered under its own id with its own
  input fitted to the output width, whatever it was batched with, and every other one with the size error.
\<close>

theorem stub_scheduler_answers:
  assumes "sreach stub_engine cfg () s"
    and "geometry_ok (max_batch_size cfg) (input_elems cfg) (output_elems cfg)"
    and "r \<in> set (served s)"
  shows "promises (work s) (result_promise r) =
    (if fits (input_elems cfg) r
     then Value \<lparr>res_request_id = request_id r,
       logits = fit_row (input_elems cfg) (output_elems cfg) (input_data r)\<rparr>
     else Exception size_mismatch)"
proof -
  have "stub.compatible cfg ()"
    using assms(2) by (auto simp: stub.compatible_def intro: geometry_ok_mono)
  from stub.sreach_answer_inv [OF assms(1) this] assms(3) show ?thesis
    by (auto simp: stub.answer_inv_def answer_def)
qed

theorem stub_scheduler_answers_witness:
  "promises (work demo_finished) 0 = Value \<lparr>res_request_id = 1, logits = [Fin False 3]\<rparr>"
  using stub_scheduler_answers [OF demo_finished_reach, of good_request]
  by (simp add: small_config_def demo_finished_def geometry_ok_def vec_max_size_def good_request_def
      fits_def vsize_def fit_row_def)

text \<open>
  C6: With any engine and a positive batch limit, once the worker has left its loop the queue is shut
  and empty and every request that \<open>submit\<close> ever accepted has a resolved promise: shutting down
  drops nothing.
\<close>

theorem exit_leaves_nothing:
  assumes "sreach run cfg e s" and "worker s = Finished" and "max_batch_size cfg \<noteq> 0"
  shows "served s = accepted s \<and> stop_requested (rq (sq s)) \<and>
    (\<forall>r \<in> set (accepted s). promises (work s) (result_promise r) \<noteq> Unset)"
  using finished_resolved [OF assms] flow_invD(9) [OF sreach_flow_inv [OF assms(1)] assms(2)] assms(3) by simp

theorem exit_leaves_nothing_witness:
  "served demo_finished = accepted demo_finished \<and> promises (work demo_finished) 0 \<noteq> Unset"
  using exit_leaves_nothing [OF demo_finished_reach]
  by (simp add: demo_finished_def small_config_def good_request_def)

text \<open>
  C8: After \<open>stop\<close> has shut the queue down, every step of the worker strictly lowers a rank and no
  other step raises it, with any engine: the worker runs at most \<open>exit_rank\<close> more steps before it
  leaves, so \<open>join\<close> is not kept waiting by new work.
\<close>

theorem stop_bounds_worker:
  assumes "sreach run cfg e s" and "stopped s" and "worker s = Looping" and "max_batch_size cfg \<noteq> 0"
    and "sstep run cfg s s'"
  shows "exit_rank s' \<le> exit_rank s \<and> (worker_step run cfg s s' \<longrightarrow> exit_rank s' < exit_rank s) \<and> stopped s'"
  using sstep_rank [OF assms(5) sreach_flow_inv [OF assms(1)] assms(2-4)]
    worker_step_rank [OF _ sreach_flow_inv [OF assms(1)] assms(2,4)] by blast

definition demo_served :: "unit sched" where
  "demo_served = demo_batched\<lparr>work := demo_core, sq := (sq demo_batched)\<lparr>cpc := Outside\<rparr>,
     served := [good_request]\<rparr>"

lemma demo_worker_step: "worker_step stub_engine small_config demo_batched demo_served"
proof (rule w_iterate)
  show "iterate stub_engine small_config 0 0 0 demo_batched = Ret demo_served"
    by (simp add: demo_batched_def iterate_def demo_process Let_def demo_served_def)
qed (simp_all add: demo_batched_def)

theorem stop_bounds_worker_witness:
  "exit_rank demo_batched = 3 \<and> exit_rank demo_served < 3"
proof -
  have "exit_rank demo_batched = 3" "stopped demo_batched" "worker demo_batched = Looping"
    "max_batch_size small_config \<noteq> 0"
    by (simp_all add: demo_batched_def exit_rank_def stopped_def small_config_def)
  with stop_bounds_worker [OF demo_batched_reach _ _ _ s_worker [OF demo_worker_step]]
    demo_worker_step show ?thesis by auto
qed



end
