(* ===== verification/Cuda_Engine.thy ===== *)
theory Cuda_Engine
  imports Device_Work Memory_Pool Scheduler_System
begin

text \<open>
  \<open>CudaExecutionEngine\<close> (cpp/src/engine/cuda_execution_engine.cpp): the device round trip of a batch
  through page-locked staging, an upload, the normalisation kernel and a download, on buffers of a
  \<open>MemoryPool\<close> and a stream of a \<open>CudaStreamPool\<close>. Shown: on a runtime whose copies succeed every batch
  yields its normalised rows, or a \<open>CudaError\<close> when no block could be allocated, and the engine's
  invariant is kept. This makes the engine an instance of \<open>row_engine\<close>.
\<close>

section \<open>State\<close>

record CudaOptions =
  opt_mean :: "f32 list"
  opt_stddev :: "f32 list"
  opt_device :: i32
  opt_streams :: size_t

definition default_cuda_options :: CudaOptions where
  "default_cuda_options =
     \<lparr>opt_mean = [thousandths 485, thousandths 456, thousandths 406],
      opt_stddev = [thousandths 229, thousandths 224, thousandths 225],
      opt_device = 0, opt_streams = 2\<rparr>"

record CudaExecutionEngine =
  options :: CudaOptions
  pool :: MemoryPool
  stream_pool :: CudaStreamPool
  mean_buf :: DeviceBuffer
  stddev_buf :: DeviceBuffer

text \<open>The engine together with the device it runs on.\<close>

record 'g cest =
  ce :: CudaExecutionEngine
  cgpu :: "'g gpu"

definition channels :: "CudaExecutionEngine \<Rightarrow> size_t" where
  "channels e = vsize (opt_mean (options e))"

definition engine_pool_stats :: "CudaExecutionEngine \<Rightarrow> MemoryPoolStats" where
  "engine_pool_stats e = get_stats (pool e)"

section \<open>Construction and destruction\<close>

text \<open>The constructor's body: the checks, then the uploads.\<close>

definition upload_constants :: "CudaOptions \<Rightarrow> DeviceBuffer \<Rightarrow> DeviceBuffer \<Rightarrow> ('g gpu, unit) cmd" where
  "upload_constants opts m t g =
     (if opt_mean opts = []
      then cthrow (CudaError ''CudaExecutionEngine: mean must have at least one channel'') g
      else if vsize (opt_mean opts) \<noteq> vsize (opt_stddev opts)
      then cthrow (CudaError ''CudaExecutionEngine: mean and stddev must have the same length'') g
      else if \<exists>x \<in> set (opt_stddev opts). feq x fzero
      then cthrow (CudaError ''CudaExecutionEngine: stddev entries must be non-zero'') g
      else cbind (\<lambda>g. checked (cudaMemcpyToDevice (api g) (dev_ptr m) (opt_mean opts)) ''cudaMemcpy (mean)'' g)
             (\<lambda>_ g. checked (cudaMemcpyToDevice (api g) (dev_ptr t) (opt_stddev opts)) ''cudaMemcpy (stddev)'' g) g)"

text \<open>
  The members are built in the order of their declarations; the pool allocates nothing on construction,
  so that its destructor has nothing to undo.
\<close>

definition cuda_engine_new :: "CudaOptions \<Rightarrow> ('g gpu, CudaExecutionEngine) cmd" where
  "cuda_engine_new opts =
     cbind (stream_pool_new (opt_streams opts) (opt_device opts)) (\<lambda>ss.
       con_throw (cbind (device_new (vsize (opt_mean opts) * 4)) (\<lambda>m.
         con_throw (cbind (device_new (vsize (opt_stddev opts) * 4)) (\<lambda>t.
           con_throw (cbind (upload_constants opts m t) (\<lambda>_.
             cret \<lparr>options = opts, pool = new_pool (opt_device opts), stream_pool = ss,
               mean_buf = m, stddev_buf = t\<rparr>))
           (device_destroy t)))
         (device_destroy m)))
       (stream_pool_destroy ss))"

definition pst_of :: "'g cest \<Rightarrow> 'g pst" where
  "pst_of s = \<lparr>mp = pool (ce s), dev = cgpu s\<rparr>"

definition put_pst :: "'g cest \<Rightarrow> 'g pst \<Rightarrow> 'g cest" where
  "put_pst s p = s\<lparr>ce := (ce s)\<lparr>pool := mp p\<rparr>, cgpu := dev p\<rparr>"

text \<open>The implicit destructor: the members in reverse order.\<close>

definition cuda_engine_destroy :: "'g cest \<Rightarrow> 'g gpu res" where
  "cuda_engine_destroy s =
     (let g1 = device_destroy (mean_buf (ce s)) (device_destroy (stddev_buf (ce s)) (cgpu s));
          g2 = stream_pool_destroy (stream_pool (ce s)) g1
      in res_bind (pool_destroy \<lparr>mp = pool (ce s), dev = g2\<rparr>) (\<lambda>p. Ret (dev p)))"

section \<open>Running a batch\<close>

definition on_pool :: "('g pst, 'a) cmd \<Rightarrow> ('g cest, 'a) cmd" where
  "on_pool m s = (case m (pst_of s) of (r, p) \<Rightarrow> (r, put_pst s p))"

definition on_gpu :: "('g gpu, 'a) cmd \<Rightarrow> ('g cest, 'a) cmd" where
  "on_gpu m s = (case m (cgpu s) of (r, g) \<Rightarrow> (r, s\<lparr>cgpu := g\<rparr>))"

definition next_stream :: "('g cest, stream) cmd" where
  "next_stream s =
     (case stream_next (stream_pool (ce s)) of
        Ret (x, p) \<Rightarrow> (Ret x, s\<lparr>ce := (ce s)\<lparr>stream_pool := p\<rparr>\<rparr>)
      | _ \<Rightarrow> (Undef, s))"

text \<open>The stages that are queued on the stream, and the wait for them.\<close>

definition device_stages ::
    "CudaExecutionEngine \<Rightarrow> size_t \<Rightarrow> size_t \<Rightarrow> size_t \<Rightarrow> addr \<Rightarrow> addr \<Rightarrow> stream \<Rightarrow> ('g gpu, unit) cmd" where
  "device_stages e n hw bytes h d s =
     cbind (\<lambda>g. checked (cudaMemcpyAsyncH2D (api g) d h bytes s) ''cudaMemcpyAsync (H2D)'' g) (\<lambda>_.
     cbind (launch_normalize d (ucast n) (ucast (channels e)) (ucast hw)
       (dev_ptr (mean_buf e)) (dev_ptr (stddev_buf e)) s) (\<lambda>_.
     cbind (\<lambda>g. checked (cudaMemcpyAsyncD2H (api g) h d bytes s) ''cudaMemcpyAsync (D2H)'' g) (\<lambda>_ g.
       checked (cudaStreamSynchronize (api g) s) ''cudaStreamSynchronize'' g)))"

text \<open>The output vector: the leading elements of each normalised row, the rest zero.\<close>

definition shape_output :: "size_t \<Rightarrow> size_t \<Rightarrow> size_t \<Rightarrow> f32 list \<Rightarrow> f32 list res" where
  "shape_output n ie oe normalized =
     res_bind (vec_filled (n * oe) fzero) (copy_rows normalized ie oe (min ie oe) [0..<unat n])"

definition round_trip ::
    "f32 list \<Rightarrow> size_t \<Rightarrow> size_t \<Rightarrow> size_t \<Rightarrow> size_t \<Rightarrow> size_t \<Rightarrow> PooledBuffer \<Rightarrow> PooledBuffer \<Rightarrow>
     ('g cest, f32 list) cmd" where
  "round_trip xs n ie oe hw bytes staging device =
     cbind (on_gpu (write_host (buf_ptr staging) xs)) (\<lambda>_.
     cbind next_stream (\<lambda>stream s.
     cbind (on_gpu (device_stages (ce s) n hw bytes (buf_ptr staging) (buf_ptr device) stream)) (\<lambda>_.
     cbind (on_gpu (read_host (buf_ptr staging) (length xs))) (\<lambda>normalized s.
       (shape_output n ie oe normalized, s))) s))"

definition cuda_run_inference :: "f32 list \<Rightarrow> size_t \<Rightarrow> size_t \<Rightarrow> size_t \<Rightarrow> ('g cest, f32 list) cmd" where
  "cuda_run_inference batched_input batch_size ie oe s =
     (if vsize batched_input \<noteq> batch_size * ie
      then cthrow (InferenceError ''batched input size does not match batch_size * input_elems'') s
      else if batch_size = 0 then cret [] s
      else if ie = 0
      then cthrow (InferenceError ''input_elems must be a non-zero multiple of the channel count'') s
      else if channels (ce s) = 0 then (Undef, s)
      else if ie mod channels (ce s) \<noteq> 0
      then cthrow (InferenceError ''input_elems must be a non-zero multiple of the channel count'') s
      else let hw = ie div channels (ce s); bytes = vsize batched_input * 4
           in cbind (on_pool (acquire_pinned bytes)) (\<lambda>staging.
                cfinally (cbind (on_pool (acquire_device bytes)) (\<lambda>device.
                    cfinally (round_trip batched_input batch_size ie oe hw bytes staging device)
                      (\<lambda>s. put_pst s (pooled_destroy device (pst_of s)))))
                  (\<lambda>s. put_pst s (pooled_destroy staging (pst_of s)))) s)"

definition cuda_engine :: "'g cest engine" where
  "cuda_engine s xs n ie oe = cuda_run_inference xs n ie oe s"

section \<open>The stages on the device\<close>

text \<open>The constants are in place and the blocks of the batch are apart from them.\<close>

definition stages_ready ::
    "gview \<Rightarrow> CudaExecutionEngine \<Rightarrow> nat \<Rightarrow> addr \<Rightarrow> addr \<Rightarrow> stream \<Rightarrow> bool" where
  "stages_ready v e elems h d s \<longleftrightarrow>
     h \<in> host_live v \<and> d \<in> dev_live v \<and> s \<in> stream_live v \<and> d \<noteq> nullptr \<and>
     dev_ptr (mean_buf e) \<in> dev_live v \<and> dev_ptr (stddev_buf e) \<in> dev_live v \<and>
     dev_ptr (mean_buf e) \<noteq> nullptr \<and> dev_ptr (stddev_buf e) \<noteq> nullptr \<and>
     d \<noteq> dev_ptr (mean_buf e) \<and> d \<noteq> dev_ptr (stddev_buf e) \<and>
     dev_data v (dev_ptr (mean_buf e)) = opt_mean (options e) \<and>
     dev_data v (dev_ptr (stddev_buf e)) = opt_stddev (options e) \<and>
     length (opt_stddev (options e)) = length (opt_mean (options e)) \<and>
     inflight v = (\<lambda>_. {}) \<and> elems \<le> length (dev_data v d) \<and> elems \<le> length (host_data v h)"

lemma device_stages_ok:
  assumes laws: "cuda_laws (api g)" "copies_succeed (api g)"
    and ready: "stages_ready (gview_of g) e elems h d s"
    and bytes: "floats bytes = elems"
    and dims: "sint (ucast n :: i32) = int n'" "sint (ucast (channels e) :: i32) = int c"
      "sint (ucast hw :: i32) = int hw'" "0 < n'" "0 < c" "0 < hw'" "c = length (opt_mean (options e))"
    and elems: "elems = n' * c * hw'" "elems + kBlockSize * kMaxBlocks \<le> 2 ^ 63"
    and xs: "take elems (host_data (gview_of g) h) = xs" "length xs = elems"
  obtains g' where "device_stages e n hw bytes h d s g = (Ret (), g')" "api g' = api g"
    "same_blocks (gview_of g) (gview_of g')" "\<forall>p. p \<noteq> d \<longrightarrow> dev_data (gview_of g') p = dev_data (gview_of g) p"
    "take elems (host_data (gview_of g') h) =
       normalize_ref elems c hw' xs (opt_mean (options e)) (opt_stddev (options e))"
proof -
  let ?v = "gview_of g" and ?m = "dev_ptr (mean_buf e)" and ?t = "dev_ptr (stddev_buf e)"
  let ?M = "opt_mean (options e)" and ?T = "opt_stddev (options e)"
  let ?D = "dev_data ?v d" and ?H = "host_data ?v h"
  note rd = ready [unfolded stages_ready_def]
  obtain g1 where g1: "checked (cudaMemcpyAsyncH2D (api g) d h bytes s) ''cudaMemcpyAsync (H2D)'' g = (Ret (), g1)"
    "api g1 = api g" and v1: "gview_of g1 = ?v\<lparr>dev_data := (dev_data ?v)(d := xs @ drop elems ?D),
      inflight := (inflight ?v)(s := {d, h})\<rparr>"
    by (rule h2d_ok [OF laws, of d h s bytes]) (use rd xs bytes in \<open>auto simp: exclusive_def overwrite_0\<close>)
  obtain r g2 where L: "launch_normalize d (ucast n) (ucast (channels e)) (ucast hw) ?m ?t s g1 = (r, g2)"
    by fastforce
  have "launchable (gview_of g1) elems c d ?m ?t s"
    using rd dims(7) xs(2) by (auto simp: launchable_def v1 exclusive_def)
  from launch_normalize_runs [OF _ dims(1-6) elems this L] laws g1(2)
  have g2: "r = Ret ()" "api g2 = api g" and v2: "gview_of g2 = (gview_of g1)\<lparr>
        dev_data := (dev_data (gview_of g1))(d := normalize_ref elems c hw'
          (dev_data (gview_of g1) d) (dev_data (gview_of g1) ?m) (dev_data (gview_of g1) ?t)),
        inflight := (inflight (gview_of g1))(s := {d, ?m, ?t} \<union> inflight (gview_of g1) s)\<rparr>"
    by auto
  let ?N = "normalize_ref elems c hw' xs ?M ?T"
  have lN: "length ?N = elems" using xs(2) by (simp add: length_normalize_ref)
  have v2': "gview_of g2 = ?v\<lparr>dev_data := (dev_data ?v)(d := ?N @ drop elems ?D),
      inflight := (inflight ?v)(s := {d, ?m, ?t, h})\<rparr>"
    using rd xs(2) unfolding v2 v1 by (auto simp: normalize_ref_prefix insert_commute)
  obtain g3 where g3: "checked (cudaMemcpyAsyncD2H (api g2) h d bytes s) ''cudaMemcpyAsync (D2H)'' g2 = (Ret (), g3)"
    "api g3 = api g2" and v3: "gview_of g3 = (gview_of g2)\<lparr>host_data := (host_data ?v)(h := ?N @ drop elems ?H),
      inflight := (inflight ?v)(s := {d, ?m, ?t, h})\<rparr>"
    by (rule d2h_ok [of g2 d h s bytes]) (use laws g2(2) rd bytes lN in \<open>auto simp: v2' exclusive_def overwrite_0 insert_commute\<close>)
  obtain g4 where g4: "checked (cudaStreamSynchronize (api g3) s) ''cudaStreamSynchronize'' g3 = (Ret (), g4)"
    "api g4 = api g3" "gview_of g4 = (gview_of g3)\<lparr>inflight := (inflight (gview_of g3))(s := {})\<rparr>"
    using sync_ok [of g3 s] laws g3(2) g2(2) by metis
  have v4: "gview_of g4 = ?v\<lparr>dev_data := (dev_data ?v)(d := ?N @ drop elems ?D),
      host_data := (host_data ?v)(h := ?N @ drop elems ?H), inflight := (\<lambda>_. {})\<rparr>"
  proof -
    have "(\<lambda>_. {})(s := {}) = (\<lambda>_. {} :: addr set)" by auto
    then show ?thesis using rd by (simp add: g4(3) v3 v2')
  qed
  show thesis
  proof (rule that [of g4])
    show "device_stages e n hw bytes h d s g = (Ret (), g4)"
      using g1(1) L g2(1) g3(1) g4(1) by (simp add: device_stages_def cbind_def)
    show "same_blocks ?v (gview_of g4)" using rd lN by (auto simp: v4 same_blocks_def)
  qed (use g2(2) g3(2) g4(2) lN in \<open>simp_all add: v4\<close>)
qed

section \<open>The engine's invariant\<close>

text \<open>
  The constants are on the device, apart from the pool's blocks (\<open>Ld\<close> is what the device holds besides
  those), the streams exist and nothing is queued.
\<close>

definition constants_ready :: "addr set \<Rightarrow> CudaExecutionEngine \<Rightarrow> gview \<Rightarrow> bool" where
  "constants_ready Ld e v \<longleftrightarrow>
     dev_ptr (mean_buf e) \<in> Ld \<and> dev_ptr (stddev_buf e) \<in> Ld \<and>
     dev_ptr (mean_buf e) \<noteq> nullptr \<and> dev_ptr (stddev_buf e) \<noteq> nullptr \<and>
     dev_data v (dev_ptr (mean_buf e)) = opt_mean (options e) \<and>
     dev_data v (dev_ptr (stddev_buf e)) = opt_stddev (options e) \<and>
     length (opt_stddev (options e)) = length (opt_mean (options e)) \<and>
     opt_mean (options e) \<noteq> [] \<and> length (opt_mean (options e)) < 2 ^ 31 \<and>
     streams (stream_pool e) \<noteq> [] \<and> set (streams (stream_pool e)) \<subseteq> stream_live v \<and>
     inflight v = (\<lambda>_. {})"

definition cuda_inv_at :: "addr set \<Rightarrow> addr set \<Rightarrow> 'g cest \<Rightarrow> bool" where
  "cuda_inv_at Ld Lh s \<longleftrightarrow> copies_succeed (api (cgpu s)) \<and> pool_inv Ld Lh [] (pst_of s) \<and>
     constants_ready Ld (ce s) (gview_of (cgpu s))"

definition cuda_inv :: "'g cest \<Rightarrow> bool" where
  "cuda_inv s \<longleftrightarrow> (\<exists>Ld Lh. cuda_inv_at Ld Lh s)"

text \<open>The members that do not change, and the streams that exist.\<close>

definition same_engine :: "'g cest \<Rightarrow> 'g cest \<Rightarrow> bool" where
  "same_engine s s' \<longleftrightarrow> options (ce s') = options (ce s) \<and> mean_buf (ce s') = mean_buf (ce s) \<and>
     stddev_buf (ce s') = stddev_buf (ce s) \<and> streams (stream_pool (ce s')) = streams (stream_pool (ce s)) \<and>
     api (cgpu s') = api (cgpu s) \<and> stream_live (gview_of (cgpu s')) = stream_live (gview_of (cgpu s))"

text \<open>The batches it serves: rows of whole channels, within \<open>int\<close> dimensions.\<close>

definition cuda_serves :: "'g cest \<Rightarrow> size_t \<Rightarrow> size_t \<Rightarrow> size_t \<Rightarrow> bool" where
  "cuda_serves s n ie oe \<longleftrightarrow> geometry_ok n ie oe \<and> ie \<noteq> 0 \<and> ie mod channels (ce s) = 0 \<and>
     unat n < 2 ^ 31 \<and> unat (ie div channels (ce s)) < 2 ^ 31"

definition cuda_row :: "'g cest \<Rightarrow> size_t \<Rightarrow> size_t \<Rightarrow> f32 list \<Rightarrow> f32 list" where
  "cuda_row s ie oe r =
     fit_row ie oe (norm_row (unat (ie div channels (ce s))) (opt_mean (options (ce s))) (opt_stddev (options (ce s))) r)"

lemma constants_ready_upd [simp]:
  "constants_ready Ld (e\<lparr>pool := m\<rparr>) v = constants_ready Ld e v"
  "streams p = streams (stream_pool e) \<Longrightarrow> constants_ready Ld (e\<lparr>stream_pool := p\<rparr>) v = constants_ready Ld e v"
  by (simp_all add: constants_ready_def)

lemma constants_ready_grows:
  "constants_ready Ld e v \<Longrightarrow> Ld \<subseteq> dev_live v \<Longrightarrow> grows v v' \<Longrightarrow> constants_ready Ld e v'"
  by (auto simp: constants_ready_def grows_def)

lemma constants_ready_same:
  "constants_ready Ld e v \<Longrightarrow> same_blocks v v' \<Longrightarrow> (\<And>p. p \<in> Ld \<Longrightarrow> dev_data v' p = dev_data v p) \<Longrightarrow>
   constants_ready Ld e v'"
  by (simp add: constants_ready_def same_blocks_def)

lemma pst_simps [simp]:
  "mp (pst_of s) = pool (ce s)" "dev (pst_of s) = cgpu s" "pst_of (put_pst s p) = p"
  "cgpu (put_pst s p) = dev p" "ce (put_pst s p) = (ce s)\<lparr>pool := mp p\<rparr>"
  by (simp_all add: pst_of_def put_pst_def)

lemma same_engine_put:
  assumes "same_engine s s1" "api (dev p) = api (dev (pst_of s1))"
    and "grows (gview_of (dev (pst_of s1))) (gview_of (dev p))"
  shows "same_engine s (put_pst s1 p)"
  using assms by (simp add: same_engine_def grows_def)

lemma same_engine_refl [simp]: "same_engine s s"
  by (simp add: same_engine_def)

lemma same_engineD:
  assumes "same_engine s s'"
  shows "channels (ce s') = channels (ce s)" "cuda_serves s' = cuda_serves s" "cuda_row s' = cuda_row s"
    "copies_succeed (api (cgpu s')) = copies_succeed (api (cgpu s))"
  using assms by (simp_all add: same_engine_def channels_def cuda_serves_def cuda_row_def fun_eq_iff)

lemma same_engine_trans: "same_engine s s' \<Longrightarrow> same_engine s' s'' \<Longrightarrow> same_engine s s''"
  by (simp add: same_engine_def)

lemma pool_inv_live: "pool_inv Ld Lh os s \<Longrightarrow> Ld \<subseteq> dev_live (gview_of (dev s))"
  by (auto simp: pool_inv_def backed_def)

lemma pool_inv_block:
  assumes "pool_inv Ld Lh os s"
  shows "(False, c, p) \<in> set os \<Longrightarrow> p \<in> dev_live (gview_of (dev s)) \<and> p \<noteq> nullptr \<and> p \<notin> Ld \<and>
      length (dev_data (gview_of (dev s)) p) = floats c"
    and "(True, c, p) \<in> set os \<Longrightarrow> p \<in> host_live (gview_of (dev s)) \<and> p \<noteq> nullptr \<and>
      length (host_data (gview_of (dev s)) p) = floats c"
  using assms by (auto simp: pool_inv_def backed_def)

lemma pool_inv_same:
  assumes "pool_inv Ld Lh os p" and "same_blocks (gview_of (dev p)) (gview_of (dev p'))"
    and "api (dev p') = api (dev p)" "mp p' = mp p"
  shows "pool_inv Ld Lh os p'"
  using assms by (simp add: pool_inv_def backed_def same_blocks_def)

lemma bucket_for_holds: "bucket_for n = Ret cap \<Longrightarrow> unat n \<le> unat cap"
proof -
  assume n: "bucket_for n = Ret cap"
  then have "unat n \<le> 2 ^ 63" using bucket_for_hangs [of n] by fastforce
  then show "unat n \<le> unat cap" using n bucket_for_power [of n] unat_power_2 by (metis res.inject(1))
qed

text \<open>The shape of a served batch, in natural numbers.\<close>

lemma serves_shape:
  assumes "cuda_serves s n ie oe" and "constants_ready Ld (ce s) v" and "n \<noteq> 0"
  defines "c \<equiv> length (opt_mean (options (ce s)))" and "hw \<equiv> unat (ie div channels (ce s))"
  shows "unat (channels (ce s)) = c" "unat ie = c * hw" "0 < c" "0 < hw" "0 < unat n"
    "sint (ucast n :: i32) = int (unat n)" "sint (ucast (channels (ce s)) :: i32) = int c"
    "sint (ucast (ie div channels (ce s)) :: i32) = int hw"
    "unat n * unat ie + kBlockSize * kMaxBlocks \<le> 2 ^ 63"
proof -
  have c: "c < 2 ^ 31" "0 < c" using assms(2) by (simp_all add: constants_ready_def c_def)
  show ch: "unat (channels (ce s)) = c" unfolding channels_def c_def
    by (rule unat_vsize) (use c in \<open>simp add: c_def\<close>)
  show "0 < c" by (rule c(2))
  have "unat (ie mod channels (ce s)) = 0" using assms(1) by (simp add: cuda_serves_def)
  then have m: "unat ie mod c = 0" "unat ie div c = hw"
    by (simp_all only: unat_mod unat_div ch hw_def)
  then show ie: "unat ie = c * hw" using mult_div_mod_eq [of c "unat ie"] by simp
  have "unat ie \<noteq> 0" using assms(1) by (simp add: cuda_serves_def unat_eq_zero)
  then show "0 < hw" using ie by (cases hw) simp_all
  show "0 < unat n" using assms(3) by (simp add: unat_gt_0)
  show "sint (ucast n :: i32) = int (unat n)" using assms(1) by (intro sint_int_cast) (simp add: cuda_serves_def)
  show "sint (ucast (channels (ce s)) :: i32) = int c" using sint_int_cast [of "channels (ce s)"] ch c(1) by simp
  show "sint (ucast (ie div channels (ce s)) :: i32) = int hw"
    using assms(1) sint_int_cast [of "ie div channels (ce s)"] by (simp add: cuda_serves_def hw_def)
  show "unat n * unat ie + kBlockSize * kMaxBlocks \<le> 2 ^ 63"
    using assms(1) by (simp add: cuda_serves_def geometry_ok_def vec_max_size_def kBlockSize_def kMaxBlocks_def)
qed

section \<open>One batch\<close>

lemma shape_output_rows:
  assumes "length xs = unat n * unat ie" and g: "geometry_ok n ie oe"
  shows "shape_output n ie oe xs = Ret (concat (map (fit_row ie oe) (rows (unat ie) (unat n) xs)))"
proof -
  have "vec_filled (n * oe) fzero = Ret (replicate (unat n * unat oe) fzero)"
    using geometry_ok_products(2,3) [OF g] by (simp add: vec_filled_def)
  then show ?thesis using copy_rows_eq [OF assms] by (simp add: shape_output_def)
qed

lemma next_stream_ok:
  assumes "constants_ready Ld (ce s) v"
  obtains x p where "next_stream s = (Ret x, s\<lparr>ce := (ce s)\<lparr>stream_pool := p\<rparr>\<rparr>)" "x \<in> stream_live v"
    "streams p = streams (stream_pool (ce s))"
proof -
  let ?p = "stream_pool (ce s)"
  have ne: "streams ?p \<noteq> []" "set (streams ?p) \<subseteq> stream_live v" using assms by (simp_all add: constants_ready_def)
  then have "streams ?p ! (unat (cursor ?p) mod length (streams ?p)) \<in> stream_live v"
    using nth_mem [of "unat (cursor ?p) mod length (streams ?p)" "streams ?p"] by auto
  with that show thesis using ne(1) by (simp add: next_stream_def stream_next_def)
qed

lemma normalized_output:
  assumes sv: "cuda_serves s n ie oe" "n \<noteq> 0" and ready: "constants_ready Ld (ce s) v"
    and len: "length xs = unat n * unat ie"
  shows "shape_output n ie oe (normalize_ref (length xs) (length (opt_mean (options (ce s))))
      (unat (ie div channels (ce s))) xs (opt_mean (options (ce s))) (opt_stddev (options (ce s)))) =
    Ret (concat (map (cuda_row s ie oe) (rows (unat ie) (unat n) xs)))"
proof -
  note shape = serves_shape [OF sv(1) ready sv(2)]
  let ?M = "opt_mean (options (ce s))" and ?T = "opt_stddev (options (ce s))"
  let ?N = "normalize_ref (length xs) (length ?M) (unat (ie div channels (ce s))) xs ?M ?T"
  have l: "length xs = unat n * (length ?M * unat (ie div channels (ce s)))" using len shape(2) by simp
  note nr = normalized_rows(2) [OF l shape(4) refl, of ?T, folded l shape(2)]
  have "length ?N = unat n * unat ie" using len by (simp add: length_normalize_ref)
  moreover have "cuda_row s ie oe = fit_row ie oe \<circ> norm_row (unat (ie div channels (ce s))) ?M ?T"
    by (rule ext) (simp add: cuda_row_def)
  ultimately show ?thesis
    using shape_output_rows [of ?N n ie oe] sv(1) nr by (simp add: cuda_serves_def)
qed

text \<open>The two blocks of a batch hold it.\<close>

lemma batch_blocks:
  assumes inv: "pool_inv Ld Lh (block_of device @ block_of staging) p"
    and aq: "acquired (vsize xs * 4) True staging" "acquired (vsize xs * 4) False device"
    and lx: "length xs \<le> vec_max_size"
  shows "buf_ptr staging \<in> host_live (gview_of (dev p))"
    "length xs \<le> length (host_data (gview_of (dev p)) (buf_ptr staging))"
    "buf_ptr device \<in> dev_live (gview_of (dev p))" "buf_ptr device \<noteq> nullptr" "buf_ptr device \<notin> Ld"
    "length xs \<le> length (dev_data (gview_of (dev p)) (buf_ptr device))"
proof -
  have bl: "(False, capacity device, buf_ptr device) \<in> set (block_of device @ block_of staging)"
    "(True, capacity staging, buf_ptr staging) \<in> set (block_of device @ block_of staging)"
    using aq by (simp_all add: acquired_def block_of_def)
  have "length xs \<le> floats (capacity staging)" "length xs \<le> floats (capacity device)"
    using aq input_bytes(1) [OF lx] bucket_for_holds [of "vsize xs * 4"]
    by (fastforce simp: acquired_def floats_def intro: order_trans [OF _ div_le_mono])+
  with pool_inv_block(2) [OF inv bl(2)] pool_inv_block(1) [OF inv bl(1)]
  show "buf_ptr staging \<in> host_live (gview_of (dev p))"
    "length xs \<le> length (host_data (gview_of (dev p)) (buf_ptr staging))"
    "buf_ptr device \<in> dev_live (gview_of (dev p))" "buf_ptr device \<noteq> nullptr" "buf_ptr device \<notin> Ld"
    "length xs \<le> length (dev_data (gview_of (dev p)) (buf_ptr device))"
    by simp_all
qed

lemma round_trip_stages:
  assumes inv: "pool_inv Ld Lh (block_of device @ block_of staging) (pst_of s)"
    and ready: "constants_ready Ld (ce s) (gview_of (cgpu s))" and cs: "copies_succeed (api (cgpu s))"
    and aq: "acquired (vsize xs * 4) True staging" "acquired (vsize xs * 4) False device"
    and sv: "cuda_serves s n ie oe" "n \<noteq> 0" and len: "length xs = unat n * unat ie"
  obtains g1 x p g2 where "write_host (buf_ptr staging) xs (cgpu s) = (Ret (), g1)"
    "next_stream (s\<lparr>cgpu := g1\<rparr>) = (Ret x, s\<lparr>cgpu := g1, ce := (ce s)\<lparr>stream_pool := p\<rparr>\<rparr>)"
    "device_stages ((ce s)\<lparr>stream_pool := p\<rparr>) n (ie div channels (ce s)) (vsize xs * 4) (buf_ptr staging) (buf_ptr device) x g1 = (Ret (), g2)"
    "read_host (buf_ptr staging) (length xs) g2 =
       (Ret (normalize_ref (length xs) (length (opt_mean (options (ce s)))) (unat (ie div channels (ce s))) xs
         (opt_mean (options (ce s))) (opt_stddev (options (ce s)))), g2)"
    "streams p = streams (stream_pool (ce s))" "api g2 = api (cgpu s)" "same_blocks (gview_of (cgpu s)) (gview_of g2)"
    "\<And>q. q \<noteq> buf_ptr device \<Longrightarrow> dev_data (gview_of g2) q = dev_data (gview_of (cgpu s)) q"
proof -
  let ?h = "buf_ptr staging" and ?d = "buf_ptr device" and ?hw = "ie div channels (ce s)"
  let ?M = "opt_mean (options (ce s))" and ?T = "opt_stddev (options (ce s))"
  note shape = serves_shape [OF sv(1) ready sv(2)]
  have laws: "cuda_laws (api (cgpu s))" using inv by (simp add: pool_inv_def)
  have lx: "length xs \<le> vec_max_size" using sv(1) len by (simp add: cuda_serves_def geometry_ok_def)
  note bb = batch_blocks [OF inv aq lx, simplified]
  have fl: "inflight (gview_of (cgpu s)) = (\<lambda>_. {})" using ready by (simp add: constants_ready_def)
  obtain g1 where g1: "write_host ?h xs (cgpu s) = (Ret (), g1)" "api g1 = api (cgpu s)"
    "same_blocks (gview_of (cgpu s)) (gview_of g1)" "dev_data (gview_of g1) = dev_data (gview_of (cgpu s))"
    "take (length xs) (host_data (gview_of g1) ?h) = xs"
    using write_host_ok [OF laws bb(1,2) fl] by metis
  have ready1: "constants_ready Ld (ce s) (gview_of g1)"
    using constants_ready_same [OF ready g1(3)] g1(4) by simp
  obtain x p where p: "next_stream (s\<lparr>cgpu := g1\<rparr>) = (Ret x, s\<lparr>cgpu := g1, ce := (ce s)\<lparr>stream_pool := p\<rparr>\<rparr>)"
    "x \<in> stream_live (gview_of g1)" "streams p = streams (stream_pool (ce s))"
    using next_stream_ok [of Ld "s\<lparr>cgpu := g1\<rparr>" "gview_of g1"] ready1 by auto
  let ?e = "(ce s)\<lparr>stream_pool := p\<rparr>"
  have "Ld \<subseteq> dev_live (gview_of (cgpu s))" using pool_inv_live [OF inv] by simp
  then have ready2: "stages_ready (gview_of g1) ?e (length xs) ?h ?d x"
    using ready1 p(2) bb g1(3) by (auto simp: stages_ready_def constants_ready_def same_blocks_def)
  have el: "length xs = unat n * length ?M * unat ?hw" using len shape(2) by (simp add: mult.assoc)
  have f: "cuda_laws (api g1)" "copies_succeed (api g1)" using laws cs g1(2) by simp_all
  have ch: "sint (ucast (channels ?e) :: i32) = int (length ?M)" using shape(7) by (simp add: channels_def)
  have op: "length ?M = length (opt_mean (options ?e))" by simp
  have le: "length xs + kBlockSize * kMaxBlocks \<le> 2 ^ 63" using shape(9) by (simp only: len)
  obtain g2 where g2: "device_stages ?e n ?hw (vsize xs * 4) ?h ?d x g1 = (Ret (), g2)"
    "api g2 = api g1" "same_blocks (gview_of g1) (gview_of g2)"
    "\<forall>q. q \<noteq> ?d \<longrightarrow> dev_data (gview_of g2) q = dev_data (gview_of g1) q"
    "take (length xs) (host_data (gview_of g2) ?h) =
       normalize_ref (length xs) (length ?M) (unat ?hw) xs (opt_mean (options ?e)) (opt_stddev (options ?e))"
    by (rule device_stages_ok [OF f ready2 input_bytes(1) [OF lx] shape(6) ch shape(8,5,3,4) op el le g1(5) refl]) (rule that)
  have sb: "same_blocks (gview_of (cgpu s)) (gview_of g2)" using g1(3) g2(3) by (rule same_blocks_trans)
  then have "read_host ?h (length xs) g2 = (Ret (take (length xs) (host_data (gview_of g2) ?h)), g2)"
    using laws g1(2) g2(2) bb fl by (intro read_host_ok) (simp_all add: same_blocks_def)
  then have rh: "read_host ?h (length xs) g2 = (Ret (normalize_ref (length xs) (length ?M) (unat ?hw) xs ?M ?T), g2)"
    unfolding g2(5) by simp
  show thesis by (rule that [OF g1(1) p(1) g2(1) rh p(3) _ sb]) (use g1(2,4) g2(2,4) in simp_all)
qed

lemma round_trip_ok:
  assumes inv: "pool_inv Ld Lh (block_of device @ block_of staging) (pst_of s)"
    and ready: "constants_ready Ld (ce s) (gview_of (cgpu s))" and cs: "copies_succeed (api (cgpu s))"
    and aq: "acquired (vsize xs * 4) True staging" "acquired (vsize xs * 4) False device"
    and sv: "cuda_serves s n ie oe" "n \<noteq> 0" and len: "length xs = unat n * unat ie"
  obtains s' where
    "round_trip xs n ie oe (ie div channels (ce s)) (vsize xs * 4) staging device s =
       (Ret (concat (map (cuda_row s ie oe) (rows (unat ie) (unat n) xs))), s')"
    "pool_inv Ld Lh (block_of device @ block_of staging) (pst_of s')"
    "constants_ready Ld (ce s') (gview_of (cgpu s'))" "same_engine s s'" "pool (ce s') = pool (ce s)"
    "lives (gview_of (cgpu s')) = lives (gview_of (cgpu s))"
proof -
  let ?h = "buf_ptr staging" and ?d = "buf_ptr device" and ?hw = "ie div channels (ce s)"
  obtain g1 x p g2 where g1: "write_host ?h xs (cgpu s) = (Ret (), g1)"
    and p: "next_stream (s\<lparr>cgpu := g1\<rparr>) = (Ret x, s\<lparr>cgpu := g1, ce := (ce s)\<lparr>stream_pool := p\<rparr>\<rparr>)"
    and g2: "device_stages ((ce s)\<lparr>stream_pool := p\<rparr>) n ?hw (vsize xs * 4) ?h ?d x g1 = (Ret (), g2)"
    and rh: "read_host ?h (length xs) g2 =
      (Ret (normalize_ref (length xs) (length (opt_mean (options (ce s)))) (unat ?hw) xs
        (opt_mean (options (ce s))) (opt_stddev (options (ce s)))), g2)"
    and sp: "streams p = streams (stream_pool (ce s))" "api g2 = api (cgpu s)"
    and sb: "same_blocks (gview_of (cgpu s)) (gview_of g2)"
    and keep: "\<And>q. q \<noteq> ?d \<Longrightarrow> dev_data (gview_of g2) q = dev_data (gview_of (cgpu s)) q"
    by (rule round_trip_stages [OF inv ready cs aq sv len]) (rule that)
  have lx: "length xs \<le> vec_max_size" using sv(1) len by (simp add: cuda_serves_def geometry_ok_def)
  note bb = batch_blocks [OF inv aq lx, simplified]
  define s' where "s' = s\<lparr>ce := (ce s)\<lparr>stream_pool := p\<rparr>, cgpu := g2\<rparr>"
  show thesis
  proof (rule that [of s'])
    show "round_trip xs n ie oe ?hw (vsize xs * 4) staging device s =
       (Ret (concat (map (cuda_row s ie oe) (rows (unat ie) (unat n) xs))), s')"
      using g1 p g2 rh normalized_output [OF sv ready len]
      by (simp add: round_trip_def cbind_def on_gpu_def s'_def)
    show "pool_inv Ld Lh (block_of device @ block_of staging) (pst_of s')"
      by (rule pool_inv_same [OF inv]) (use sb sp(2) in \<open>simp_all add: s'_def\<close>)
    have "dev_data (gview_of g2) q = dev_data (gview_of (cgpu s)) q" if "q \<in> Ld" for q
      using that bb(5) keep by metis
    from constants_ready_same [OF ready sb this] show "constants_ready Ld (ce s') (gview_of (cgpu s'))"
      using sp(1) by (simp add: s'_def)
    show "same_engine s s'"
      using sb sp by (simp add: s'_def same_engine_def same_blocks_def)
  qed (use sb in \<open>simp_all add: s'_def same_blocks_def lives_def\<close>)
qed

lemma ready_put:
  assumes "constants_ready Ld (ce s) (gview_of (cgpu s))" "pool_inv Ld Lh os (pst_of s)"
    and "grows (gview_of (dev (pst_of s))) (gview_of (dev p))"
  shows "constants_ready Ld (ce (put_pst s p)) (gview_of (cgpu (put_pst s p)))"
  using assms pool_inv_live [OF assms(2)] constants_ready_grows by simp

text \<open>The two nested scopes of \<open>run_inference\<close>: the one of the device buffer, and that of the staging buffer.\<close>

lemma device_scope:
  assumes inv: "pool_inv Ld Lh (block_of staging) (pst_of s)" and aq: "acquired (vsize xs * 4) True staging"
    and ready: "constants_ready Ld (ce s) (gview_of (cgpu s))" and cs: "copies_succeed (api (cgpu s))"
    and sv: "cuda_serves s n ie oe" "n \<noteq> 0" and len: "length xs = unat n * unat ie"
    and nh: "bucket_for (vsize xs * 4) \<noteq> Hang"
    and run: "cbind (on_pool (acquire_device (vsize xs * 4))) (\<lambda>device.
            cfinally (round_trip xs n ie oe (ie div channels (ce s)) (vsize xs * 4) staging device)
              (\<lambda>s. put_pst s (pooled_destroy device (pst_of s)))) s = (r, s')"
  shows "(r = Ret (concat (map (cuda_row s ie oe) (rows (unat ie) (unat n) xs))) \<or> (\<exists>m. r = Throw (CudaError m))) \<and>
    pool_inv Ld Lh (block_of staging) (pst_of s') \<and> constants_ready Ld (ce s') (gview_of (cgpu s')) \<and>
    same_engine s s'"
proof -
  obtain r1 p where a: "acquire_device (vsize xs * 4) (pst_of s) = (r1, p)" by fastforce
  define s1 where "s1 = put_pst s p"
  from inv a show ?thesis
  proof (cases rule: acquire_device_cases)
    case hang
    with nh show ?thesis by simp
  next
    case (throw m)
    with a run have "r = Throw (CudaError m)" "s' = s1" by (simp_all add: cbind_def on_pool_def s1_def)
    with throw ready_put [OF ready inv throw(4)] same_engine_put [OF same_engine_refl throw(3,4)] show ?thesis
      by (simp add: s1_def)
  next
    case (ret device)
    have ready1: "constants_ready Ld (ce s1) (gview_of (cgpu s1))"
      unfolding s1_def by (rule ready_put [OF ready inv ret(5)])
    have se: "same_engine s s1" unfolding s1_def by (rule same_engine_put [OF same_engine_refl ret(4,5)])
    note e1 = same_engineD [OF se]
    have sv1: "cuda_serves s1 n ie oe" and cs1: "copies_succeed (api (cgpu s1))" using sv(1) cs by (simp_all add: e1)
    have inv1: "pool_inv Ld Lh (block_of device @ block_of staging) (pst_of s1)" using ret(3) by (simp add: s1_def)
    obtain s2 where s2: "round_trip xs n ie oe (ie div channels (ce s)) (vsize xs * 4) staging device s1 =
        (Ret (concat (map (cuda_row s ie oe) (rows (unat ie) (unat n) xs))), s2)"
      "pool_inv Ld Lh (block_of device @ block_of staging) (pst_of s2)"
      "constants_ready Ld (ce s2) (gview_of (cgpu s2))" "same_engine s1 s2"
      using round_trip_ok [OF inv1 ready1 cs1 aq ret(2) sv1 sv(2) len, unfolded e1(1,3)] by metis
    note p2 = pooled_destroy_inv [OF s2(2)]
    have "r = Ret (concat (map (cuda_row s ie oe) (rows (unat ie) (unat n) xs)))"
      "s' = put_pst s2 (pooled_destroy device (pst_of s2))"
      using run a ret(1) s2(1) by (simp_all add: cbind_def on_pool_def cfinally_def s1_def)
    moreover have "same_engine s (put_pst s2 (pooled_destroy device (pst_of s2)))"
      using same_engine_put [OF same_engine_trans [OF se s2(4)]] p2(2) by simp
    ultimately show ?thesis using p2 s2 by simp
  qed
qed

lemma staging_scope:
  assumes inv: "pool_inv Ld Lh [] (pst_of s)" and ready: "constants_ready Ld (ce s) (gview_of (cgpu s))"
    and cs: "copies_succeed (api (cgpu s))" and sv: "cuda_serves s n ie oe" "n \<noteq> 0"
    and len: "length xs = unat n * unat ie"
    and run: "cbind (on_pool (acquire_pinned (vsize xs * 4))) (\<lambda>staging.
        cfinally (cbind (on_pool (acquire_device (vsize xs * 4))) (\<lambda>device.
            cfinally (round_trip xs n ie oe (ie div channels (ce s)) (vsize xs * 4) staging device)
              (\<lambda>s. put_pst s (pooled_destroy device (pst_of s)))))
          (\<lambda>s. put_pst s (pooled_destroy staging (pst_of s)))) s = (r, s')"
  shows "(r = Ret (concat (map (cuda_row s ie oe) (rows (unat ie) (unat n) xs))) \<or> (\<exists>m. r = Throw (CudaError m))) \<and>
    cuda_inv_at Ld Lh s' \<and> same_engine s s'"
proof -
  have lx: "length xs \<le> vec_max_size" using sv(1) len by (simp add: cuda_serves_def geometry_ok_def)
  obtain k where k: "bucket_for (vsize xs * 4) = Ret (2 ^ k)" using bucket_for_power [OF input_bytes(2) [OF lx]] by blast
  then have nh: "bucket_for (vsize xs * 4) \<noteq> Hang" by simp
  obtain r1 p where a: "acquire_pinned (vsize xs * 4) (pst_of s) = (r1, p)" by fastforce
  define s1 where "s1 = put_pst s p"
  from inv a show ?thesis
  proof (cases rule: acquire_pinned_cases)
    case hang
    with nh show ?thesis by simp
  next
    case (throw m)
    with a run have "r = Throw (CudaError m)" "s' = s1" by (simp_all add: cbind_def on_pool_def s1_def)
    with throw ready_put [OF ready inv throw(4)] cs same_engine_put [OF same_engine_refl throw(3,4)] show ?thesis
      by (simp add: cuda_inv_at_def s1_def)
  next
    case (ret staging)
    have ready1: "constants_ready Ld (ce s1) (gview_of (cgpu s1))"
      unfolding s1_def by (rule ready_put [OF ready inv ret(5)])
    have se: "same_engine s s1" unfolding s1_def by (rule same_engine_put [OF same_engine_refl ret(4,5)])
    note e1 = same_engineD [OF se]
    have sv1: "cuda_serves s1 n ie oe" and cs1: "copies_succeed (api (cgpu s1))" using sv(1) cs by (simp_all add: e1)
    have inv1: "pool_inv Ld Lh (block_of staging) (pst_of s1)" using ret(3) by (simp add: s1_def)
    let ?m = "cbind (on_pool (acquire_device (vsize xs * 4))) (\<lambda>device.
            cfinally (round_trip xs n ie oe (ie div channels (ce s)) (vsize xs * 4) staging device)
              (\<lambda>s. put_pst s (pooled_destroy device (pst_of s))))"
    obtain r2 s2 where m: "?m s1 = (r2, s2)" by fastforce
    note ds = device_scope [OF inv1 ret(2) ready1 cs1 sv1 sv(2) len nh, unfolded e1(1,3), OF m]
    then have "defined_res r2" by auto
    then have "r = r2" "s' = put_pst s2 (pooled_destroy staging (pst_of s2))"
      using run a ret(1) m by (simp_all add: cbind_Ret [of "on_pool (acquire_pinned (vsize xs * 4))" s staging s1]
          on_pool_def s1_def cfinally_def)
    moreover note p2 = pooled_destroy_inv [of Ld Lh staging "[]" "pst_of s2"]
    moreover have "same_engine s (put_pst s2 (pooled_destroy staging (pst_of s2)))"
      using same_engine_put [OF same_engine_trans [OF se, of s2]] ds p2 by simp
    ultimately show ?thesis using ds cs same_engineD(4) [of s s2] same_engine_trans [OF se, of s2]
      by (simp add: cuda_inv_at_def)
  qed
qed

text \<open>The checks passed, \<open>run_inference\<close> is the scope of the staging buffer.\<close>

lemma run_inference_scopes:
  assumes inv: "cuda_inv_at Ld Lh s" and sv: "cuda_serves s n ie oe" "n \<noteq> 0" and len: "length xs = unat n * unat ie"
  shows "cuda_run_inference xs n ie oe s =
    cbind (on_pool (acquire_pinned (vsize xs * 4))) (\<lambda>staging.
        cfinally (cbind (on_pool (acquire_device (vsize xs * 4))) (\<lambda>device.
            cfinally (round_trip xs n ie oe (ie div channels (ce s)) (vsize xs * 4) staging device)
              (\<lambda>s. put_pst s (pooled_destroy device (pst_of s)))))
          (\<lambda>s. put_pst s (pooled_destroy staging (pst_of s)))) s"
proof -
  have g: "geometry_ok n ie oe" using sv by (simp add: cuda_serves_def)
  have "length xs < 2 ^ 64" using g len by (simp add: geometry_ok_def vec_max_size_def)
  then have "vsize xs = n * ie" using len geometry_ok_products(1) [OF g] by (simp add: vsize_eq_iff)
  moreover have "constants_ready Ld (ce s) (gview_of (cgpu s))" using inv by (simp add: cuda_inv_at_def)
  then have "channels (ce s) \<noteq> 0" using serves_shape(1,3) [OF sv(1) _ sv(2)] by fastforce
  ultimately show ?thesis using sv by (simp add: cuda_run_inference_def cuda_serves_def Let_def)
qed

lemma cuda_run_cases:
  assumes inv: "cuda_inv_at Ld Lh s" and sv: "cuda_serves s n ie oe" and len: "length xs = unat n * unat ie"
    and run: "cuda_run_inference xs n ie oe s = (r, s')"
  shows "(r = Ret (concat (map (cuda_row s ie oe) (rows (unat ie) (unat n) xs))) \<or> (\<exists>m. r = Throw (CudaError m))) \<and>
    cuda_inv_at Ld Lh s' \<and> same_engine s s'"
proof (cases "n = 0")
  case True
  with run inv len show ?thesis by (simp add: cuda_run_inference_def cret_def rows_def vsize_def)
next
  case False
  have "pool_inv Ld Lh [] (pst_of s)" "constants_ready Ld (ce s) (gview_of (cgpu s))" "copies_succeed (api (cgpu s))"
    using inv by (simp_all add: cuda_inv_at_def)
  from staging_scope [OF this sv False len] run show ?thesis
    by (simp add: run_inference_scopes [OF inv sv False len])
qed

interpretation gpu_engine: row_engine "cuda_engine :: 'g cest engine" cuda_inv cuda_serves cuda_row "range CudaError"
proof unfold_locales
  fix e :: "'g cest" and n ie oe :: size_t and xs :: "f32 list"
  assume a: "cuda_inv e" "cuda_serves e n ie oe" "length xs = unat n * unat ie"
  obtain r e' where r: "cuda_run_inference xs n ie oe e = (r, e')" by fastforce
  obtain Ld Lh where "cuda_inv_at Ld Lh e" using a(1) by (auto simp: cuda_inv_def)
  note c = cuda_run_cases [OF this a(2,3) r]
  then have o: "same_engine e e'" by blast
  show "cuda_inv (snd (cuda_engine e xs n ie oe))" using c r by (auto simp: cuda_engine_def cuda_inv_def)
  show "cuda_serves (snd (cuda_engine e xs n ie oe)) = cuda_serves e"
    using r same_engineD(2) [OF o] by (simp add: cuda_engine_def)
  show "cuda_row (snd (cuda_engine e xs n ie oe)) = cuda_row e"
    using r same_engineD(3) [OF o] by (simp add: cuda_engine_def)
  show "defined_res (fst (cuda_engine e xs n ie oe))" using c r by (auto simp: cuda_engine_def)
  show "ex \<in> range CudaError" if "fst (cuda_engine e xs n ie oe) = Throw ex" for ex
    using c r that by (auto simp: cuda_engine_def)
  show "ys = concat (map (cuda_row e ie oe) (rows (unat ie) (unat n) xs))"
    if "fst (cuda_engine e xs n ie oe) = Ret ys" for ys
    using c r that by (auto simp: cuda_engine_def)
next
  fix e :: "'g cest" and ie oe r
  show "length (cuda_row e ie oe r) = unat oe" if "length r = unat ie"
    using that by (simp add: cuda_row_def length_fit_row)
qed

end
