(* ===== verification/Onnx_Runtime.thy ===== *)
theory Onnx_Runtime
  imports Device_Work
begin

text \<open>
  The ONNX Runtime library as \<open>OnnxExecutionEngine\<close> calls it. The library is not part of the repository,
  so its functions are a parameter: a record of calls on the driver state the CUDA runtime works on,
  together with what the loaded network computes for one image. The documented behaviour the engine
  relies on is the predicate \<open>ort_laws\<close>: failures are reported as \<open>Ort::Exception\<close>, no call frees or moves
  blocks of the process, and a run of a batch applies the network to each image.
\<close>

section \<open>Calls\<close>

datatype OrtCudnnConvAlgoSearch = ConvAlgoExhaustive | ConvAlgoHeuristic | ConvAlgoDefault

record OrtCUDAProviderOptions =
  provider_device :: i32
  cudnn_conv_algo_search :: OrtCudnnConvAlgoSearch

text \<open>The outputs of a run: the floats of each one that is a tensor.\<close>

type_synonym ort_outputs = "f32 list option list"

text \<open>
  One field per call. A constructor of the library's C++ interface that only prepares the next call counts
  with it: the session options with the environment, the default allocator with the first name, and the
  binding object with the first tensor bound to it.
\<close>

record 'g ort_api =
  CreateEnv :: "'g \<Rightarrow> unit res \<times> 'g"
  AppendExecutionProvider_CUDA :: "OrtCUDAProviderOptions \<Rightarrow> 'g \<Rightarrow> unit res \<times> 'g"
  SetGraphOptimizationLevel :: "'g \<Rightarrow> unit res \<times> 'g"
  CreateSession :: "string \<Rightarrow> 'g \<Rightarrow> unit res \<times> 'g"
  CreateCpu :: "'g \<Rightarrow> unit res \<times> 'g"
  GetAvailableProviders :: "'g \<Rightarrow> string list res \<times> 'g"
  GetInputName :: "'g \<Rightarrow> string res \<times> 'g"
  GetOutputName :: "'g \<Rightarrow> string res \<times> 'g"
  CudaMemoryInfo :: "i32 \<Rightarrow> 'g \<Rightarrow> unit res \<times> 'g"
  CreateTensor :: "size_t \<Rightarrow> int list \<Rightarrow> 'g \<Rightarrow> unit res \<times> 'g"
  BindInput :: "string \<Rightarrow> 'g \<Rightarrow> unit res \<times> 'g"
  BindOutput :: "string \<Rightarrow> 'g \<Rightarrow> unit res \<times> 'g"
  Run :: "string \<Rightarrow> string \<Rightarrow> f32 list \<Rightarrow> int list \<Rightarrow> 'g \<Rightarrow> ort_outputs res \<times> 'g"
  RunBound :: "string \<Rightarrow> string \<Rightarrow> addr \<Rightarrow> int list \<Rightarrow> addr \<Rightarrow> int list \<Rightarrow> 'g \<Rightarrow> unit res \<times> 'g"
  network :: "f32 list \<Rightarrow> f32 list"
  network_width :: nat

section \<open>Documented behaviour\<close>

text \<open>The floats of one \<open>3 x 224 x 224\<close> image.\<close>

definition image_elems :: nat where
  "image_elems = 150528"

text \<open>A call that leaves device and page-locked memory alone and fails only by \<open>Ort::Exception\<close>.\<close>

definition ort_quiet :: "'g cuda_api \<Rightarrow> ('g \<Rightarrow> 'a res \<times> 'g) \<Rightarrow> bool" where
  "ort_quiet a call \<longleftrightarrow> (\<forall>g r g'. call g = (r, g') \<longrightarrow>
     view a g' = view a g \<and> (is_ret r \<or> (\<exists>m. r = Throw (OrtException m))))"

definition session_law :: "'g cuda_api \<Rightarrow> 'g ort_api \<Rightarrow> bool" where
  "session_law a ort \<longleftrightarrow> ort_quiet a (CreateEnv ort) \<and>
     (\<forall>opts. ort_quiet a (AppendExecutionProvider_CUDA ort opts)) \<and>
     ort_quiet a (SetGraphOptimizationLevel ort) \<and> (\<forall>path. ort_quiet a (CreateSession ort path)) \<and>
     ort_quiet a (CreateCpu ort) \<and> ort_quiet a (GetAvailableProviders ort) \<and>
     ort_quiet a (GetInputName ort) \<and> ort_quiet a (GetOutputName ort) \<and>
     (\<forall>dev. ort_quiet a (CudaMemoryInfo ort dev)) \<and> (\<forall>n shape. ort_quiet a (CreateTensor ort n shape)) \<and>
     (\<forall>name. ort_quiet a (BindInput ort name)) \<and> (\<forall>name. ort_quiet a (BindOutput ort name))"

text \<open>
  A network with a dynamic batch axis: a batch of \<open>k\<close> images yields, image by image, what the network
  computes for it.
\<close>

definition apply_network :: "'g ort_api \<Rightarrow> nat \<Rightarrow> f32 list \<Rightarrow> f32 list" where
  "apply_network ort k xs = concat (map (network ort) (rows image_elems k xs))"

definition network_law :: "'g ort_api \<Rightarrow> bool" where
  "network_law ort \<longleftrightarrow> (\<forall>r. length r = image_elems \<longrightarrow> length (network ort r) = network_width ort)"

definition run_law :: "'g cuda_api \<Rightarrow> 'g ort_api \<Rightarrow> bool" where
  "run_law a ort \<longleftrightarrow> (\<forall>i out xs shape. ort_quiet a (Run ort i out xs shape)) \<and>
     (\<forall>i out xs k g ys g'. Run ort i out xs [int k, 3, 224, 224] g = (Ret ys, g') \<longrightarrow> 0 < k \<longrightarrow>
        length xs = k * image_elems \<longrightarrow> ys = [Some (apply_network ort k xs)])"

text \<open>
  With bound device tensors the result is written to the output block, of which a failed run may have
  written any part.
\<close>

definition bound_law :: "'g cuda_api \<Rightarrow> 'g ort_api \<Rightarrow> bool" where
  "bound_law a ort \<longleftrightarrow> (\<forall>i out d p k g r g'.
     RunBound ort i out d [int k, 3, 224, 224] p [int k, int (network_width ort)] g = (r, g') \<longrightarrow>
     (let v = view a g in
      0 < k \<longrightarrow> d \<in> dev_live v \<longrightarrow> p \<in> dev_live v \<longrightarrow> d \<noteq> p \<longrightarrow> idle v d \<longrightarrow> idle v p \<longrightarrow>
      k * image_elems \<le> length (dev_data v d) \<longrightarrow> k * network_width ort \<le> length (dev_data v p) \<longrightarrow>
      (\<exists>ys. length ys = length (dev_data v p) \<and> view a g' = v\<lparr>dev_data := (dev_data v)(p := ys)\<rparr> \<and>
         (r = Ret () \<and> take (k * network_width ort) ys = apply_network ort k (dev_data v d) \<or>
          (\<exists>m. r = Throw (OrtException m))))))"

definition ort_laws :: "'g cuda_api \<Rightarrow> 'g ort_api \<Rightarrow> bool" where
  "ort_laws a ort \<longleftrightarrow> session_law a ort \<and> network_law ort \<and> run_law a ort \<and> bound_law a ort"

section \<open>Batches of images\<close>

lemma take_rows: "n \<le> k \<Longrightarrow> take n (rows w k xs) = rows w n xs"
  by (simp add: rows_def take_map)

lemma rows_prefix: "k * w \<le> length xs \<Longrightarrow> rows w k (xs @ zs) = rows w k xs"
proof -
  assume k: "k * w \<le> length xs"
  have "row w i (xs @ zs) = row w i xs" if "i < k" for i
  proof -
    have "(i + 1) * w \<le> k * w" using that by (intro mult_le_mono1) simp
    with k show ?thesis by (simp add: row_def)
  qed
  then show ?thesis by (simp add: rows_def)
qed

lemma rows_take: "k * w \<le> n \<Longrightarrow> n \<le> length xs \<Longrightarrow> rows w k (take n xs) = rows w k xs"
  using rows_prefix [of k w "take n xs" "drop n xs"] by simp

lemma apply_network_prefix:
  "k * image_elems \<le> length xs \<Longrightarrow> apply_network ort k (xs @ zs) = apply_network ort k xs"
  by (simp add: apply_network_def rows_prefix)

lemma length_apply_network:
  assumes "network_law ort" "k * image_elems \<le> length xs"
  shows "length (apply_network ort k xs) = k * network_width ort"
proof -
  let ?ys = "take (k * image_elems) xs"
  have l: "length ?ys = k * image_elems" using assms(2) by simp
  have "rows image_elems k xs = rows image_elems k ?ys" using rows_take [OF order_refl assms(2)] by simp
  then have "length z = network_width ort" if "z \<in> set (map (network ort) (rows image_elems k xs))" for z
    using assms(1) that rows_length_row [OF l] by (auto simp: network_law_def)
  from length_concat_uniform [of "map (network ort) (rows image_elems k xs)" "network_width ort", OF this] show ?thesis by (simp add: apply_network_def)
qed

text \<open>The outputs of the images that belong to requests do not depend on the padding after them.\<close>

lemma take_apply_network:
  assumes "network_law ort" "n \<le> k" "n * image_elems \<le> length xs"
  shows "take (n * network_width ort) (apply_network ort k xs) = apply_network ort n xs"
proof -
  have "rows image_elems k xs = rows image_elems n xs @ drop n (rows image_elems k xs)"
    using append_take_drop_id [of n "rows image_elems k xs", symmetric] by (simp only: take_rows [OF assms(2)])
  then have "apply_network ort k xs =
      apply_network ort n xs @ concat (map (network ort) (drop n (rows image_elems k xs)))"
    unfolding apply_network_def by (metis map_append concat_append)
  then show ?thesis using length_apply_network [OF assms(1,3)] by simp
qed

section \<open>A simulated library\<close>

text \<open>
  The library on the simulated CUDA runtime, with a network that answers every image with its first
  \<open>w\<close> floats.
\<close>

definition sim_ort :: "nat \<Rightarrow> sim ort_api" where
  "sim_ort w =
     \<lparr>CreateEnv = (\<lambda>g. (Ret (), g)), AppendExecutionProvider_CUDA = (\<lambda>_ g. (Ret (), g)),
      SetGraphOptimizationLevel = (\<lambda>g. (Ret (), g)), CreateSession = (\<lambda>_ g. (Ret (), g)),
      CreateCpu = (\<lambda>g. (Ret (), g)),
      GetAvailableProviders = (\<lambda>g. (Ret [''CUDAExecutionProvider'', ''CPUExecutionProvider''], g)),
      GetInputName = (\<lambda>g. (Ret ''input'', g)), GetOutputName = (\<lambda>g. (Ret ''output'', g)),
      CudaMemoryInfo = (\<lambda>_ g. (Ret (), g)), CreateTensor = (\<lambda>_ _ g. (Ret (), g)),
      BindInput = (\<lambda>_ g. (Ret (), g)), BindOutput = (\<lambda>_ g. (Ret (), g)),
      Run = (\<lambda>_ _ xs shape g.
        (Ret [Some (concat (map (take w) (rows image_elems (nat (hd shape)) xs)))], g)),
      RunBound = (\<lambda>_ _ d shape p _ g.
        (Ret (), g\<lparr>sim_view := (sim_view g)\<lparr>dev_data := (dev_data (sim_view g))(p :=
          overwrite 0 (concat (map (take w) (rows image_elems (nat (hd shape)) (dev_data (sim_view g) d))))
            (dev_data (sim_view g) p))\<rparr>\<rparr>)),
      network = take w, network_width = w\<rparr>"

lemma sim_ort_network [simp]: "network (sim_ort w) = take w" "network_width (sim_ort w) = w"
  by (simp_all add: sim_ort_def)

lemma sim_network_law: "w \<le> image_elems \<Longrightarrow> network_law (sim_ort w)"
  by (simp add: network_law_def)

lemma sim_bound_law:
  assumes "w \<le> image_elems"
  shows "bound_law sim_api (sim_ort w)"
  unfolding bound_law_def Let_def
proof (intro allI impI)
  fix i out d p k g r g'
  let ?v = "view sim_api g"
  let ?ys = "overwrite 0 (apply_network (sim_ort w) k (dev_data ?v d)) (dev_data ?v p)"
  assume run: "RunBound (sim_ort w) i out d [int k, 3, 224, 224] p [int k, int (network_width (sim_ort w))] g = (r, g')"
    and len: "k * image_elems \<le> length (dev_data ?v d)" "k * network_width (sim_ort w) \<le> length (dev_data ?v p)"
  note l = length_apply_network [OF sim_network_law [OF assms] len(1)]
  have "length ?ys = length (dev_data ?v p)" using l len(2) by simp
  moreover have "take (k * network_width (sim_ort w)) ?ys = apply_network (sim_ort w) k (dev_data ?v d)"
    using l by (intro take_overwrite_0) simp
  moreover have "view sim_api g' = ?v\<lparr>dev_data := (dev_data ?v)(p := ?ys)\<rparr>" "r = Ret ()"
    using run by (auto simp: sim_ort_def apply_network_def)
  ultimately show "\<exists>ys. length ys = length (dev_data ?v p) \<and> view sim_api g' = ?v\<lparr>dev_data := (dev_data ?v)(p := ys)\<rparr> \<and>
      (r = Ret () \<and> take (k * network_width (sim_ort w)) ys = apply_network (sim_ort w) k (dev_data ?v d) \<or>
       (\<exists>m. r = Throw (OrtException m)))"
    by blast
qed

lemma sim_session_law: "session_law sim_api (sim_ort w)"
  by (simp add: session_law_def ort_quiet_def sim_ort_def)

lemma sim_run_law: "run_law sim_api (sim_ort w)"
  by (simp add: run_law_def ort_quiet_def apply_network_def sim_ort_def)

lemma sim_ort_laws: "w \<le> image_elems \<Longrightarrow> ort_laws sim_api (sim_ort w)"
  by (simp add: ort_laws_def sim_bound_law sim_network_law sim_session_law sim_run_law)

end
