(* ===== verification/Onnx_Engine.thy ===== *)
theory Onnx_Engine
  imports Onnx_Runtime Decimal Scheduler_System
begin

text \<open>
  \<open>OnnxExecutionEngine\<close> (cpp/src/engine/onnx_execution_engine.cpp): a session of the ONNX Runtime that is
  fed batches padded to a bucket size, either through blocks of device memory allocated once (the
  bound path, with optional normalisation on the device) or through host memory (the host path).
  This theory holds the model, in the order of the code's dependencies: the runs of a batch, then
  the constructor, which warms the session up with such runs, and the destructor.
\<close>

section \<open>State\<close>

record OnnxOptions =
  ox_model_path :: string
  ox_device_id :: i32
  ox_batch_buckets :: "size_t list"
  ox_warm_buckets :: bool
  ox_input_elems :: size_t
  ox_output_elems :: size_t
  ox_use_io_binding :: bool
  ox_normalize_on_device :: bool
  ox_mean :: "f32 list"
  ox_stddev :: "f32 list"
  ox_require_cuda :: bool

definition default_onnx_options :: OnnxOptions where
  "default_onnx_options =
     \<lparr>ox_model_path = '''', ox_device_id = 0, ox_batch_buckets = [8], ox_warm_buckets = True,
      ox_input_elems = 3 * 224 * 224, ox_output_elems = 1000, ox_use_io_binding = True,
      ox_normalize_on_device = False,
      ox_mean = [thousandths 485, thousandths 456, thousandths 406],
      ox_stddev = [thousandths 229, thousandths 224, thousandths 225], ox_require_cuda = True\<rparr>"

record OnnxImpl =
  host_input :: PinnedBuffer
  host_output :: PinnedBuffer
  device_input :: DeviceBuffer
  device_output :: DeviceBuffer
  device_mean :: DeviceBuffer
  device_stddev :: DeviceBuffer
  copy_stream :: stream

definition impl_new :: OnnxImpl where
  "impl_new = \<lparr>host_input = pinned_blank, host_output = pinned_blank, device_input = device_blank,
     device_output = device_blank, device_mean = device_blank, device_stddev = device_blank,
     copy_stream = 0\<rparr>"

record OnnxExecutionEngine =
  onnx_options :: OnnxOptions
  impl :: OnnxImpl
  providers :: "string list"
  input_name :: string
  output_name :: string
  io_binding_active :: bool

text \<open>The engine together with the device it runs on and the library it calls.\<close>

record 'g oest =
  oeng :: OnnxExecutionEngine
  ogpu :: "'g gpu"
  ort :: "'g ort_api"

abbreviation (input) oopts :: "'g oest \<Rightarrow> OnnxOptions" where
  "oopts s \<equiv> onnx_options (oeng s)"

abbreviation (input) oimpl :: "'g oest \<Rightarrow> OnnxImpl" where
  "oimpl s \<equiv> impl (oeng s)"

section \<open>Calls out of the engine\<close>

definition on_device :: "('g gpu, 'a) cmd \<Rightarrow> ('g oest, 'a) cmd" where
  "on_device m s = (case m (ogpu s) of (r, g) \<Rightarrow> (r, s\<lparr>ogpu := g\<rparr>))"

definition ort_call :: "('g ort_api \<Rightarrow> 'g \<Rightarrow> 'a res \<times> 'g) \<Rightarrow> ('g oest, 'a) cmd" where
  "ort_call f s =
     (case f (ort s) (gst (ogpu s)) of (r, g) \<Rightarrow> (r, s\<lparr>ogpu := (ogpu s)\<lparr>gst := g\<rparr>\<rparr>))"

definition translate_ort_errors :: "string \<Rightarrow> ('s, 'a) cmd \<Rightarrow> ('s, 'a) cmd" where
  "translate_ort_errors what fn s =
     (case fn s of
        (Throw (OrtException e), s') \<Rightarrow> (Throw (InferenceError (what @ '': '' @ e)), s')
      | other \<Rightarrow> other)"

text \<open>\<open>catch (const std::exception&)\<close>: every exception of the sources derives from it.\<close>

definition try_catch :: "('s, 'a) cmd \<Rightarrow> (exn \<Rightarrow> ('s, 'a) cmd) \<Rightarrow> ('s, 'a) cmd" where
  "try_catch body handler s = (case body s of (Throw e, s') \<Rightarrow> handler e s' | other \<Rightarrow> other)"

definition guard :: "bool \<Rightarrow> exn \<Rightarrow> ('s, unit) cmd" where
  "guard ok e = (if ok then cret () else cthrow e)"

section \<open>Running a batch\<close>

primrec first_bucket :: "size_t list \<Rightarrow> size_t \<Rightarrow> size_t" where
  "first_bucket [] batch_size = batch_size"
| "first_bucket (bucket # rest) batch_size =
     (if batch_size \<le> bucket then bucket else first_bucket rest batch_size)"

definition onnx_bucket_for :: "OnnxOptions \<Rightarrow> size_t \<Rightarrow> size_t" where
  "onnx_bucket_for opts batch_size = first_bucket (ox_batch_buckets opts) batch_size"

text \<open>A vector made from a range of floats at a pointer into page-locked memory, or into a tensor.\<close>

definition vec_from_host :: "addr \<Rightarrow> size_t \<Rightarrow> ('g gpu, f32 list) cmd" where
  "vec_from_host h n =
     (if vec_max_size < unat n
      then cthrow (LengthError ''cannot create std::vector larger than max_size()'')
      else read_host h (unat n))"

definition vec_from_tensor :: "f32 list \<Rightarrow> size_t \<Rightarrow> f32 list res" where
  "vec_from_tensor data n =
     (if vec_max_size < unat n
      then Throw (LengthError ''cannot create std::vector larger than max_size()'')
      else vec_slice data 0 n)"

text \<open>The bound path up to the run: staging, upload, normalisation, and the wait for them.\<close>

definition stage_input :: "f32 list \<Rightarrow> size_t \<Rightarrow> ('g oest, unit) cmd" where
  "stage_input batched_input padded_batch s =
     (let opts = oopts s; m = oimpl s; input_floats = padded_batch * ox_input_elems opts
      in cbind (on_device (write_host (pin_ptr (host_input m)) batched_input)) (\<lambda>_.
         cbind (on_device (\<lambda>g. checked (cudaMemcpyAsyncH2D (api g) (dev_ptr (device_input m))
           (pin_ptr (host_input m)) (input_floats * 4) (copy_stream m)) ''cudaMemcpyAsync (H2D)'' g)) (\<lambda>_.
         cbind (if ox_normalize_on_device opts
            then if vsize (ox_mean opts) = 0 then (\<lambda>s. (Undef, s))
              else on_device (launch_normalize (dev_ptr (device_input m)) (ucast padded_batch)
                (ucast (vsize (ox_mean opts))) (ucast (ox_input_elems opts div vsize (ox_mean opts)))
                (dev_ptr (device_mean m)) (dev_ptr (device_stddev m)) (copy_stream m))
            else cret ()) (\<lambda>_.
         on_device (\<lambda>g. checked (cudaStreamSynchronize (api g) (copy_stream m))
           ''cudaStreamSynchronize (pre-Run)'' g)))) s)"

text \<open>The readback of the output block, and the run on the bound blocks before it.\<close>

definition bound_readback :: "size_t \<Rightarrow> size_t \<Rightarrow> ('g oest, f32 list) cmd" where
  "bound_readback batch_size padded_batch s =
     (let opts = oopts s; m = oimpl s; output_floats = padded_batch * ox_output_elems opts
      in cbind (on_device (\<lambda>g. checked (cudaMemcpyAsyncD2H (api g) (pin_ptr (host_output m))
           (dev_ptr (device_output m)) (output_floats * 4) (copy_stream m)) ''cudaMemcpyAsync (D2H)'' g)) (\<lambda>_.
         cbind (on_device (\<lambda>g. checked (cudaStreamSynchronize (api g) (copy_stream m))
           ''cudaStreamSynchronize (post-Run)'' g)) (\<lambda>_.
         on_device (vec_from_host (pin_ptr (host_output m)) (batch_size * ox_output_elems opts)))) s)"

definition bound_session_run :: "size_t \<Rightarrow> size_t \<Rightarrow> ('g oest, f32 list) cmd" where
  "bound_session_run batch_size padded_batch s =
     (let opts = oopts s; m = oimpl s; e = oeng s;
          input_floats = padded_batch * ox_input_elems opts;
          output_floats = padded_batch * ox_output_elems opts;
          input_shape = [sint padded_batch, 3, 224, 224];
          output_shape = [sint padded_batch, sint (ox_output_elems opts)]
      in cbind (ort_call (\<lambda>l. CreateTensor l input_floats input_shape)) (\<lambda>_.
         cbind (ort_call (\<lambda>l. CreateTensor l output_floats output_shape)) (\<lambda>_.
         cbind (ort_call (\<lambda>l. BindInput l (input_name e))) (\<lambda>_.
         cbind (ort_call (\<lambda>l. BindOutput l (output_name e))) (\<lambda>_.
         cbind (ort_call (\<lambda>l. RunBound l (input_name e) (output_name e)
           (dev_ptr (device_input m)) input_shape (dev_ptr (device_output m)) output_shape)) (\<lambda>_.
         bound_readback batch_size padded_batch))))) s)"

definition run_bound :: "f32 list \<Rightarrow> size_t \<Rightarrow> size_t \<Rightarrow> ('g oest, f32 list) cmd" where
  "run_bound batched_input batch_size padded_batch =
     cbind (stage_input batched_input padded_batch) (\<lambda>_.
       translate_ort_errors ''ONNX Runtime inference failed (bound)''
         (bound_session_run batch_size padded_batch))"

text \<open>The input of the host path: the batch itself, or a zero-filled copy when padding is needed.\<close>

definition padded_input :: "f32 list \<Rightarrow> size_t \<Rightarrow> size_t \<Rightarrow> size_t \<Rightarrow> f32 list res" where
  "padded_input batched_input batch_size padded_batch ie =
     (if padded_batch \<noteq> batch_size
      then res_bind (vec_filled (padded_batch * ie) fzero) (\<lambda>zeros. vec_copy_to batched_input zeros 0)
      else Ret batched_input)"

definition host_outputs :: "size_t \<Rightarrow> size_t \<Rightarrow> size_t \<Rightarrow> ort_outputs \<Rightarrow> f32 list res" where
  "host_outputs batch_size padded_batch oe outputs =
     (case outputs of
        Some data # _ \<Rightarrow>
          (let produced = vsize data; expected = padded_batch * oe
           in if produced \<noteq> expected
              then Throw (InferenceError (''model produced '' @ to_string produced @
                '' elements, expected '' @ to_string expected))
              else vec_from_tensor data (batch_size * oe))
      | _ \<Rightarrow> Throw (InferenceError ''ONNX Runtime returned no output tensor''))"

definition run_host :: "f32 list \<Rightarrow> size_t \<Rightarrow> size_t \<Rightarrow> ('g oest, f32 list) cmd" where
  "run_host batched_input batch_size padded_batch s =
     (let opts = oopts s; e = oeng s; input_shape = [sint padded_batch, 3, 224, 224]
      in cbind (\<lambda>s. (padded_input batched_input batch_size padded_batch (ox_input_elems opts), s)) (\<lambda>input_data.
         translate_ort_errors ''ONNX Runtime inference failed'' (
           cbind (ort_call (\<lambda>l. CreateTensor l (padded_batch * ox_input_elems opts) input_shape)) (\<lambda>_.
           cbind (ort_call (\<lambda>l. Run l (input_name e) (output_name e) input_data input_shape)) (\<lambda>outputs s.
             (host_outputs batch_size padded_batch (ox_output_elems opts) outputs, s))))) s)"

definition onnx_run_inference :: "f32 list \<Rightarrow> size_t \<Rightarrow> size_t \<Rightarrow> size_t \<Rightarrow> ('g oest, f32 list) cmd" where
  "onnx_run_inference batched_input batch_size ie oe s =
     (let opts = oopts s; buckets = ox_batch_buckets opts
      in if vsize batched_input \<noteq> batch_size * ie
         then cthrow (InferenceError ''batched input size does not match batch_size * input_elems'') s
         else if batch_size = 0 then cret [] s
         else if ie \<noteq> ox_input_elems opts \<or> oe \<noteq> ox_output_elems opts
         then cthrow (InferenceError
           ''run_inference called with input/output_elems that differ from the configured geometry'') s
         else let padded_batch = onnx_bucket_for opts batch_size;
                  fits_preallocated = (buckets \<noteq> [] \<and> padded_batch \<le> last buckets)
              in if io_binding_active (oeng s) \<and> fits_preallocated
                 then run_bound batched_input batch_size padded_batch s
                 else run_host batched_input batch_size padded_batch s)"

definition onnx_engine :: "'g oest engine" where
  "onnx_engine s xs n ie oe = onnx_run_inference xs n ie oe s"

section \<open>Construction and destruction\<close>

text \<open>A member is assigned a new buffer: the temporary is moved from and destroyed.\<close>

definition emplace_pinned ::
    "(OnnxImpl \<Rightarrow> PinnedBuffer) \<Rightarrow> ((PinnedBuffer \<Rightarrow> PinnedBuffer) \<Rightarrow> OnnxImpl \<Rightarrow> OnnxImpl) \<Rightarrow> size_t \<Rightarrow>
     ('g oest, unit) cmd" where
  "emplace_pinned member upd bytes =
     cbind (on_device (pinned_new bytes)) (\<lambda>b s.
       case pinned_assign False (member (oimpl s)) b (ogpu s) of
         ((this, other), g) \<Rightarrow>
           (Ret (), s\<lparr>oeng := (oeng s)\<lparr>impl := upd (\<lambda>_. this) (oimpl s)\<rparr>, ogpu := pinned_destroy other g\<rparr>))"

definition emplace_device ::
    "(OnnxImpl \<Rightarrow> DeviceBuffer) \<Rightarrow> ((DeviceBuffer \<Rightarrow> DeviceBuffer) \<Rightarrow> OnnxImpl \<Rightarrow> OnnxImpl) \<Rightarrow> size_t \<Rightarrow>
     ('g oest, unit) cmd" where
  "emplace_device member upd bytes =
     cbind (on_device (device_new bytes)) (\<lambda>b s.
       case device_assign False (member (oimpl s)) b (ogpu s) of
         ((this, other), g) \<Rightarrow>
           (Ret (), s\<lparr>oeng := (oeng s)\<lparr>impl := upd (\<lambda>_. this) (oimpl s)\<rparr>, ogpu := device_destroy other g\<rparr>))"

definition create_stream :: "('g oest, unit) cmd" where
  "create_stream =
     cbind (on_device (\<lambda>g. checked_new (cudaStreamCreate (api g)) ''cudaStreamCreateWithFlags'' g)) (\<lambda>x s.
       (Ret (), s\<lparr>oeng := (oeng s)\<lparr>impl := (oimpl s)\<lparr>copy_stream := x\<rparr>\<rparr>\<rparr>))"

definition upload_normalization :: "('g oest, unit) cmd" where
  "upload_normalization s =
     (let opts = oopts s; bytes = vsize (ox_mean opts) * 4
      in cbind (emplace_device device_mean device_mean_update bytes) (\<lambda>_.
         cbind (emplace_device device_stddev device_stddev_update bytes) (\<lambda>_.
         cbind (\<lambda>s. on_device (\<lambda>g. checked (cudaMemcpyToDevice (api g) (dev_ptr (device_mean (oimpl s)))
           (ox_mean opts)) ''cudaMemcpy (mean)'' g) s) (\<lambda>_ s.
         on_device (\<lambda>g. checked (cudaMemcpyToDevice (api g) (dev_ptr (device_stddev (oimpl s)))
           (ox_stddev opts)) ''cudaMemcpy (stddev)'' g) s))) s)"

definition set_io_binding :: "bool \<Rightarrow> ('g oest, unit) cmd" where
  "set_io_binding b s = (Ret (), s\<lparr>oeng := (oeng s)\<lparr>io_binding_active := b\<rparr>\<rparr>)"

definition onnx_max_batch :: "OnnxOptions \<Rightarrow> size_t" where
  "onnx_max_batch opts = (if ox_batch_buckets opts = [] then 1 else last (ox_batch_buckets opts))"

definition allocate_device_buffers :: "('g oest, unit) cmd" where
  "allocate_device_buffers s =
     (let opts = oopts s;
          input_floats = onnx_max_batch opts * ox_input_elems opts;
          output_floats = onnx_max_batch opts * ox_output_elems opts
      in try_catch (
           cbind (on_device (\<lambda>g. checked (cudaSetDevice (api g) (ox_device_id opts)) ''cudaSetDevice'' g)) (\<lambda>_.
           cbind create_stream (\<lambda>_.
           cbind (emplace_pinned host_input host_input_update (input_floats * 4)) (\<lambda>_.
           cbind (emplace_pinned host_output host_output_update (output_floats * 4)) (\<lambda>_.
           cbind (emplace_device device_input device_input_update (input_floats * 4)) (\<lambda>_.
           cbind (emplace_device device_output device_output_update (output_floats * 4)) (\<lambda>_.
           cbind (\<lambda>s. on_device (write_host (pin_ptr (host_input (oimpl s)))
             (replicate (floats (input_floats * 4)) fzero)) s) (\<lambda>_.
           cbind (if ox_normalize_on_device opts then upload_normalization else cret ()) (\<lambda>_.
           cbind (ort_call (\<lambda>l. CudaMemoryInfo l (ox_device_id opts))) (\<lambda>_.
           set_io_binding True))))))))))
         (\<lambda>e. cbind (set_io_binding False) (\<lambda>_.
           if ox_normalize_on_device opts then cthrow e else cret ())) s)"

fun warm_each :: "size_t list \<Rightarrow> ('g oest, unit) cmd" where
  "warm_each [] s = cret () s"
| "warm_each (bucket # rest) s =
     (if bucket = 0 then warm_each rest s
      else let opts = oopts s
           in cbind (try_catch (cbind (\<lambda>s. (vec_filled (bucket * ox_input_elems opts) fzero, s)) (\<lambda>input.
                  cbind (onnx_run_inference input bucket (ox_input_elems opts) (ox_output_elems opts)) (\<lambda>_.
                    cret ()))) (\<lambda>_. cret ()))
                (\<lambda>_. warm_each rest) s)"

definition warm_buckets :: "('g oest, unit) cmd" where
  "warm_buckets s = warm_each (ox_batch_buckets (oopts s)) s"

definition create_session :: "('g oest, unit) cmd" where
  "create_session s =
     (let opts = oopts s
      in translate_ort_errors ''failed to initialize ONNX Runtime session'' (
           cbind (ort_call (\<lambda>l. AppendExecutionProvider_CUDA l
             \<lparr>provider_device = ox_device_id opts, cudnn_conv_algo_search = ConvAlgoHeuristic\<rparr>)) (\<lambda>_.
           cbind (ort_call SetGraphOptimizationLevel) (\<lambda>_.
           cbind (ort_call (\<lambda>l. CreateSession l (ox_model_path opts))) (\<lambda>_.
           ort_call CreateCpu)))) s)"

definition query_providers :: "('g oest, unit) cmd" where
  "query_providers =
     cbind (ort_call GetAvailableProviders) (\<lambda>ps s. (Ret (), s\<lparr>oeng := (oeng s)\<lparr>providers := ps\<rparr>\<rparr>))"

definition query_names :: "('g oest, unit) cmd" where
  "query_names = translate_ort_errors ''failed to query model input/output names'' (
     cbind (ort_call GetInputName) (\<lambda>input.
     cbind (ort_call GetOutputName) (\<lambda>output s.
       (Ret (), s\<lparr>oeng := (oeng s)\<lparr>input_name := input, output_name := output\<rparr>\<rparr>))))"

text \<open>The checks of the options between opening the session and querying the names.\<close>

definition check_onnx_options :: "OnnxOptions \<Rightarrow> string list \<Rightarrow> unit res" where
  "check_onnx_options opts provs =
     (if ox_require_cuda opts \<and> ''CUDAExecutionProvider'' \<notin> set provs
      then Throw (InferenceError (''ONNX Runtime resolved no CUDAExecutionProvider; the build is CPU-only. '' @
        ''Set require_cuda=false to run anyway, but note every latency number would then be a CPU number.''))
      else if \<not> sorted (ox_batch_buckets opts)
      then Throw (InferenceError ''OnnxExecutionEngine: batch_buckets must be ascending'')
      else if \<not> ox_normalize_on_device opts then Ret ()
      else if \<not> ox_use_io_binding opts
      then Throw (InferenceError ''OnnxExecutionEngine: normalize_on_device requires use_io_binding'')
      else if ox_mean opts = [] \<or> vsize (ox_mean opts) \<noteq> vsize (ox_stddev opts)
      then Throw (InferenceError ''OnnxExecutionEngine: mean and stddev must be non-empty and equal length'')
      else if \<exists>x \<in> set (ox_stddev opts). feq x fzero
      then Throw (InferenceError ''OnnxExecutionEngine: stddev entries must be non-zero'')
      else if ox_input_elems opts mod vsize (ox_mean opts) \<noteq> 0
      then Throw (InferenceError ''OnnxExecutionEngine: input_elems must divide evenly by the channel count'')
      else Ret ())"

text \<open>\<open>~Impl\<close> and then the members in reverse order.\<close>

definition impl_destroy :: "OnnxImpl \<Rightarrow> 'g gpu \<Rightarrow> 'g gpu" where
  "impl_destroy m g =
     (let g1 = (if copy_stream m \<noteq> 0 then g\<lparr>gst := cudaStreamDestroy (api g) (copy_stream m) (gst g)\<rparr> else g);
          g2 = device_destroy (device_input m) (device_destroy (device_output m)
                 (device_destroy (device_mean m) (device_destroy (device_stddev m) g1)))
      in pinned_destroy (host_input m) (pinned_destroy (host_output m) g2))"

definition onnx_engine_destroy :: "'g oest \<Rightarrow> 'g gpu" where
  "onnx_engine_destroy s = impl_destroy (oimpl s) (ogpu s)"

definition onnx_engine_init :: "('g oest, unit) cmd" where
  "onnx_engine_init s =
     (let opts = oopts s
      in cbind (guard (ox_model_path opts \<noteq> []) (InferenceError ''OnnxExecutionEngine: model_path is empty'')) (\<lambda>_.
         cbind create_session (\<lambda>_.
         cbind query_providers (\<lambda>_.
         cbind (\<lambda>s. (check_onnx_options opts (providers (oeng s)), s)) (\<lambda>_.
         cbind query_names (\<lambda>_.
         cbind (if ox_use_io_binding opts then allocate_device_buffers else cret ()) (\<lambda>_.
         if ox_warm_buckets opts then warm_buckets else cret ())))))) s)"

text \<open>When the body throws, the members built before it are destroyed.\<close>

definition onnx_engine_new :: "OnnxOptions \<Rightarrow> 'g ort_api \<Rightarrow> 'g gpu \<Rightarrow> unit res \<times> 'g oest" where
  "onnx_engine_new opts library g =
     cbind (ort_call CreateEnv) (\<lambda>_.
       con_throw onnx_engine_init (\<lambda>s. s\<lparr>ogpu := onnx_engine_destroy s\<rparr>))
     \<lparr>oeng = \<lparr>onnx_options = opts, impl = impl_new, providers = [], input_name = '''', output_name = '''',
        io_binding_active = False\<rparr>, ogpu = g, ort = library\<rparr>"

end
