(* ===== verification/Bench_Tool.thy ===== *)
theory Bench_Tool
  imports Onnx_Engine
begin

text \<open>
  The engine benchmark (cpp/tools/bench_engine.cpp): reading the bucket list from the command line, the
  median of the samples, and the sequence of batches the tool runs through an \<open>OnnxExecutionEngine\<close>. The
  clock readings and the printed table are not part of the model, and the batch sizes that the standard
  random generator picks are a parameter.
\<close>

section \<open>The bucket list\<close>

text \<open>
  \<open>std::stoul\<close> in base 10: white space, an optional sign, digits; what follows the digits is ignored. A
  minus sign negates in the unsigned type.
\<close>

definition is_space :: "char \<Rightarrow> bool" where
  "is_space c \<longleftrightarrow> (of_char c :: nat) = 32 \<or> 9 \<le> (of_char c :: nat) \<and> (of_char c :: nat) \<le> 13"

definition stoul_digits :: "bool \<Rightarrow> string \<Rightarrow> u64 res" where
  "stoul_digits negated cs =
     (let digits = takeWhile is_digit cs; n = read_digits digits
      in if digits = [] then Throw (InvalidArgument ''stoul'')
         else if 2 ^ 64 \<le> n then Throw (OutOfRange ''stoul'')
         else Ret (if negated then - of_nat n else of_nat n))"

definition stoul :: "string \<Rightarrow> u64 res" where
  "stoul cs =
     (case dropWhile is_space cs of
        [] \<Rightarrow> Throw (InvalidArgument ''stoul'')
      | c # rest \<Rightarrow>
          if c = CHR ''-'' then stoul_digits True rest
          else if c = CHR ''+'' then stoul_digits False rest
          else stoul_digits False (c # rest))"

text \<open>The loop over the tokens, on what is left of the text after the last comma.\<close>

function parse_loop :: "string \<Rightarrow> size_t list \<Rightarrow> size_t list res" where
  "parse_loop rest buckets =
     (let token = takeWhile (\<lambda>c. c \<noteq> CHR '','') rest; comma = dropWhile (\<lambda>c. c \<noteq> CHR '','') rest
      in res_bind (if token \<noteq> [] then res_bind (stoul token) (\<lambda>n. Ret (buckets @ [n])) else Ret buckets)
           (\<lambda>buckets'. if comma = [] then Ret buckets' else parse_loop (tl comma) buckets'))"
  by pat_completeness auto
termination
proof (relation "measure (length \<circ> fst)")
  fix rest :: string and comma buckets'
  assume c: "comma = dropWhile (\<lambda>c. c \<noteq> CHR '','') rest" "comma \<noteq> []"
  then have "length (tl comma) < length comma" by (cases comma) simp_all
  also have "length comma \<le> length rest" unfolding c(1) by (rule length_dropWhile_le)
  finally show "((tl comma, buckets'), (rest, buckets)) \<in> measure (length \<circ> fst)" for buckets by simp
qed simp

declare parse_loop.simps [simp del]

definition parse_buckets :: "string \<Rightarrow> size_t list res" where
  "parse_buckets spec = parse_loop spec []"

section \<open>The median\<close>

text \<open>The samples are durations, which are never a NaN: \<open>std::sort\<close> sees a linear order.\<close>

definition median_ms :: "('a :: linorder) list \<Rightarrow> 'a res" where
  "median_ms samples =
     (let sorted_samples = sort samples
      in if length sorted_samples div 2 < length sorted_samples
         then Ret (sorted_samples ! (length sorted_samples div 2)) else Undef)"

section \<open>The run\<close>

definition kInputElems :: size_t where
  "kInputElems = 3 * 224 * 224"

definition kOutputElems :: size_t where
  "kOutputElems = 1000"

definition kWarmupIters :: nat where
  "kWarmupIters = 10"

definition kTimedIters :: nat where
  "kTimedIters = 30"

text \<open>The options from the arguments after the program name.\<close>

definition bench_options :: "string list \<Rightarrow> OnnxOptions res" where
  "bench_options args =
     (let model_path = (if 0 < length args then args ! 0 else ''models/resnet50.onnx'');
          bucket_spec = (if 1 < length args then args ! 1 else ''1,2,4,8'');
          path = (if 2 < length args then args ! 2 else ''bound'')
      in res_bind (parse_buckets bucket_spec) (\<lambda>buckets.
           Ret (default_onnx_options\<lparr>ox_model_path := model_path, ox_batch_buckets := buckets,
             ox_use_io_binding := (path \<noteq> ''host'')\<rparr>)))"

text \<open>A batch of the tool, run a number of times.\<close>

fun bench_repeat :: "nat \<Rightarrow> f32 list \<Rightarrow> size_t \<Rightarrow> ('g oest, unit) cmd" where
  "bench_repeat 0 input batch = cret ()"
| "bench_repeat (Suc k) input batch =
     cbind (onnx_run_inference input batch kInputElems kOutputElems) (\<lambda>_. bench_repeat k input batch)"

fun bench_each :: "nat \<Rightarrow> size_t list \<Rightarrow> ('g oest, unit) cmd" where
  "bench_each k [] = cret ()"
| "bench_each k (batch # rest) =
     cbind (\<lambda>s. (vec_filled (batch * kInputElems) (thousandths 500), s)) (\<lambda>input.
     cbind (bench_repeat k input batch) (\<lambda>_. bench_each k rest))"

definition bench_fixed_shapes :: "('g oest, unit) cmd" where
  "bench_fixed_shapes = bench_each (kWarmupIters + kTimedIters) [1, 2, 4, 8, 16]"

definition bench_varying_shapes :: "size_t list \<Rightarrow> ('g oest, unit) cmd" where
  "bench_varying_shapes picks =
     cbind (bench_each 3 [1, 2, 3, 4, 5, 6, 7, 8]) (\<lambda>_. bench_each 1 (take 60 picks))"

text \<open>An exception that leaves \<open>main\<close> ends the process.\<close>

definition uncaught :: "'a res \<Rightarrow> 'a res" where
  "uncaught r = (case r of Throw e \<Rightarrow> Terminate | _ \<Rightarrow> r)"

definition bench_main :: "string list \<Rightarrow> size_t list \<Rightarrow> 'g ort_api \<Rightarrow> 'g gpu \<Rightarrow> 'g gpu res" where
  "bench_main args picks l g =
     uncaught (res_bind (bench_options args) (\<lambda>opts.
       case onnx_engine_new opts l g of (made, s) \<Rightarrow> res_bind made (\<lambda>_.
         case cbind bench_fixed_shapes (\<lambda>_. bench_varying_shapes picks) s of (finished, s') \<Rightarrow>
           res_bind finished (\<lambda>_. Ret (onnx_engine_destroy s')))))"

section \<open>Reading back what is printed\<close>

fun print_buckets :: "size_t list \<Rightarrow> string" where
  "print_buckets [] = []"
| "print_buckets [n] = to_string n"
| "print_buckets (n # m # ns) = to_string n @ CHR '','' # print_buckets (m # ns)"

lemma digit_not_special: "is_digit c \<Longrightarrow> c \<noteq> CHR '','' \<and> c \<noteq> CHR ''-'' \<and> c \<noteq> CHR ''+'' \<and> \<not> is_space c"
  by (auto simp: is_digit_def is_space_def)

lemma to_string_digits: "c \<in> set (to_string n) \<Longrightarrow> is_digit c" "to_string n \<noteq> []"
  unfolding to_string_def using dec_digits by simp_all

lemma stoul_to_string: "stoul (to_string n) = Ret n"
proof -
  obtain c cs where s: "to_string n = c # cs" using to_string_digits(2) by (cases "to_string n") auto
  have d: "is_digit x" if "x \<in> set (c # cs)" for x using to_string_digits(1) [of x n] that by (simp add: s)
  have "takeWhile is_digit (c # cs) = c # cs" using d by (subst takeWhile_eq_all_conv) blast
  moreover have "read_digits (c # cs) = unat n" using read_dec [of "unat n"] s by (simp only: to_string_def)
  moreover have "unat n < 2 ^ 64" using unsigned_less [of n, where ?'a = nat] by simp
  ultimately have "stoul_digits False (c # cs) = Ret n" by (simp add: stoul_digits_def Let_def)
  moreover have "\<not> is_space c \<and> c \<noteq> CHR ''-'' \<and> c \<noteq> CHR ''+''" using digit_not_special [OF d [of c]] by simp
  ultimately show ?thesis by (simp add: stoul_def s)
qed

lemma token_of_number:
  "takeWhile (\<lambda>c. c \<noteq> CHR '','') (to_string n @ CHR '','' # rest) = to_string n"
  "dropWhile (\<lambda>c. c \<noteq> CHR '','') (to_string n @ CHR '','' # rest) = CHR '','' # rest"
  "takeWhile (\<lambda>c. c \<noteq> CHR '','') (to_string n) = to_string n"
  "dropWhile (\<lambda>c. c \<noteq> CHR '','') (to_string n) = []"
proof -
  have d: "\<forall>c \<in> set (to_string n). c \<noteq> CHR '',''" using to_string_digits(1) digit_not_special by blast
  show "takeWhile (\<lambda>c. c \<noteq> CHR '','') (to_string n) = to_string n" "dropWhile (\<lambda>c. c \<noteq> CHR '','') (to_string n) = []"
    using d by (simp_all add: takeWhile_eq_all_conv dropWhile_eq_Nil_conv)
  show "takeWhile (\<lambda>c. c \<noteq> CHR '','') (to_string n @ CHR '','' # rest) = to_string n"
    "dropWhile (\<lambda>c. c \<noteq> CHR '','') (to_string n @ CHR '','' # rest) = CHR '','' # rest"
    using d by (simp_all add: takeWhile_append2 dropWhile_append2)
qed

lemma parse_loop_print: "ns \<noteq> [] \<Longrightarrow> parse_loop (print_buckets ns) acc = Ret (acc @ ns)"
proof (induction ns arbitrary: acc rule: print_buckets.induct)
  case (2 n)
  then show ?case
    by (subst parse_loop.simps) (simp add: Let_def token_of_number to_string_digits(2) stoul_to_string)
next
  case (3 n m ns)
  have "parse_loop (print_buckets (n # m # ns)) acc = parse_loop (print_buckets (m # ns)) (acc @ [n])"
    by (subst parse_loop.simps) (simp add: Let_def token_of_number to_string_digits(2) stoul_to_string)
  also have "\<dots> = Ret ((acc @ [n]) @ m # ns)" using 3 by simp
  finally show ?case by simp
qed simp

text \<open>
  C40: The bucket list the benchmark reads from its command line is the one that was written: every list of
  64-bit sizes, printed in decimal and joined by commas, is parsed back unchanged, the empty list included.
\<close>

theorem parse_buckets_print: "parse_buckets (print_buckets ns) = Ret ns"
proof (cases "ns = []")
  case True
  then show ?thesis by (simp add: parse_buckets_def parse_loop.simps)
next
  case False
  then show ?thesis by (simp add: parse_buckets_def parse_loop_print)
qed

end
