(* ===== verification/Onnx_Batches.thy ===== *)
theory Onnx_Batches
  imports Onnx_Engine
begin

text \<open>
  What a batch does on \<open>OnnxExecutionEngine\<close>: the bound and the host path return, for every batch in the
  geometry the engine serves, what the network computes for each row, or throw \<open>InferenceError\<close>, and keep
  the engine's invariant. This makes the engine an instance of \<open>row_engine\<close>.
\<close>

section \<open>Calls that leave the device alone\<close>

text \<open>Same engine, same library, same contents of the device.\<close>

definition undisturbed :: "'g oest \<Rightarrow> 'g oest \<Rightarrow> bool" where
  "undisturbed s s' \<longleftrightarrow> oeng s' = oeng s \<and> ort s' = ort s \<and> api (ogpu s') = api (ogpu s) \<and>
     gview_of (ogpu s') = gview_of (ogpu s)"

lemma undisturbed_refl [simp]: "undisturbed s s"
  by (simp add: undisturbed_def)

lemma undisturbed_trans: "undisturbed s s' \<Longrightarrow> undisturbed s' s'' \<Longrightarrow> undisturbed s s''"
  by (simp add: undisturbed_def)

lemma ort_call_cases:
  assumes "ort_quiet (api (ogpu s)) (f (ort s))"
  obtains x s' where "ort_call f s = (Ret x, s')" "undisturbed s s'"
  | m s' where "ort_call f s = (Throw (OrtException m), s')" "undisturbed s s'"
proof -
  obtain r g where c: "f (ort s) (gst (ogpu s)) = (r, g)" by fastforce
  let ?s = "s\<lparr>ogpu := (ogpu s)\<lparr>gst := g\<rparr>\<rparr>"
  have q: "view (api (ogpu s)) g = view (api (ogpu s)) (gst (ogpu s))" "is_ret r \<or> (\<exists>m. r = Throw (OrtException m))"
    using assms c by (auto simp: ort_quiet_def)
  have "ort_call f s = (r, ?s)" "undisturbed s ?s"
    using c q(1) by (simp_all add: ort_call_def undisturbed_def gview_of_def)
  with q(2) that show thesis by (auto simp: is_ret_iff)
qed

text \<open>A sequence that starts with a call of the library.\<close>

lemma ort_call_bind:
  assumes "ort_quiet (api (ogpu s)) (f (ort s))"
    and "\<And>x s1. undisturbed s s1 \<Longrightarrow> P (k x s1)"
    and "\<And>m s1. undisturbed s s1 \<Longrightarrow> P (Throw (OrtException m), s1)"
  shows "P (cbind (ort_call f) k s)"
  using assms(1)
proof (cases rule: ort_call_cases)
  case (1 x s')
  with assms(2) show ?thesis by (simp add: cbind_def)
next
  case (2 m s')
  with assms(3) show ?thesis by (simp add: cbind_def)
qed

lemma translate_cases:
  "translate_ort_errors what fn s =
     (case fn s of (r, s') \<Rightarrow> (case r of
        Throw e \<Rightarrow> (case e of OrtException m \<Rightarrow> Throw (InferenceError (what @ '': '' @ m)) | _ \<Rightarrow> r)
      | _ \<Rightarrow> r, s'))"
  by (simp add: translate_ort_errors_def split: prod.splits res.splits exn.splits)

lemma ort_lawsD:
  assumes "ort_laws a l"
  shows "ort_quiet a (CreateEnv l)" "ort_quiet a (AppendExecutionProvider_CUDA l po)"
    "ort_quiet a (SetGraphOptimizationLevel l)" "ort_quiet a (CreateSession l path)"
    "ort_quiet a (CreateCpu l)" "ort_quiet a (GetAvailableProviders l)"
    "ort_quiet a (GetInputName l)" "ort_quiet a (GetOutputName l)"
    "ort_quiet a (CudaMemoryInfo l dev)" "ort_quiet a (CreateTensor l n shape)"
    "ort_quiet a (BindInput l name)" "ort_quiet a (BindOutput l name)"
    "ort_quiet a (Run l i out xs shape)" "network_law l" "run_law a l" "bound_law a l"
  using assms by (simp_all add: ort_laws_def session_law_def run_law_def)

section \<open>The bound path\<close>

lemma write_host_view:
  assumes "cuda_laws (api g)" "h \<in> host_live (gview_of g)" "length xs \<le> length (host_data (gview_of g) h)"
    and "inflight (gview_of g) = (\<lambda>_. {})"
  obtains g' where "write_host h xs g = (Ret (), g')" "api g' = api g"
    "gview_of g' = (gview_of g)\<lparr>host_data := (host_data (gview_of g))(h := xs @ drop (length xs) (host_data (gview_of g) h))\<rparr>"
proof -
  have i: "idle (gview_of g) h" using assms(4) by (simp add: idle_def)
  let ?g = "g\<lparr>gst := host_store (api g) h xs (gst g)\<rparr>"
  have v: "gview_of ?g = (gview_of g)\<lparr>host_data := (host_data (gview_of g))(h := xs @ drop (length xs) (host_data (gview_of g) h))\<rparr>"
    using cuda_lawsD(11) [OF assms(1)] assms(2,3) i by (simp add: host_law_def Let_def gview_of_def overwrite_0)
  show thesis by (rule that [OF _ _ v]) (use assms(2,3) i in \<open>simp_all add: write_host_def\<close>)
qed

text \<open>What the bound path needs of its blocks for batches of up to \<open>k\<close> rows.\<close>

definition bound_blocks :: "nat \<Rightarrow> 'g oest \<Rightarrow> bool" where
  "bound_blocks k s \<longleftrightarrow> (let v = gview_of (ogpu s); m = oimpl s in
     dev_ptr (device_input m) \<in> dev_live v \<and> dev_ptr (device_output m) \<in> dev_live v \<and>
     dev_ptr (device_input m) \<noteq> nullptr \<and> dev_ptr (device_input m) \<noteq> dev_ptr (device_output m) \<and>
     pin_ptr (host_input m) \<in> host_live v \<and> pin_ptr (host_output m) \<in> host_live v \<and>
     pin_ptr (host_input m) \<noteq> pin_ptr (host_output m) \<and>
     copy_stream m \<in> stream_live v \<and> inflight v = (\<lambda>_. {}) \<and>
     k * image_elems \<le> length (dev_data v (dev_ptr (device_input m))) \<and>
     k * image_elems \<le> length (host_data v (pin_ptr (host_input m))) \<and>
     k * network_width (ort s) \<le> length (dev_data v (dev_ptr (device_output m))) \<and>
     k * network_width (ort s) \<le> length (host_data v (pin_ptr (host_output m))))"

definition onnx_laws :: "'g oest \<Rightarrow> bool" where
  "onnx_laws s \<longleftrightarrow> cuda_laws (api (ogpu s)) \<and> copies_succeed (api (ogpu s)) \<and> ort_laws (api (ogpu s)) (ort s)"

text \<open>The sizes of a batch of \<open>n\<close> rows padded to \<open>p\<close>.\<close>

definition batch_shape :: "'g oest \<Rightarrow> size_t \<Rightarrow> size_t \<Rightarrow> bool" where
  "batch_shape s n p \<longleftrightarrow> n \<noteq> 0 \<and> n \<le> p \<and> geometry_ok p (ox_input_elems (oopts s)) (ox_output_elems (oopts s)) \<and>
     unat p < 2 ^ 31 \<and> unat (ox_input_elems (oopts s)) = image_elems \<and>
     unat (ox_output_elems (oopts s)) = network_width (ort s) \<and> 0 < network_width (ort s)"

lemma sint_small: "unat (n :: size_t) < 2 ^ 63 \<Longrightarrow> sint n = int (unat n)"
proof -
  assume "unat n < 2 ^ 63"
  then have "uint n < 2 ^ 63" using uint_nat [of n] by (metis of_nat_less_iff of_nat_numeral of_nat_power)
  moreover have "sint n = signed_take_bit 63 (uint n)" by (simp add: sint_uint)
  moreover have "- (2 ^ 63) \<le> uint n" by (rule order_trans [of _ 0]) simp_all
  ultimately have "sint n = uint n" by (simp add: signed_take_bit_int_eq_self)
  then show ?thesis by (simp only: uint_nat)
qed

lemma bytes_of_product:
  fixes p e :: size_t
  assumes "unat p * unat e \<le> vec_max_size"
  shows "unat (p * e) = unat p * unat e" "floats (p * e * 4) = unat p * unat e" "unat (p * e * 4) = unat p * unat e * 4"
proof -
  show u: "unat (p * e) = unat p * unat e" using assms by (intro unat_mult_fits) (simp add: vec_max_size_def)
  have "unat (p * e) \<le> vec_max_size" using assms by (simp only: u)
  then have "unat (p * e * 4) = unat (p * e) * 4" using unat_mult_fits [of "p * e" 4] by (simp add: vec_max_size_def)
  then show v: "unat (p * e * 4) = unat p * unat e * 4" by (simp only: u)
  show "floats (p * e * 4) = unat p * unat e" by (simp add: floats_def v)
qed

lemma batch_shapeD:
  assumes "batch_shape s n p"
  shows "0 < unat n" "unat n \<le> unat p" "0 < unat p"
    "unat (p * ox_input_elems (oopts s)) = unat p * image_elems"
    "floats (p * ox_input_elems (oopts s) * 4) = unat p * image_elems"
    "floats (p * ox_output_elems (oopts s) * 4) = unat p * network_width (ort s)"
    "unat (n * ox_output_elems (oopts s)) = unat n * network_width (ort s)"
    "unat n * network_width (ort s) \<le> vec_max_size" "unat p * network_width (ort s) \<le> vec_max_size"
    "unat p * image_elems \<le> vec_max_size"
    "sint p = int (unat p)" "sint (ox_output_elems (oopts s)) = int (network_width (ort s))"
proof -
  note b = assms [unfolded batch_shape_def]
  show n: "0 < unat n" "unat n \<le> unat p" using b by (simp_all add: unat_gt_0 word_le_nat_alt)
  then show p: "0 < unat p" by simp
  have g: "unat p * unat (ox_input_elems (oopts s)) \<le> vec_max_size" "unat p * unat (ox_output_elems (oopts s)) \<le> vec_max_size"
    using b unfolding geometry_ok_def by blast+
  have gn: "unat n * unat (ox_output_elems (oopts s)) \<le> vec_max_size"
    using mult_le_mono1 [OF n(2)] g(2) by (rule order_trans)
  have w: "unat (ox_output_elems (oopts s)) = network_width (ort s)" and i: "unat (ox_input_elems (oopts s)) = image_elems"
    using b by simp_all
  show "unat (p * ox_input_elems (oopts s)) = unat p * image_elems"
    "floats (p * ox_input_elems (oopts s) * 4) = unat p * image_elems"
    using bytes_of_product [OF g(1)] by (simp_all only: i)
  show "floats (p * ox_output_elems (oopts s) * 4) = unat p * network_width (ort s)"
    using bytes_of_product [OF g(2)] by (simp only: w)
  show "unat (n * ox_output_elems (oopts s)) = unat n * network_width (ort s)"
    using bytes_of_product [OF gn] by (simp only: w)
  show "unat n * network_width (ort s) \<le> vec_max_size" "unat p * network_width (ort s) \<le> vec_max_size"
    "unat p * image_elems \<le> vec_max_size" using gn g by (simp_all only: w i)
  show "sint p = int (unat p)" using b by (intro sint_small) simp
  have "network_width (ort s) \<le> unat p * network_width (ort s)" using p by simp
  from order_trans [OF this g(2) [unfolded w]] have "network_width (ort s) \<le> vec_max_size" .
  then show "sint (ox_output_elems (oopts s)) = int (network_width (ort s))"
    using sint_small [of "ox_output_elems (oopts s)"] by (simp add: w vec_max_size_def)
qed

text \<open>What a batch leaves as it was.\<close>

definition batch_frame :: "'g oest \<Rightarrow> 'g oest \<Rightarrow> bool" where
  "batch_frame s s' \<longleftrightarrow> oeng s' = oeng s \<and> ort s' = ort s \<and> api (ogpu s') = api (ogpu s) \<and>
     same_blocks (gview_of (ogpu s)) (gview_of (ogpu s')) \<and>
     (\<forall>q. q \<noteq> dev_ptr (device_input (oimpl s)) \<longrightarrow> q \<noteq> dev_ptr (device_output (oimpl s)) \<longrightarrow>
        dev_data (gview_of (ogpu s')) q = dev_data (gview_of (ogpu s)) q)"

lemma batch_frame_refl [simp]: "batch_frame s s"
  by (simp add: batch_frame_def same_blocks_def)

lemma batch_frame_trans: "batch_frame s s' \<Longrightarrow> batch_frame s' s'' \<Longrightarrow> batch_frame s s''"
  unfolding batch_frame_def by (auto intro: same_blocks_trans)

lemma undisturbed_frame: "undisturbed s s' \<Longrightarrow> batch_frame s s'"
  by (simp add: undisturbed_def batch_frame_def same_blocks_def)

lemma batch_frameD:
  assumes "batch_frame s s'"
  shows "onnx_laws s' = onnx_laws s" "bound_blocks k s' = bound_blocks k s" "batch_shape s' n p = batch_shape s n p"
  using assms by (simp_all add: batch_frame_def onnx_laws_def bound_blocks_def batch_shape_def same_blocks_def Let_def)

lemma on_device_ok: "m (ogpu s) = (r, g) \<Longrightarrow> on_device m s = (r, s\<lparr>ogpu := g\<rparr>)"
  by (simp add: on_device_def)

text \<open>The run on blocks that hold the staged batch.\<close>

lemma run_bound_call:
  assumes laws: "onnx_laws s" and blocks: "bound_blocks (unat p) s" and shape: "batch_shape s n p"
    and run: "ort_call (\<lambda>l. RunBound l i out (dev_ptr (device_input (oimpl s))) [sint p, 3, 224, 224]
        (dev_ptr (device_output (oimpl s))) [sint p, sint (ox_output_elems (oopts s))]) s = (r, s')"
  shows "batch_frame s s' \<and> host_data (gview_of (ogpu s')) = host_data (gview_of (ogpu s)) \<and>
    dev_data (gview_of (ogpu s')) (dev_ptr (device_input (oimpl s))) =
      dev_data (gview_of (ogpu s)) (dev_ptr (device_input (oimpl s))) \<and>
    (r = Ret () \<and> take (unat p * network_width (ort s)) (dev_data (gview_of (ogpu s')) (dev_ptr (device_output (oimpl s)))) =
        apply_network (ort s) (unat p) (dev_data (gview_of (ogpu s)) (dev_ptr (device_input (oimpl s)))) \<or>
     (\<exists>m. r = Throw (OrtException m)))"
proof -
  let ?a = "api (ogpu s)" and ?d = "dev_ptr (device_input (oimpl s))" and ?o = "dev_ptr (device_output (oimpl s))"
  let ?w = "network_width (ort s)"
  note sh = batch_shapeD [OF shape] and b = blocks [unfolded bound_blocks_def Let_def]
  obtain g where call: "RunBound (ort s) i out ?d [int (unat p), 3, 224, 224] ?o [int (unat p), int ?w] (gst (ogpu s)) = (r, g)"
    and s': "s' = s\<lparr>ogpu := (ogpu s)\<lparr>gst := g\<rparr>\<rparr>"
    using run by (auto simp: ort_call_def sh(11,12) split: prod.splits)
  have idle: "idle (gview_of (ogpu s)) q" for q using b by (simp add: idle_def)
  have "bound_law ?a (ort s)" using laws ort_lawsD(16) by (auto simp: onnx_laws_def)
  from this [unfolded bound_law_def Let_def, rule_format, OF call, folded gview_of_def]
  obtain ys where ys: "length ys = length (dev_data (gview_of (ogpu s)) ?o)"
    "view ?a g = (gview_of (ogpu s))\<lparr>dev_data := (dev_data (gview_of (ogpu s)))(?o := ys)\<rparr>"
    "r = Ret () \<and> take (unat p * ?w) ys = apply_network (ort s) (unat p) (dev_data (gview_of (ogpu s)) ?d) \<or>
     (\<exists>m. r = Throw (OrtException m))"
    using b sh(3) idle by blast
  have "gview_of (ogpu s') = (gview_of (ogpu s))\<lparr>dev_data := (dev_data (gview_of (ogpu s)))(?o := ys)\<rparr>"
    using ys(2) by (simp add: s')
  then show ?thesis using ys(1,3) b by (auto simp: batch_frame_def same_blocks_def s')
qed

text \<open>The readback of the output block.\<close>

lemma readback_ok:
  assumes laws: "onnx_laws s" and blocks: "bound_blocks (unat p) s" and shape: "batch_shape s n p"
    and out: "take (unat p * network_width (ort s)) (dev_data (gview_of (ogpu s)) (dev_ptr (device_output (oimpl s)))) = ys"
  defines "m \<equiv> oimpl s"
  obtains s' where "bound_readback n p s = (Ret (take (unat n * network_width (ort s)) ys), s')"
    "batch_frame s s'" "dev_data (gview_of (ogpu s')) = dev_data (gview_of (ogpu s))"
    "host_data (gview_of (ogpu s')) (pin_ptr (host_input m)) = host_data (gview_of (ogpu s)) (pin_ptr (host_input m))"
proof -
  let ?g = "ogpu s" and ?h = "pin_ptr (host_output m)" and ?o = "dev_ptr (device_output m)" and ?x = "copy_stream m"
  let ?w = "network_width (ort s)"
  note sh = batch_shapeD [OF shape] and b = blocks [unfolded bound_blocks_def Let_def, folded m_def]
  have l: "cuda_laws (api ?g)" "copies_succeed (api ?g)" using laws by (simp_all add: onnx_laws_def)
  have ly: "length ys = unat p * ?w" using out b by (auto simp: m_def)
  obtain g1 where g1: "checked (cudaMemcpyAsyncD2H (api ?g) ?h ?o (p * ox_output_elems (oopts s) * 4) ?x) ''cudaMemcpyAsync (D2H)'' ?g = (Ret (), g1)"
    "api g1 = api ?g" and v1: "gview_of g1 = (gview_of ?g)\<lparr>host_data := (host_data (gview_of ?g))(?h :=
        overwrite 0 (take (floats (p * ox_output_elems (oopts s) * 4)) (dev_data (gview_of ?g) ?o)) (host_data (gview_of ?g) ?h)),
      inflight := (inflight (gview_of ?g))(?x := insert ?o (insert ?h (inflight (gview_of ?g) ?x)))\<rparr>"
    by (rule d2h_ok [OF l, of ?o ?h ?x "p * ox_output_elems (oopts s) * 4"]) (use b sh(6) in \<open>auto simp: exclusive_def\<close>)
  have l1: "cuda_laws (api g1)" "copies_succeed (api g1)" using l g1(2) by simp_all
  obtain g2 where g2: "checked (cudaStreamSynchronize (api g1) ?x) ''cudaStreamSynchronize (post-Run)'' g1 = (Ret (), g2)"
    "api g2 = api g1" "gview_of g2 = (gview_of g1)\<lparr>inflight := (inflight (gview_of g1))(?x := {})\<rparr>"
    by (rule sync_ok [OF l1, of ?x]) (rule that)
  let ?H = "overwrite 0 ys (host_data (gview_of ?g) ?h)"
  have v2: "gview_of g2 = (gview_of ?g)\<lparr>host_data := (host_data (gview_of ?g))(?h := ?H)\<rparr>"
  proof -
    have "(\<lambda>_. {})(?x := {}) = (\<lambda>_. {} :: addr set)" by auto
    moreover have "inflight (gview_of ?g) = (\<lambda>_. {})" using b by blast
    ultimately show ?thesis by (simp add: g2(3) v1 sh(6) out [folded m_def])
  qed
  have tk: "take (unat n * ?w) ?H = take (unat n * ?w) ys"
    using ly sh(2) by (simp add: overwrite_0)
  have lH: "unat n * ?w \<le> length (host_data (gview_of g2) ?h)"
  proof -
    have "unat n * ?w \<le> unat p * ?w" using sh(2) by (rule mult_le_mono1)
    also have "unat p * ?w \<le> length (host_data (gview_of ?g) ?h)" using b by blast
    also have "\<dots> = length ?H" using ly b by simp
    finally show ?thesis by (simp add: v2)
  qed
  have "vec_from_host ?h (n * ox_output_elems (oopts s)) g2 = (Ret (take (unat n * ?w) ?H), g2)"
  proof -
    have "read_host ?h (unat n * ?w) g2 = (Ret (take (unat n * ?w) (host_data (gview_of g2) ?h)), g2)"
      by (rule read_host_ok) (use l1 g2(2) lH b in \<open>auto simp: v2\<close>)
    then show ?thesis using sh(7,8) by (simp add: vec_from_host_def v2)
  qed
  then show thesis
    using g1 g2(1) ly b
    by (intro that [of "s\<lparr>ogpu := g2\<rparr>"])
      (auto simp: bound_readback_def Let_def cbind_def on_device_def tk [unfolded m_def] v2 batch_frame_def same_blocks_def g2(2) m_def)
qed

text \<open>What a bound run may leave, seen from the state before it.\<close>

definition bound_outcome :: "size_t \<Rightarrow> 'g oest \<Rightarrow> f32 list res \<times> 'g oest \<Rightarrow> bool" where
  "bound_outcome n s = (\<lambda>(r, s'). batch_frame s s' \<and>
     host_data (gview_of (ogpu s')) (pin_ptr (host_input (oimpl s))) =
       host_data (gview_of (ogpu s)) (pin_ptr (host_input (oimpl s))) \<and>
     (r = Ret (apply_network (ort s) (unat n) (dev_data (gview_of (ogpu s)) (dev_ptr (device_input (oimpl s))))) \<or>
      (\<exists>m. r = Throw (OrtException m))))"

lemma run_and_readback:
  assumes laws: "onnx_laws s" and blocks: "bound_blocks (unat p) s" and shape: "batch_shape s n p"
    and u: "undisturbed s s1"
  shows "bound_outcome n s (cbind (ort_call (\<lambda>l. RunBound l (input_name (oeng s)) (output_name (oeng s))
      (dev_ptr (device_input (oimpl s))) [sint p, 3, 224, 224]
      (dev_ptr (device_output (oimpl s))) [sint p, sint (ox_output_elems (oopts s))])) (\<lambda>_. bound_readback n p) s1)"
    (is "bound_outcome n s (cbind (ort_call ?run) _ s1)")
proof -
  have e: "oeng s1 = oeng s" "ort s1 = ort s" "gview_of (ogpu s1) = gview_of (ogpu s)" "batch_frame s s1"
    using u undisturbed_frame by (auto simp: undisturbed_def)
  note f1 = batch_frameD [OF e(4)]
  obtain r2 s2 where c: "ort_call ?run s1 = (r2, s2)" by fastforce
  note rb = run_bound_call [of s1 p n "input_name (oeng s)" "output_name (oeng s)" r2 s2, unfolded f1 e(1-3), OF laws blocks shape c]
  then have f2: "batch_frame s1 s2" and h2: "host_data (gview_of (ogpu s2)) = host_data (gview_of (ogpu s))" by blast+
  then have e2: "oeng s2 = oeng s" "ort s2 = ort s" using e by (simp_all add: batch_frame_def)
  show ?thesis
  proof (cases r2)
    case (Ret x)
    let ?xs = "dev_data (gview_of (ogpu s)) (dev_ptr (device_input (oimpl s)))"
    let ?ys = "apply_network (ort s) (unat p) ?xs"
    have out: "take (unat p * network_width (ort s)) (dev_data (gview_of (ogpu s2)) (dev_ptr (device_output (oimpl s)))) = ?ys"
      using rb Ret by auto
    obtain s3 where s3: "bound_readback n p s2 = (Ret (take (unat n * network_width (ort s)) ?ys), s3)" "batch_frame s2 s3"
      "host_data (gview_of (ogpu s3)) (pin_ptr (host_input (oimpl s))) = host_data (gview_of (ogpu s2)) (pin_ptr (host_input (oimpl s)))"
      by (rule readback_ok [of s2 p n ?ys, unfolded batch_frameD [OF f2] f1 e2, OF laws blocks shape out]) (rule that)
    have n: "unat n \<le> unat p" using batch_shapeD(2) [OF shape] .
    have "unat n * image_elems \<le> length ?xs"
      by (rule order_trans [OF mult_le_mono1 [OF n]]) (use blocks in \<open>simp add: bound_blocks_def Let_def\<close>)
    then have "take (unat n * network_width (ort s)) ?ys = apply_network (ort s) (unat n) ?xs"
      by (intro take_apply_network n) (use laws ort_lawsD(14) in \<open>auto simp: onnx_laws_def\<close>)
    moreover have "cbind (ort_call ?run) (\<lambda>_. bound_readback n p) s1 = bound_readback n p s2" using c Ret by (simp only: cbind_Ret)
    ultimately show ?thesis using s3 h2 batch_frame_trans [OF e(4) batch_frame_trans [OF f2 s3(2)]] by (simp add: bound_outcome_def)
  next
    case (Throw x)
    then obtain m where "r2 = Throw (OrtException m)" using rb by blast
    with c have "cbind (ort_call ?run) (\<lambda>_. bound_readback n p) s1 = (Throw (OrtException m), s2)" by (simp only: cbind_Throw)
    then show ?thesis using h2 batch_frame_trans [OF e(4) f2] by (simp add: bound_outcome_def)
  qed (use rb in blast)+
qed

lemma bound_session_run_cases:
  assumes laws: "onnx_laws s" and blocks: "bound_blocks (unat p) s" and shape: "batch_shape s n p"
    and run: "bound_session_run n p s = (r, s')"
  shows "batch_frame s s' \<and> host_data (gview_of (ogpu s')) (pin_ptr (host_input (oimpl s))) =
      host_data (gview_of (ogpu s)) (pin_ptr (host_input (oimpl s))) \<and>
    (r = Ret (apply_network (ort s) (unat n) (dev_data (gview_of (ogpu s)) (dev_ptr (device_input (oimpl s))))) \<or>
     (\<exists>m. r = Throw (OrtException m)))"
proof -
  have "ort_laws (api (ogpu s)) (ort s)" using laws by (simp add: onnx_laws_def)
  note q = ort_lawsD(10-12) [OF this]
  have fail: "bound_outcome n s (Throw (OrtException m), s1)" if "undisturbed s s1" for m s1
    using that undisturbed_frame [OF that] by (simp add: undisturbed_def bound_outcome_def)
  have step: "bound_outcome n s (cbind (ort_call f) (\<lambda>_. k) s1)"
    if "ort_quiet (api (ogpu s)) (f (ort s))" "\<And>s1. undisturbed s s1 \<Longrightarrow> bound_outcome n s (k s1)" "undisturbed s s1"
    for f :: "'a ort_api \<Rightarrow> 'a \<Rightarrow> unit res \<times> 'a" and k s1
  proof (rule ort_call_bind [of s1 f "bound_outcome n s"])
    show "ort_quiet (api (ogpu s1)) (f (ort s1))" using that(1,3) by (simp add: undisturbed_def)
    show "bound_outcome n s (Throw (OrtException m), s2)" if "undisturbed s1 s2" for m s2
      by (rule fail) (rule undisturbed_trans [OF \<open>undisturbed s s1\<close> that])
    show "bound_outcome n s (k s2)" if "undisturbed s1 s2" for s2
      by (rule \<open>\<And>s1. undisturbed s s1 \<Longrightarrow> bound_outcome n s (k s1)\<close>) (rule undisturbed_trans [OF \<open>undisturbed s s1\<close> that])
  qed
  have "bound_outcome n s (bound_session_run n p s)"
    unfolding bound_session_run_def Let_def
    by (intro step run_and_readback [OF laws blocks shape] q undisturbed_refl)
  with run show ?thesis by (simp add: bound_outcome_def)
qed

subsection \<open>Staging\<close>

text \<open>The constants of the normalisation are in place, in blocks the batches leave alone.\<close>

definition normalization_ready :: "'g oest \<Rightarrow> bool" where
  "normalization_ready s \<longleftrightarrow> (ox_normalize_on_device (oopts s) \<longrightarrow>
     (let v = gview_of (ogpu s); m = oimpl s; opts = oopts s in
      dev_ptr (device_mean m) \<in> dev_live v \<and> dev_ptr (device_stddev m) \<in> dev_live v \<and>
      dev_ptr (device_mean m) \<noteq> nullptr \<and> dev_ptr (device_stddev m) \<noteq> nullptr \<and>
      {dev_ptr (device_mean m), dev_ptr (device_stddev m)} \<inter> {dev_ptr (device_input m), dev_ptr (device_output m)} = {} \<and>
      dev_data v (dev_ptr (device_mean m)) = ox_mean opts \<and> dev_data v (dev_ptr (device_stddev m)) = ox_stddev opts \<and>
      length (ox_stddev opts) = length (ox_mean opts) \<and> ox_mean opts \<noteq> [] \<and> length (ox_mean opts) < 2 ^ 31 \<and>
      length (ox_mean opts) dvd unat (ox_input_elems opts)))"

lemma normalization_ready_frame:
  assumes "batch_frame s s'" "normalization_ready s"
  shows "normalization_ready s'"
proof -
  let ?m = "dev_ptr (device_mean (oimpl s))" and ?t = "dev_ptr (device_stddev (oimpl s))"
  have e: "oeng s' = oeng s" "dev_live (gview_of (ogpu s')) = dev_live (gview_of (ogpu s))"
    and d: "\<And>q. q \<notin> {dev_ptr (device_input (oimpl s)), dev_ptr (device_output (oimpl s))} \<Longrightarrow>
      dev_data (gview_of (ogpu s')) q = dev_data (gview_of (ogpu s)) q"
    using assms(1) by (simp_all add: batch_frame_def same_blocks_def)
  show ?thesis
    unfolding normalization_ready_def Let_def e
  proof (rule impI)
    assume "ox_normalize_on_device (oopts s)"
    note nr = assms(2) [unfolded normalization_ready_def Let_def, rule_format, OF this]
    then have "dev_data (gview_of (ogpu s')) ?m = dev_data (gview_of (ogpu s)) ?m"
      "dev_data (gview_of (ogpu s')) ?t = dev_data (gview_of (ogpu s)) ?t"
      by (intro d; blast)+
    then show "?m \<in> dev_live (gview_of (ogpu s)) \<and> ?t \<in> dev_live (gview_of (ogpu s)) \<and> ?m \<noteq> nullptr \<and> ?t \<noteq> nullptr \<and>
      {?m, ?t} \<inter> {dev_ptr (device_input (oimpl s)), dev_ptr (device_output (oimpl s))} = {} \<and>
      dev_data (gview_of (ogpu s')) ?m = ox_mean (oopts s) \<and> dev_data (gview_of (ogpu s')) ?t = ox_stddev (oopts s) \<and>
      length (ox_stddev (oopts s)) = length (ox_mean (oopts s)) \<and> ox_mean (oopts s) \<noteq> [] \<and>
      length (ox_mean (oopts s)) < 2 ^ 31 \<and> length (ox_mean (oopts s)) dvd unat (ox_input_elems (oopts s))"
      using nr by (simp only:) blast
  qed
qed

lemma fits_launch: "x \<le> vec_max_size \<Longrightarrow> x + kBlockSize * kMaxBlocks \<le> 2 ^ 63"
  by (simp add: vec_max_size_def kBlockSize_def kMaxBlocks_def)

text \<open>What a row is turned into before the network sees it.\<close>

definition onnx_prepared :: "OnnxOptions \<Rightarrow> f32 list \<Rightarrow> f32 list" where
  "onnx_prepared opts r =
     (if ox_normalize_on_device opts
      then norm_row (unat (ox_input_elems opts div vsize (ox_mean opts))) (ox_mean opts) (ox_stddev opts) r else r)"

lemma normalization_shape:
  assumes "normalization_ready s" "ox_normalize_on_device (oopts s)" "batch_shape s n p"
  defines "c \<equiv> length (ox_mean (oopts s))"
    and "hw \<equiv> unat (ox_input_elems (oopts s) div vsize (ox_mean (oopts s)))"
  shows "0 < c" "0 < hw" "image_elems = c * hw" "vsize (ox_mean (oopts s)) \<noteq> 0"
    "sint (ucast p :: i32) = int (unat p)" "sint (ucast (vsize (ox_mean (oopts s))) :: i32) = int c"
    "sint (ucast (ox_input_elems (oopts s) div vsize (ox_mean (oopts s))) :: i32) = int hw"
    "unat p * c * hw + kBlockSize * kMaxBlocks \<le> 2 ^ 63"
proof -
  note nr = assms(1) [unfolded normalization_ready_def Let_def, rule_format, OF assms(2)]
  have ie: "unat (ox_input_elems (oopts s)) = image_elems" using assms(3) by (simp add: batch_shape_def)
  show c0: "0 < c" using nr by (simp add: c_def)
  have cb: "c < 2 ^ 31" using nr by (simp add: c_def)
  then have c: "unat (vsize (ox_mean (oopts s))) = c" unfolding c_def by (intro unat_vsize) simp
  then show "vsize (ox_mean (oopts s)) \<noteq> 0" using c0 by auto
  have "c dvd image_elems" using nr by (simp add: c_def ie)
  moreover have "image_elems div c = hw" by (simp only: unat_div c ie hw_def)
  ultimately show im: "image_elems = c * hw" using dvd_mult_div_cancel [of c image_elems] by simp
  then show h0: "0 < hw" by (cases hw) (simp_all add: image_elems_def)
  have "hw \<le> image_elems" using c0 by (simp add: im)
  then have hb: "hw < 2 ^ 31" by (simp add: image_elems_def)
  show "sint (ucast p :: i32) = int (unat p)" using assms(3) by (intro sint_int_cast) (simp add: batch_shape_def)
  show "sint (ucast (vsize (ox_mean (oopts s))) :: i32) = int c" using sint_int_cast [of "vsize (ox_mean (oopts s))"] cb by (simp add: c)
  show "sint (ucast (ox_input_elems (oopts s) div vsize (ox_mean (oopts s))) :: i32) = int hw"
    using sint_int_cast [of "ox_input_elems (oopts s) div vsize (ox_mean (oopts s))"] hb by (simp add: hw_def)
  have "unat p * c * hw \<le> vec_max_size" using batch_shapeD(10) [OF assms(3)] by (simp only: im mult.assoc)
  then show "unat p * c * hw + kBlockSize * kMaxBlocks \<le> 2 ^ 63" by (rule fits_launch)
qed

text \<open>The optional kernel turns the uploaded rows into prepared rows.\<close>

definition prepare_rows :: "size_t \<Rightarrow> 'g oest \<Rightarrow> ('g oest, unit) cmd" where
  "prepare_rows p s0 =
     (if ox_normalize_on_device (oopts s0)
      then if vsize (ox_mean (oopts s0)) = 0 then (\<lambda>s. (Undef, s))
        else on_device (launch_normalize (dev_ptr (device_input (oimpl s0))) (ucast p)
          (ucast (vsize (ox_mean (oopts s0)))) (ucast (ox_input_elems (oopts s0) div vsize (ox_mean (oopts s0))))
          (dev_ptr (device_mean (oimpl s0))) (dev_ptr (device_stddev (oimpl s0))) (copy_stream (oimpl s0)))
      else cret ())"

lemma prepare_rows_ok:
  assumes laws: "onnx_laws s" and norm: "normalization_ready s" and shape: "batch_shape s n p"
    and g: "api g = api (ogpu s)" and T: "length T = unat p * image_elems"
    and blk: "dev_ptr (device_input (oimpl s)) \<in> dev_live (gview_of (ogpu s))" "dev_ptr (device_input (oimpl s)) \<noteq> nullptr"
      "copy_stream (oimpl s) \<in> stream_live (gview_of (ogpu s))"
    and v: "gview_of g = (gview_of (ogpu s))\<lparr>host_data := h, dev_data := (dev_data (gview_of (ogpu s)))(dev_ptr (device_input (oimpl s)) := T @ Z),
      inflight := (\<lambda>_. {})(copy_stream (oimpl s) := F)\<rparr>"
  obtains g' N F' where "prepare_rows p s (s\<lparr>ogpu := g\<rparr>) = (Ret (), s\<lparr>ogpu := g'\<rparr>)" "api g' = api (ogpu s)"
    "length N = length T" "rows image_elems (unat p) N = map (onnx_prepared (oopts s)) (rows image_elems (unat p) T)"
    "gview_of g' = (gview_of (ogpu s))\<lparr>host_data := h, dev_data := (dev_data (gview_of (ogpu s)))(dev_ptr (device_input (oimpl s)) := N @ Z),
      inflight := (\<lambda>_. {})(copy_stream (oimpl s) := F')\<rparr>"
proof (cases "ox_normalize_on_device (oopts s)")
  case False
  have "map (onnx_prepared (oopts s)) = (\<lambda>xs. xs)" using False by (simp add: onnx_prepared_def fun_eq_iff map_idI)
  with False v g show thesis by (intro that [of g T F]) (simp_all add: prepare_rows_def cret_def)
next
  case True
  note sh = normalization_shape [OF norm True shape]
  note nr = norm [unfolded normalization_ready_def Let_def, rule_format, OF True]
  let ?c = "length (ox_mean (oopts s))" and ?hw = "unat (ox_input_elems (oopts s) div vsize (ox_mean (oopts s)))"
  let ?d = "dev_ptr (device_input (oimpl s))" and ?m = "dev_ptr (device_mean (oimpl s))" and ?t = "dev_ptr (device_stddev (oimpl s))"
  let ?E = "unat p * ?c * ?hw"
  have E: "?E = length T" "unat p * (?c * ?hw) = length T" using T by (simp_all only: sh(3) mult.assoc)
  have l: "cuda_laws (api g)" "copies_succeed (api g)" using laws g by (simp_all add: onnx_laws_def)
  obtain r g' where L: "launch_normalize ?d (ucast p) (ucast (vsize (ox_mean (oopts s))))
      (ucast (ox_input_elems (oopts s) div vsize (ox_mean (oopts s)))) ?m ?t (copy_stream (oimpl s)) g = (r, g')"
    by fastforce
  have "launchable (gview_of g) ?E ?c ?d ?m ?t (copy_stream (oimpl s))"
    unfolding launchable_def E(1) using nr blk by (auto simp: v exclusive_def)
  note lr = launch_normalize_runs [OF l(1) sh(5-7) batch_shapeD(3) [OF shape] sh(1,2) refl sh(8) this L]
  let ?N = "normalize_ref (length T) ?c ?hw T (ox_mean (oopts s)) (ox_stddev (oopts s))"
  have "normalize_ref ?E ?c ?hw (T @ Z) (ox_mean (oopts s)) (ox_stddev (oopts s)) = ?N @ Z"
    by (simp only: E(1) normalize_ref_prefix)
  with lr nr have v': "gview_of g' = (gview_of (ogpu s))\<lparr>host_data := h, dev_data := (dev_data (gview_of (ogpu s)))(?d := ?N @ Z),
      inflight := (\<lambda>_. {})(copy_stream (oimpl s) := {?d, ?m, ?t} \<union> F)\<rparr>"
    using l(2) by (auto simp: v)
  have "rows image_elems (unat p) ?N = map (onnx_prepared (oopts s)) (rows image_elems (unat p) T)"
  proof -
    have "onnx_prepared (oopts s) = norm_row ?hw (ox_mean (oopts s)) (ox_stddev (oopts s))"
      using True by (simp add: onnx_prepared_def fun_eq_iff)
    then show ?thesis
      using normalized_rows(2) [OF E(2) [symmetric] sh(2) refl, of "ox_stddev (oopts s)"] by (simp only: E(2) sh(3))
  qed
  with v' lr(1,3) l(2) L True sh(4) g show thesis
    by (intro that [of g' ?N "{?d, ?m, ?t} \<union> F"]) (simp_all add: prepare_rows_def on_device_def length_normalize_ref)
qed

text \<open>The rows of the requests come first in the staged block, whatever follows them.\<close>

lemma staged_rows:
  assumes le: "n \<le> p" and xs: "length xs = n * w" and T: "length (take (p * w) (xs @ zs)) = p * w"
    and N: "length N = p * w" "rows w p N = map f (rows w p (take (p * w) (xs @ zs)))"
  shows "rows w n (N @ Z) = map f (rows w n xs)"
proof -
  have "rows w n (N @ Z) = take n (rows w p (N @ Z))" by (rule take_rows [OF le, symmetric])
  also have "\<dots> = map f (take n (rows w p (take (p * w) (xs @ zs))))"
    using rows_prefix [of p w N Z] N by (simp only: take_map order_refl)
  also have "take n (rows w p (take (p * w) (xs @ zs))) = rows w n (take (p * w) (xs @ zs))" by (rule take_rows [OF le])
  also have "take (p * w) (xs @ zs) = xs @ take (p * w - length xs) zs" using mult_le_mono1 [OF le, of w] xs by simp
  also have "rows w n \<dots> = rows w n xs" using xs by (intro rows_prefix) simp
  finally show ?thesis .
qed

lemma stage_input_ok:
  assumes laws: "onnx_laws s" and norm: "normalization_ready s" and shape: "batch_shape s n p"
    and blocks: "bound_blocks (unat p) s" and xs: "length xs = unat n * image_elems"
  obtains s' where "stage_input xs p s = (Ret (), s')" "batch_frame s s'"
    "host_data (gview_of (ogpu s')) (pin_ptr (host_input (oimpl s))) =
       xs @ drop (length xs) (host_data (gview_of (ogpu s)) (pin_ptr (host_input (oimpl s))))"
    "rows image_elems (unat n) (dev_data (gview_of (ogpu s')) (dev_ptr (device_input (oimpl s)))) =
       map (onnx_prepared (oopts s)) (rows image_elems (unat n) xs)"
proof -
  let ?g = "ogpu s" and ?h = "pin_ptr (host_input (oimpl s))" and ?d = "dev_ptr (device_input (oimpl s))"
  let ?x = "copy_stream (oimpl s)" and ?b = "p * ox_input_elems (oopts s) * 4" and ?E = "unat p * image_elems"
  note sh = batch_shapeD [OF shape] and b = blocks [unfolded bound_blocks_def Let_def]
  have l: "cuda_laws (api ?g)" "copies_succeed (api ?g)" using laws by (simp_all add: onnx_laws_def)
  have fl: "inflight (gview_of ?g) = (\<lambda>_. {})" and hl: "?h \<in> host_live (gview_of ?g)" and dl: "?d \<in> dev_live (gview_of ?g)"
    and xl: "?x \<in> stream_live (gview_of ?g)" and d0: "?d \<noteq> nullptr"
    and lh: "?E \<le> length (host_data (gview_of ?g) ?h)" and ld: "?E \<le> length (dev_data (gview_of ?g) ?d)" using b by blast+
  have lx: "length xs \<le> ?E" unfolding xs by (rule mult_le_mono1) (rule sh(2))
  let ?H = "xs @ drop (length xs) (host_data (gview_of ?g) ?h)"
  have lH: "length ?H = length (host_data (gview_of ?g) ?h)" using lx lh by simp
  obtain g1 where g1: "write_host ?h xs ?g = (Ret (), g1)" "api g1 = api ?g"
    and v1: "gview_of g1 = (gview_of ?g)\<lparr>host_data := (host_data (gview_of ?g))(?h := ?H)\<rparr>"
    by (rule write_host_view [OF l(1) hl order_trans [OF lx lh] fl]) (rule that)
  let ?T = "take ?E ?H" and ?Z = "drop ?E (dev_data (gview_of ?g) ?d)"
  have l1: "cuda_laws (api g1)" "copies_succeed (api g1)" using l g1(2) by simp_all
  obtain g2 where g2: "checked (cudaMemcpyAsyncH2D (api g1) ?d ?h ?b ?x) ''cudaMemcpyAsync (H2D)'' g1 = (Ret (), g2)"
    "api g2 = api g1" and v2: "gview_of g2 = (gview_of g1)\<lparr>dev_data := (dev_data (gview_of g1))(?d :=
        overwrite 0 (take (floats ?b) (host_data (gview_of g1) ?h)) (dev_data (gview_of g1) ?d)),
      inflight := (inflight (gview_of g1))(?x := insert ?d (insert ?h (inflight (gview_of g1) ?x)))\<rparr>"
    by (rule h2d_ok [OF l1, of ?d ?h ?x ?b]) (use hl dl xl fl lh ld lH in \<open>simp_all add: v1 sh(5) exclusive_def\<close>)
  have T: "length ?T = ?E" using lh lH by simp
  have v2': "gview_of g2 = (gview_of ?g)\<lparr>host_data := (host_data (gview_of ?g))(?h := ?H),
      dev_data := (dev_data (gview_of ?g))(?d := ?T @ ?Z), inflight := (\<lambda>_. {})(?x := {?d, ?h})\<rparr>"
    using T by (simp add: v2 v1 sh(5) fl overwrite_0 del: take_append)
  have g2': "api g2 = api ?g" using g2(2) g1(2) by simp
  obtain g3 N F where g3: "prepare_rows p s (s\<lparr>ogpu := g2\<rparr>) = (Ret (), s\<lparr>ogpu := g3\<rparr>)" "api g3 = api ?g"
    "length N = length ?T" "rows image_elems (unat p) N = map (onnx_prepared (oopts s)) (rows image_elems (unat p) ?T)"
    and v3: "gview_of g3 = (gview_of ?g)\<lparr>host_data := (host_data (gview_of ?g))(?h := ?H),
      dev_data := (dev_data (gview_of ?g))(?d := N @ ?Z), inflight := (\<lambda>_. {})(?x := F)\<rparr>"
    by (rule prepare_rows_ok [OF laws norm shape g2' T dl d0 xl v2']) (rule that)
  have l3: "cuda_laws (api g3)" "copies_succeed (api g3)" using l g3(2) by simp_all
  obtain g4 where g4: "checked (cudaStreamSynchronize (api g3) ?x) ''cudaStreamSynchronize (pre-Run)'' g3 = (Ret (), g4)"
    "api g4 = api g3" "gview_of g4 = (gview_of g3)\<lparr>inflight := (inflight (gview_of g3))(?x := {})\<rparr>"
    by (rule sync_ok [OF l3, of ?x]) (rule that)
  have v4: "gview_of g4 = (gview_of ?g)\<lparr>host_data := (host_data (gview_of ?g))(?h := ?H),
      dev_data := (dev_data (gview_of ?g))(?d := N @ ?Z)\<rparr>"
  proof -
    have "(\<lambda>_. {})(?x := {}) = (\<lambda>_. {} :: addr set)" by auto
    then show ?thesis using fl by (simp add: g4(3) v3)
  qed
  have st: "stage_input xs p s = (Ret (), s\<lparr>ogpu := g4\<rparr>)"
    using g1(1) g2(1) g3(1) g4(1)
    by (simp add: stage_input_def prepare_rows_def [symmetric] Let_def cbind_def on_device_def)
  have "rows image_elems (unat n) (N @ ?Z) = map (onnx_prepared (oopts s)) (rows image_elems (unat n) xs)"
    by (rule staged_rows [OF sh(2) xs T]) (use g3(3,4) T in \<open>simp_all only:\<close>)
  moreover have "batch_frame s (s\<lparr>ogpu := g4\<rparr>)"
  proof -
    have "length N = ?E" using g3(3) T by (simp only:)
    then have "length (N @ ?Z) = length (dev_data (gview_of ?g) ?d)" using ld by simp
    with lH show ?thesis
      using g4(2) g3(2) by (simp add: batch_frame_def same_blocks_def v4 del: length_append length_drop)
  qed
  ultimately show thesis using st by (intro that [of "s\<lparr>ogpu := g4\<rparr>"]) (simp_all add: v4)
qed

text \<open>What the network answers for one row of a request.\<close>

definition onnx_row :: "'g oest \<Rightarrow> size_t \<Rightarrow> size_t \<Rightarrow> f32 list \<Rightarrow> f32 list" where
  "onnx_row s ie oe r = network (ort s) (onnx_prepared (oopts s) r)"

lemma apply_network_rows:
  assumes "rows image_elems n ys = map (onnx_prepared (oopts s)) (rows image_elems n xs)"
  shows "apply_network (ort s) n ys = concat (map (onnx_row s ie oe) (rows image_elems n xs))"
proof -
  have "onnx_row s ie oe = network (ort s) \<circ> onnx_prepared (oopts s)" by (rule ext) (simp add: onnx_row_def)
  then show ?thesis by (simp add: apply_network_def assms)
qed

lemma run_bound_cases:
  assumes laws: "onnx_laws s" and norm: "normalization_ready s" and shape: "batch_shape s n p"
    and blocks: "bound_blocks (unat p) s" and xs: "length xs = unat n * image_elems"
    and run: "run_bound xs n p s = (r, s')"
  shows "batch_frame s s' \<and> host_data (gview_of (ogpu s')) (pin_ptr (host_input (oimpl s))) =
      xs @ drop (length xs) (host_data (gview_of (ogpu s)) (pin_ptr (host_input (oimpl s)))) \<and>
    (r = Ret (concat (map (onnx_row s ie oe) (rows image_elems (unat n) xs))) \<or> (\<exists>m. r = Throw (InferenceError m)))"
proof -
  obtain s1 where s1: "stage_input xs p s = (Ret (), s1)" "batch_frame s s1"
    "host_data (gview_of (ogpu s1)) (pin_ptr (host_input (oimpl s))) =
       xs @ drop (length xs) (host_data (gview_of (ogpu s)) (pin_ptr (host_input (oimpl s))))"
    "rows image_elems (unat n) (dev_data (gview_of (ogpu s1)) (dev_ptr (device_input (oimpl s)))) =
       map (onnx_prepared (oopts s)) (rows image_elems (unat n) xs)"
    by (rule stage_input_ok [OF laws norm shape blocks xs]) (rule that)
  have e: "oeng s1 = oeng s" "ort s1 = ort s" using s1(2) by (simp_all add: batch_frame_def)
  obtain r2 s2 where b: "bound_session_run n p s1 = (r2, s2)" by fastforce
  note bc = bound_session_run_cases [of s1 p n, unfolded batch_frameD [OF s1(2)] e, OF laws blocks shape b]
  have s': "s' = s2"
    and r: "r = (case r2 of Throw x \<Rightarrow> (case x of OrtException m \<Rightarrow>
        Throw (InferenceError (''ONNX Runtime inference failed (bound)'' @ '': '' @ m)) | _ \<Rightarrow> r2) | _ \<Rightarrow> r2)"
    using run s1(1) b by (simp_all add: run_bound_def cbind_Ret translate_cases)
  have fr: "batch_frame s s2" using bc batch_frame_trans [OF s1(2)] by blast
  have hd: "host_data (gview_of (ogpu s2)) (pin_ptr (host_input (oimpl s))) =
      host_data (gview_of (ogpu s1)) (pin_ptr (host_input (oimpl s)))" using bc by blast
  from bc consider "r2 = Ret (apply_network (ort s) (unat n) (dev_data (gview_of (ogpu s1)) (dev_ptr (device_input (oimpl s)))))"
    | m where "r2 = Throw (OrtException m)" by blast
  then have "r = Ret (concat (map (onnx_row s ie oe) (rows image_elems (unat n) xs))) \<or> (\<exists>m. r = Throw (InferenceError m))"
    by cases (simp_all add: r apply_network_rows [OF s1(4)])
  then show ?thesis using fr s1(3) by (simp add: s' hd)
qed

section \<open>The host path\<close>

lemma padded_input_ok:
  assumes shape: "batch_shape s n p" and xs: "length xs = unat n * image_elems"
  obtains zs where "padded_input xs n p (ox_input_elems (oopts s)) = Ret (xs @ zs)" "length (xs @ zs) = unat p * image_elems"
proof (cases "p = n")
  case True
  with xs show thesis by (intro that [of "[]"]) (simp_all add: padded_input_def)
next
  case False
  note sh = batch_shapeD [OF shape]
  let ?E = "unat p * image_elems"
  have lx: "length xs \<le> ?E" unfolding xs by (rule mult_le_mono1) (rule sh(2))
  have "vec_filled (p * ox_input_elems (oopts s)) fzero = Ret (replicate ?E fzero)"
    using sh(10) by (simp add: vec_filled_def sh(4))
  moreover have "vec_copy_to xs (replicate ?E fzero) 0 = Ret (xs @ replicate (?E - length xs) fzero)"
    using lx by (simp add: vec_copy_to_def overwrite_0)
  ultimately show thesis
    using False lx by (intro that [of "replicate (?E - length xs) fzero"]) (simp_all add: padded_input_def)
qed

lemma host_outputs_ok:
  assumes shape: "batch_shape s n p" and ys: "length ys = unat p * network_width (ort s)"
  shows "host_outputs n p (ox_output_elems (oopts s)) [Some ys] = Ret (take (unat n * network_width (ort s)) ys)"
proof -
  note sh = batch_shapeD [OF shape]
  have "length ys < 2 ^ 64" using sh(9) ys by (simp add: vec_max_size_def)
  moreover have "unat (p * ox_output_elems (oopts s)) = length ys"
    using bytes_of_product(1) [of p "ox_output_elems (oopts s)"] shape sh(9) ys by (simp add: batch_shape_def)
  ultimately have "vsize ys = p * ox_output_elems (oopts s)" by (simp add: vsize_eq_iff)
  moreover have "unat n * network_width (ort s) \<le> length ys" unfolding ys by (rule mult_le_mono1) (rule sh(2))
  ultimately show ?thesis
    using sh(8) by (simp add: host_outputs_def Let_def vec_from_tensor_def vec_slice_def sh(7) word_le_nat_alt)
qed

lemma run_host_cases:
  assumes laws: "onnx_laws s" and shape: "batch_shape s n p" and xs: "length xs = unat n * image_elems"
    and run: "run_host xs n p s = (r, s')"
  shows "undisturbed s s' \<and> (r = Ret (apply_network (ort s) (unat n) xs) \<or> (\<exists>m. r = Throw (InferenceError m)))"
proof -
  note sh = batch_shapeD [OF shape]
  have ol: "ort_laws (api (ogpu s)) (ort s)" using laws by (simp add: onnx_laws_def)
  obtain zs where zs: "padded_input xs n p (ox_input_elems (oopts s)) = Ret (xs @ zs)" "length (xs @ zs) = unat p * image_elems"
    by (rule padded_input_ok [OF shape xs]) (rule that)
  let ?shape = "[int (unat p), 3, 224, 224]"
  let ?run = "\<lambda>l. Run l (input_name (oeng s)) (output_name (oeng s)) (xs @ zs) ?shape"
  let ?tail = "cbind (ort_call ?run) (\<lambda>outputs s1. (host_outputs n p (ox_output_elems (oopts s)) outputs, s1))"
  let ?P = "\<lambda>(r, s'). undisturbed s s' \<and> (r = Ret (apply_network (ort s) (unat n) xs) \<or> (\<exists>m. r = Throw (OrtException m)))"
  have nl: "network_law (ort s)" and rl: "run_law (api (ogpu s)) (ort s)" using ort_lawsD(14,15) [OF ol] .
  have t: "?P (?tail s1)" if u: "undisturbed s s1" for s1
  proof -
    have e: "api (ogpu s1) = api (ogpu s)" "ort s1 = ort s" using u by (simp_all add: undisturbed_def)
    have "ort_quiet (api (ogpu s1)) (?run (ort s1))" unfolding e by (rule ort_lawsD(13) [OF ol])
    then show ?thesis
    proof (cases rule: ort_call_cases)
      case (1 x s2)
      then obtain g where "?run (ort s) (gst (ogpu s1)) = (Ret x, g)" by (auto simp: ort_call_def e split: prod.splits)
      with rl sh(3) zs(2) have x: "x = [Some (apply_network (ort s) (unat p) (xs @ zs))]" unfolding run_law_def by blast
      have "host_outputs n p (ox_output_elems (oopts s)) x =
          Ret (take (unat n * network_width (ort s)) (apply_network (ort s) (unat p) (xs @ zs)))"
        unfolding x by (rule host_outputs_ok [OF shape length_apply_network [OF nl]]) (simp only: zs(2) order_refl)
      also have "\<dots> = Ret (apply_network (ort s) (unat n) xs)"
        using take_apply_network [OF nl sh(2), of "xs @ zs"] apply_network_prefix [of "unat n" xs "ort s" zs] xs by simp
      finally show ?thesis using 1 undisturbed_trans [OF u 1(2)] by (simp add: cbind_Ret)
    next
      case (2 m s2)
      then show ?thesis using undisturbed_trans [OF u 2(2)] by (simp add: cbind_Throw)
    qed
  qed
  have "?P (cbind (ort_call (\<lambda>l. CreateTensor l (p * ox_input_elems (oopts s)) ?shape)) (\<lambda>_. ?tail) s)"
    by (rule ort_call_bind, rule ort_lawsD(10) [OF ol], erule t) simp
  moreover obtain r1 s1 where "cbind (ort_call (\<lambda>l. CreateTensor l (p * ox_input_elems (oopts s)) ?shape)) (\<lambda>_. ?tail) s = (r1, s1)"
    by fastforce
  ultimately show ?thesis
    using run zs(1) by (auto simp: run_host_def Let_def cbind_Ret translate_cases sh(11))
qed

section \<open>The invariant\<close>

text \<open>
  When the bound path is in use its blocks hold the largest bucket; normalisation on the device is
  never on without it.
\<close>

definition onnx_ready :: "'g oest \<Rightarrow> bool" where
  "onnx_ready s \<longleftrightarrow> onnx_laws s \<and> sorted (ox_batch_buckets (oopts s)) \<and>
     (ox_normalize_on_device (oopts s) \<longrightarrow> io_binding_active (oeng s)) \<and>
     (io_binding_active (oeng s) \<longrightarrow> normalization_ready s)"

text \<open>
  The batches it serves: rows of one image and of the network's width, whose padded form fits a
  vector and an \<open>int\<close>; with normalisation on the device also no larger than the largest bucket.
\<close>

definition onnx_serves :: "'g oest \<Rightarrow> size_t \<Rightarrow> size_t \<Rightarrow> size_t \<Rightarrow> bool" where
  "onnx_serves s n ie oe \<longleftrightarrow> (let opts = oopts s; p = onnx_bucket_for opts n in
     ie = ox_input_elems opts \<and> oe = ox_output_elems opts \<and> unat ie = image_elems \<and>
     unat oe = network_width (ort s) \<and> 0 < network_width (ort s) \<and>
     geometry_ok p ie oe \<and> unat p < 2 ^ 31 \<and>
     (io_binding_active (oeng s) \<longrightarrow> ox_batch_buckets opts \<noteq> [] \<longrightarrow>
        bound_blocks (unat (last (ox_batch_buckets opts))) s) \<and>
     (ox_normalize_on_device opts \<longrightarrow> ox_batch_buckets opts \<noteq> [] \<and> n \<le> last (ox_batch_buckets opts)))"

lemma first_bucket_ge: "n \<le> first_bucket bs n"
  by (induction bs) auto

lemma first_bucket_in: "bs \<noteq> [] \<Longrightarrow> n \<le> last bs \<Longrightarrow> first_bucket bs n \<in> set bs"
  by (induction bs) (auto split: if_splits)

lemma first_bucket_least: "sorted bs \<Longrightarrow> b \<in> set bs \<Longrightarrow> n \<le> b \<Longrightarrow> first_bucket bs n \<le> b"
  by (induction bs) auto

lemma first_bucket_mono: "sorted bs \<Longrightarrow> n \<le> k \<Longrightarrow> first_bucket bs n \<le> first_bucket bs k"
  by (induction bs) (auto intro: first_bucket_least order_trans [OF _ first_bucket_ge])

lemma first_bucket_oversize: "(\<forall>b \<in> set bs. b < n) \<Longrightarrow> first_bucket bs n = n"
  by (induction bs) (auto simp: not_le)

lemma first_bucket_fits:
  assumes "sorted bs"
  shows "bs \<noteq> [] \<and> first_bucket bs n \<le> last bs \<longleftrightarrow> bs \<noteq> [] \<and> n \<le> last bs"
  using assms first_bucket_ge [of n bs] first_bucket_least [of bs "last bs" n] by (auto intro: order_trans)

lemma bound_blocks_mono: "bound_blocks k s \<Longrightarrow> j \<le> k \<Longrightarrow> bound_blocks j s"
proof -
  assume b: "bound_blocks k s" and j: "j \<le> k"
  have "j * image_elems \<le> k * image_elems" "j * network_width (ort s) \<le> k * network_width (ort s)"
    using j by (rule mult_le_mono1)+
  with b show ?thesis unfolding bound_blocks_def Let_def by (meson order_trans)
qed

lemma onnx_serves_shape:
  assumes "onnx_serves s n ie oe" "n \<noteq> 0"
  shows "batch_shape s n (onnx_bucket_for (oopts s) n)" "ie = ox_input_elems (oopts s)" "oe = ox_output_elems (oopts s)"
  using assms first_bucket_ge [of n "ox_batch_buckets (oopts s)"]
  by (auto simp: onnx_serves_def batch_shape_def onnx_bucket_for_def Let_def)

lemma onnx_serves_mono:
  assumes "sorted (ox_batch_buckets (oopts s))" "onnx_serves s k ie oe" "n \<le> k"
  shows "onnx_serves s n ie oe"
proof -
  have "onnx_bucket_for (oopts s) n \<le> onnx_bucket_for (oopts s) k"
    unfolding onnx_bucket_for_def by (rule first_bucket_mono [OF assms(1,3)])
  then show ?thesis
    using assms(2,3) geometry_ok_mono [of "onnx_bucket_for (oopts s) k" ie oe "onnx_bucket_for (oopts s) n"]
    by (auto simp: onnx_serves_def Let_def word_le_nat_alt)
qed

lemma onnx_frame:
  assumes "batch_frame s s'"
  shows "onnx_ready s \<Longrightarrow> onnx_ready s'" "onnx_serves s' = onnx_serves s" "onnx_row s' = onnx_row s"
proof -
  have e: "oeng s' = oeng s" "ort s' = ort s" using assms by (simp_all add: batch_frame_def)
  show "onnx_ready s \<Longrightarrow> onnx_ready s'"
    using normalization_ready_frame [OF assms] by (simp add: onnx_ready_def e batch_frameD [OF assms])
  show "onnx_serves s' = onnx_serves s" by (simp add: onnx_serves_def e batch_frameD [OF assms] fun_eq_iff)
  show "onnx_row s' = onnx_row s" by (simp add: onnx_row_def e fun_eq_iff)
qed

lemma onnx_run_cases:
  assumes ready: "onnx_ready s" and sv: "onnx_serves s n ie oe" and len: "length xs = unat n * unat ie"
    and run: "onnx_run_inference xs n ie oe s = (r, s')"
  shows "(r = Ret (concat (map (onnx_row s ie oe) (rows (unat ie) (unat n) xs))) \<or> (\<exists>m. r = Throw (InferenceError m))) \<and>
    batch_frame s s'"
proof (cases "n = 0")
  case True
  with run len show ?thesis by (simp add: onnx_run_inference_def cret_def rows_def vsize_def Let_def)
next
  case False
  note sv' = sv [unfolded onnx_serves_def Let_def]
  let ?bs = "ox_batch_buckets (oopts s)" and ?p = "onnx_bucket_for (oopts s) n"
  note shape = onnx_serves_shape(1) [OF sv False]
  have ie: "unat ie = image_elems" using sv' by blast
  note sh = batch_shapeD [OF shape]
  have so: "sorted ?bs" and laws: "onnx_laws s" using ready by (simp_all add: onnx_ready_def)
  have lx: "length xs = unat n * image_elems" using len ie by simp
  have "unat n * image_elems \<le> vec_max_size" using mult_le_mono1 [OF sh(2)] sh(10) by (rule order_trans)
  then have "vsize xs = n * ie"
    using bytes_of_product(1) [of n ie] lx by (simp add: vsize_eq_iff ie vec_max_size_def)
  then have eq: "onnx_run_inference xs n ie oe s =
      (if io_binding_active (oeng s) \<and> ?bs \<noteq> [] \<and> n \<le> last ?bs then run_bound xs n ?p s else run_host xs n ?p s)"
    using False onnx_serves_shape(2,3) [OF sv False] first_bucket_fits [OF so, of n]
    by (simp add: onnx_run_inference_def Let_def onnx_bucket_for_def)
  show ?thesis
  proof (cases "io_binding_active (oeng s) \<and> ?bs \<noteq> [] \<and> n \<le> last ?bs")
    case True
    then have b: "bound_blocks (unat (last ?bs)) s" and nr: "normalization_ready s"
      using sv' ready by (simp_all add: onnx_ready_def)
    have "unat ?p \<le> unat (last ?bs)"
      using True so first_bucket_least [of ?bs "last ?bs" n] by (simp add: onnx_bucket_for_def word_le_nat_alt)
    note blocks = bound_blocks_mono [OF b this]
    have "run_bound xs n ?p s = (r, s')" using run True by (simp add: eq)
    from run_bound_cases [OF laws nr shape blocks lx this, of ie oe] show ?thesis by (simp only: ie)
  next
    case False
    then have "\<not> ox_normalize_on_device (oopts s)" using ready sv' by (auto simp: onnx_ready_def)
    then have "onnx_prepared (oopts s) = (\<lambda>r. r)" by (simp add: onnx_prepared_def fun_eq_iff)
    then have "apply_network (ort s) (unat n) xs = concat (map (onnx_row s ie oe) (rows image_elems (unat n) xs))"
      by (intro apply_network_rows) simp
    moreover have "run_host xs n ?p s = (r, s')" using run False by (simp only: eq if_False)
    ultimately show ?thesis using run_host_cases [OF laws shape lx] undisturbed_frame by (auto simp: ie)
  qed
qed

interpretation onnx: row_engine "onnx_engine :: 'g oest engine" onnx_ready onnx_serves onnx_row "range InferenceError"
proof unfold_locales
  fix e :: "'g oest" and n ie oe :: size_t and xs :: "f32 list"
  assume a: "onnx_ready e" "onnx_serves e n ie oe" "length xs = unat n * unat ie"
  obtain r e' where r: "onnx_run_inference xs n ie oe e = (r, e')" by fastforce
  note c = onnx_run_cases [OF a r]
  then have f: "batch_frame e e'" by blast
  show "onnx_ready (snd (onnx_engine e xs n ie oe))" using r onnx_frame(1) [OF f a(1)] by (simp add: onnx_engine_def)
  show "onnx_serves (snd (onnx_engine e xs n ie oe)) = onnx_serves e"
    using r onnx_frame(2) [OF f] by (simp add: onnx_engine_def)
  show "onnx_row (snd (onnx_engine e xs n ie oe)) = onnx_row e" using r onnx_frame(3) [OF f] by (simp add: onnx_engine_def)
  show "defined_res (fst (onnx_engine e xs n ie oe))" using c r by (auto simp: onnx_engine_def)
  show "ex \<in> range InferenceError" if "fst (onnx_engine e xs n ie oe) = Throw ex" for ex
    using c r that by (auto simp: onnx_engine_def)
  show "ys = concat (map (onnx_row e ie oe) (rows (unat ie) (unat n) xs))"
    if "fst (onnx_engine e xs n ie oe) = Ret ys" for ys
    using c r that by (auto simp: onnx_engine_def)
next
  fix e :: "'g oest" and n ie oe and r :: "f32 list"
  assume a: "onnx_ready e" "onnx_serves e n ie oe" "length r = unat ie"
  have "ort_laws (api (ogpu e)) (ort e)" using a(1) by (simp add: onnx_ready_def onnx_laws_def)
  from ort_lawsD(14) [OF this] have nl: "network_law (ort e)" .
  have "length (onnx_prepared (oopts e) r) = image_elems"
    using a(2,3) by (auto simp: onnx_prepared_def onnx_serves_def length_norm_row Let_def)
  with nl have "length (onnx_row e ie oe r) = network_width (ort e)" by (simp add: onnx_row_def network_law_def)
  also have "\<dots> = unat oe" using a(2) by (auto simp: onnx_serves_def Let_def)
  finally show "length (onnx_row e ie oe r) = unat oe" .
qed

end
