(* ===== verification/Onnx_Lifecycle.thy ===== *)
theory Onnx_Lifecycle
  imports Onnx_Batches
begin

text \<open>
  The life of an \<open>OnnxExecutionEngine\<close>: what its constructor establishes on every path, including the
  fallback to the host path and the exceptions, what its destructor gives back, and the properties
  of the engine behind the scheduler.
\<close>

section \<open>Outcomes of a command\<close>

text \<open>The command returns into \<open>Q\<close> or throws into \<open>E\<close>; nothing else happens.\<close>

definition runs :: "('s, 'a) cmd \<Rightarrow> ('a \<Rightarrow> 's \<Rightarrow> bool) \<Rightarrow> (exn \<Rightarrow> 's \<Rightarrow> bool) \<Rightarrow> 's \<Rightarrow> bool" where
  "runs m Q E s = (case m s of (Ret x, s') \<Rightarrow> Q x s' | (Throw e, s') \<Rightarrow> E e s' | _ \<Rightarrow> False)"

lemma runs_cret [simp]: "runs (cret x) Q E s = Q x s"
  by (simp add: runs_def cret_def)

lemma runs_cthrow [simp]: "runs (cthrow e) Q E s = E e s"
  by (simp add: runs_def cthrow_def)

lemma runs_mono:
  "runs m Q E s \<Longrightarrow> (\<And>x s'. Q x s' \<Longrightarrow> Q' x s') \<Longrightarrow> (\<And>e s'. E e s' \<Longrightarrow> E' e s') \<Longrightarrow> runs m Q' E' s"
  by (auto simp: runs_def split: prod.splits res.splits)

lemma runs_bind [intro]: "runs m (\<lambda>x. runs (f x) Q E) E s \<Longrightarrow> runs (cbind m f) Q E s"
  by (auto simp: runs_def cbind_def split: prod.splits res.splits)

lemma runs_cong: "m s = m' s \<Longrightarrow> runs m' Q E s \<Longrightarrow> runs m Q E s"
  by (simp add: runs_def)

lemma runs_try: "runs m Q (\<lambda>e. runs (h e) Q E) s \<Longrightarrow> runs (try_catch m h) Q E s"
  by (auto simp: runs_def try_catch_def split: prod.splits res.splits)

lemma runs_translate:
  "runs m Q (\<lambda>e s'. \<forall>e'. E e' s') s \<Longrightarrow> runs (translate_ort_errors what m) Q (\<lambda>e s'. E e s') s"
  by (auto simp: runs_def translate_ort_errors_def split: prod.splits res.splits exn.splits)

lemma runs_eq: "m s = (r, s') \<Longrightarrow> runs m Q E s \<Longrightarrow>
  (\<exists>x. r = Ret x \<and> Q x s') \<or> (\<exists>e. r = Throw e \<and> E e s')"
  by (auto simp: runs_def split: res.splits)

lemma runs_ort_call:
  assumes "ort_quiet (api (ogpu s)) (f (ort s))"
    and "\<And>x s'. undisturbed s s' \<Longrightarrow> Q x s'" and "\<And>e s'. undisturbed s s' \<Longrightarrow> E e s'"
  shows "runs (ort_call f) Q E s"
  using assms(1) by (cases rule: ort_call_cases) (use assms(2,3) in \<open>simp_all add: runs_def\<close>)

lemma runs_on_device:
  assumes "m (ogpu s) = (r, g)"
    and "\<And>x. r = Ret x \<Longrightarrow> Q x (s\<lparr>ogpu := g\<rparr>)" and "\<And>e. r = Throw e \<Longrightarrow> E e (s\<lparr>ogpu := g\<rparr>)"
    and "defined_res r"
  shows "runs (on_device m) Q E s"
  using assms by (cases r) (simp_all add: runs_def on_device_def)

section \<open>What the members own\<close>

abbreviation (input) dev_bufs :: "OnnxImpl \<Rightarrow> DeviceBuffer list" where
  "dev_bufs m \<equiv> [device_input m, device_output m, device_mean m, device_stddev m]"

abbreviation (input) host_bufs :: "OnnxImpl \<Rightarrow> PinnedBuffer list" where
  "host_bufs m \<equiv> [host_input m, host_output m]"

definition dev_sized :: "gview \<Rightarrow> DeviceBuffer \<Rightarrow> bool" where
  "dev_sized v b \<longleftrightarrow> (dev_ptr b = nullptr \<longleftrightarrow> dev_bytes b = 0) \<and>
     (dev_ptr b \<noteq> nullptr \<longrightarrow> length (dev_data v (dev_ptr b)) = floats (dev_bytes b))"

definition pin_sized :: "gview \<Rightarrow> PinnedBuffer \<Rightarrow> bool" where
  "pin_sized v b \<longleftrightarrow> (pin_ptr b = nullptr \<longleftrightarrow> pin_bytes b = 0) \<and>
     (pin_ptr b \<noteq> nullptr \<longrightarrow> length (host_data v (pin_ptr b)) = floats (pin_bytes b))"

text \<open>
  The device holds \<open>Ld\<close>, \<open>Lh\<close> and \<open>Ls\<close> besides the blocks and the stream of the members, the blocks are as
  large as the members say, and no work is queued.
\<close>

definition impl_owns :: "addr set \<Rightarrow> addr set \<Rightarrow> stream set \<Rightarrow> OnnxImpl \<Rightarrow> gview \<Rightarrow> bool" where
  "impl_owns Ld Lh Ls m v \<longleftrightarrow>
     owners dev_ptr Ld (dev_bufs m) (dev_live v) \<and> owners pin_ptr Lh (host_bufs m) (host_live v) \<and>
     (if copy_stream m = 0 then stream_live v = Ls
      else copy_stream m \<notin> Ls \<and> stream_live v = insert (copy_stream m) Ls) \<and>
     inflight v = (\<lambda>_. {}) \<and> list_all (dev_sized v) (dev_bufs m) \<and> list_all (pin_sized v) (host_bufs m)"

lemma impl_owns_new:
  "inflight v = (\<lambda>_. {}) \<Longrightarrow> impl_owns (dev_live v) (host_live v) (stream_live v) impl_new v"
  by (simp add: impl_owns_def impl_new_def owners_def dev_sized_def pin_sized_def device_blank_def pinned_blank_def)

lemma impl_owns_same: "impl_owns Ld Lh Ls m v \<Longrightarrow> same_blocks v v' \<Longrightarrow> impl_owns Ld Lh Ls m v'"
  by (simp add: impl_owns_def same_blocks_def dev_sized_def pin_sized_def)

subsection \<open>Destruction\<close>

lemma device_destroys:
  assumes "cuda_laws (api g)" "owners dev_ptr L bs (dev_live (gview_of g))"
  shows "api (fold device_destroy bs g) = api g \<and>
    gview_of (fold device_destroy bs g) = (gview_of g)\<lparr>dev_live := L\<rparr>"
  using assms
proof (induction bs arbitrary: g)
  case Nil
  then show ?case by (simp add: owners_def)
next
  case (Cons b bs)
  have live: "dev_ptr b \<noteq> nullptr \<Longrightarrow> dev_ptr b \<in> dev_live (gview_of g)" using Cons.prems(2) by (auto simp: owners_def)
  note d = device_destroy_view [OF Cons.prems(1) live]
  have "owners dev_ptr L bs (dev_live (gview_of (device_destroy b g)))"
    using Cons.prems(2) by (auto simp: d(2) owners_def)
  with Cons.IH [of "device_destroy b g"] Cons.prems(1) d show ?case by simp
qed

lemma pinned_destroys:
  assumes "cuda_laws (api g)" "owners pin_ptr L bs (host_live (gview_of g))"
  shows "api (fold pinned_destroy bs g) = api g \<and>
    gview_of (fold pinned_destroy bs g) = (gview_of g)\<lparr>host_live := L\<rparr>"
  using assms
proof (induction bs arbitrary: g)
  case Nil
  then show ?case by (simp add: owners_def)
next
  case (Cons b bs)
  have live: "pin_ptr b \<noteq> nullptr \<Longrightarrow> pin_ptr b \<in> host_live (gview_of g)" using Cons.prems(2) by (auto simp: owners_def)
  have d: "api (pinned_destroy b g) = api g" "gview_of (pinned_destroy b g) =
      (if pin_ptr b = nullptr then gview_of g else (gview_of g)\<lparr>host_live := host_live (gview_of g) - {pin_ptr b}\<rparr>)"
    using live host_freed [OF Cons.prems(1)] by (simp_all add: pinned_destroy_def)
  have "owners pin_ptr L bs (host_live (gview_of (pinned_destroy b g)))"
    using Cons.prems(2) by (auto simp: d(2) owners_def)
  with Cons.IH [of "pinned_destroy b g"] Cons.prems(1) d show ?case by simp
qed

lemma impl_destroy_ok:
  assumes laws: "cuda_laws (api g)" and own: "impl_owns Ld Lh Ls m (gview_of g)"
  shows "lives (gview_of (impl_destroy m g)) = (Ld, Lh, Ls)"
proof -
  define g1 where "g1 = (if copy_stream m \<noteq> 0 then g\<lparr>gst := cudaStreamDestroy (api g) (copy_stream m) (gst g)\<rparr> else g)"
  have g1: "api g1 = api g" "gview_of g1 = (gview_of g)\<lparr>stream_live := Ls\<rparr>"
    using own cuda_lawsD(5) [OF laws] by (auto simp: g1_def impl_owns_def stream_law_def gview_of_def split: if_splits)
  let ?ds = "[device_stddev m, device_mean m, device_output m, device_input m]"
  have "mset (map dev_ptr (dev_bufs m)) = mset (map dev_ptr ?ds)" by simp
  from owners_mset_cong [OF this] own have "owners dev_ptr Ld ?ds (dev_live (gview_of g1))"
    by (simp add: impl_owns_def g1(2) del: list.map)
  note d = device_destroys [OF _ this] 
  let ?hs = "[host_output m, host_input m]"
  have "mset (map pin_ptr (host_bufs m)) = mset (map pin_ptr ?hs)" by simp
  from owners_mset_cong [OF this] own have "owners pin_ptr Lh ?hs (host_live (gview_of (fold device_destroy ?ds g1)))"
    using d laws g1 by (simp add: impl_owns_def del: list.map fold_simps)
  note h = pinned_destroys [OF _ this]
  have "impl_destroy m g = fold pinned_destroy ?hs (fold device_destroy ?ds g1)"
    by (simp add: impl_destroy_def g1_def Let_def)
  with h d laws g1 show ?thesis by (simp add: lives_def del: fold_simps)
qed

subsection \<open>Construction of the buffers\<close>

text \<open>The engine under construction: the options and the library stay, the members own what was made.\<close>

definition building :: "addr set \<Rightarrow> addr set \<Rightarrow> stream set \<Rightarrow> 'g oest \<Rightarrow> OnnxImpl \<Rightarrow> 'g oest \<Rightarrow> bool" where
  "building Ld Lh Ls s0 m s \<longleftrightarrow> impl_owns Ld Lh Ls m (gview_of (ogpu s)) \<and>
     oeng s = (oeng s0)\<lparr>impl := m\<rparr> \<and> ort s = ort s0 \<and> api (ogpu s) = api (ogpu s0)"

lemma device_assign_blank:
  "device_assign False device_blank b g = ((b, device_blank), g)" "device_destroy device_blank g = g"
  by (cases b, simp_all add: device_assign_def device_blank_def device_destroy_def)

lemma pinned_assign_blank:
  "pinned_assign False pinned_blank b g = ((b, pinned_blank), g)" "pinned_destroy pinned_blank g = g"
  by (cases b, simp_all add: pinned_assign_def pinned_blank_def pinned_destroy_def)

lemma owners_fill:
  assumes "owners ptr_of L xs live" "i < length xs" "ptr_of (xs ! i) = nullptr" "ptr_of b = nullptr \<or> ptr_of b \<notin> live"
  shows "owners ptr_of L (xs[i := b]) (if ptr_of b = nullptr then live else insert (ptr_of b) live)"
proof -
  have "owners ptr_of L (xs ! i # take i xs @ drop (Suc i) xs) live"
    using owners_rotate [OF assms(2), of ptr_of L "xs ! i" live] assms(1) by simp
  then have "owners ptr_of L (b # take i xs @ drop (Suc i) xs) (if ptr_of b = nullptr then live else insert (ptr_of b) live)"
    using assms(3,4) by (auto simp: owners_def)
  then show ?thesis by (simp only: owners_rotate [OF assms(2)])
qed

lemma device_new_sized:
  assumes laws: "cuda_laws (api g)" and new: "device_new n g = (Ret b, g')"
    and own: "impl_owns Ld Lh Ls m (gview_of g)" and i: "i < 4" "dev_bufs m ! i = device_blank"
    and m': "dev_bufs m' = (dev_bufs m)[i := b]" "host_bufs m' = host_bufs m" "copy_stream m' = copy_stream m"
  shows "impl_owns Ld Lh Ls m' (gview_of g')" "dev_bytes b = n"
proof -
  show b: "dev_bytes b = n" using new by (auto simp: device_new_def cbind_eq_Ret cret_def split: if_splits)
  note ret = device_new_ret [OF laws new] and vw = device_new_view [OF laws new]
  let ?v = "gview_of g"
  have v': "host_live (gview_of g') = host_live ?v" "stream_live (gview_of g') = stream_live ?v"
    "inflight (gview_of g') = inflight ?v" "host_data (gview_of g') = host_data ?v"
    "\<And>q. q \<in> dev_live ?v \<Longrightarrow> dev_data (gview_of g') q = dev_data ?v q"
    using vw(2,3) by (cases "n = 0"; force)+
  have sb: "dev_sized (gview_of g') b" using vw(2,3) by (cases "n = 0") (auto simp: dev_sized_def b)
  have so: "dev_sized (gview_of g') c" if "c \<in> set (dev_bufs m)" for c
  proof -
    have "dev_sized ?v c" "dev_ptr c \<noteq> nullptr \<Longrightarrow> dev_ptr c \<in> dev_live ?v"
      using own that by (auto simp: impl_owns_def owners_def)
    then show ?thesis using v'(5) by (auto simp: dev_sized_def)
  qed
  have "list_all (dev_sized (gview_of g')) ((dev_bufs m)[i := b])"
    unfolding list_all_iff using sb so set_update_subset_insert [of "dev_bufs m" i b] by blast
  moreover have "owners dev_ptr Ld ((dev_bufs m)[i := b]) (dev_live (gview_of g'))"
    using owners_fill [of dev_ptr Ld "dev_bufs m" "dev_live ?v" i b] own i ret by (simp add: impl_owns_def device_blank_def)
  ultimately show "impl_owns Ld Lh Ls m' (gview_of g')"
    using own v' unfolding impl_owns_def m' by (simp add: pin_sized_def m'(2) [simplified])
qed

lemma pinned_new_view:
  assumes "cuda_laws (api g)" and "pinned_new n g = (Ret b, g')"
  shows "n = 0 \<Longrightarrow> pin_ptr b = nullptr \<and> gview_of g' = gview_of g"
    and "n \<noteq> 0 \<Longrightarrow> pin_ptr b \<noteq> nullptr \<and> pin_ptr b \<notin> host_live (gview_of g) \<and>
      (\<exists>d. length d = floats n \<and> gview_of g' = (gview_of g)\<lparr>
         host_live := insert (pin_ptr b) (host_live (gview_of g)),
         host_data := (host_data (gview_of g))(pin_ptr b := d)\<rparr>)"
proof -
  show "n = 0 \<Longrightarrow> pin_ptr b = nullptr \<and> gview_of g' = gview_of g"
    using assms(2) by (auto simp: pinned_new_def cret_def)
  assume "n \<noteq> 0"
  then have "0 < n" by (simp add: word_gt_0)
  with assms(2) have c: "checked_new (cudaHostAlloc (api g) n) ''cudaHostAlloc'' g = (Ret (pin_ptr b), g')"
    by (auto simp: pinned_new_def cbind_eq_Ret cret_def)
  from host_alloc(3) [OF assms(1) c refl]
  show "pin_ptr b \<noteq> nullptr \<and> pin_ptr b \<notin> host_live (gview_of g) \<and>
      (\<exists>d. length d = floats n \<and> gview_of g' = (gview_of g)\<lparr>
         host_live := insert (pin_ptr b) (host_live (gview_of g)),
         host_data := (host_data (gview_of g))(pin_ptr b := d)\<rparr>)" .
qed

lemma pinned_new_sized:
  assumes laws: "cuda_laws (api g)" and new: "pinned_new n g = (Ret b, g')"
    and own: "impl_owns Ld Lh Ls m (gview_of g)" and i: "i < 2" "host_bufs m ! i = pinned_blank"
    and m': "host_bufs m' = (host_bufs m)[i := b]" "dev_bufs m' = dev_bufs m" "copy_stream m' = copy_stream m"
  shows "impl_owns Ld Lh Ls m' (gview_of g')" "pin_bytes b = n"
proof -
  show b: "pin_bytes b = n" using new by (auto simp: pinned_new_def cbind_eq_Ret cret_def split: if_splits)
  note ret = pinned_new_ret [OF laws new] and vw = pinned_new_view [OF laws new]
  let ?v = "gview_of g"
  have v': "dev_live (gview_of g') = dev_live ?v" "stream_live (gview_of g') = stream_live ?v"
    "inflight (gview_of g') = inflight ?v" "dev_data (gview_of g') = dev_data ?v"
    "\<And>q. q \<in> host_live ?v \<Longrightarrow> host_data (gview_of g') q = host_data ?v q"
    using vw by (cases "n = 0"; force)+
  have sb: "pin_sized (gview_of g') b" using vw by (cases "n = 0") (auto simp: pin_sized_def b)
  have so: "pin_sized (gview_of g') c" if "c \<in> set (host_bufs m)" for c
  proof -
    have "pin_sized ?v c" "pin_ptr c \<noteq> nullptr \<Longrightarrow> pin_ptr c \<in> host_live ?v"
      using own that by (auto simp: impl_owns_def owners_def)
    then show ?thesis using v'(5) by (auto simp: pin_sized_def)
  qed
  have "list_all (pin_sized (gview_of g')) ((host_bufs m)[i := b])"
    unfolding list_all_iff using sb so set_update_subset_insert [of "host_bufs m" i b] by blast
  moreover have "owners pin_ptr Lh ((host_bufs m)[i := b]) (host_live (gview_of g'))"
    using owners_fill [of pin_ptr Lh "host_bufs m" "host_live ?v" i b] own i ret by (simp add: impl_owns_def pinned_blank_def)
  ultimately show "impl_owns Ld Lh Ls m' (gview_of g')"
    using own v' unfolding impl_owns_def m' by (simp add: dev_sized_def m'(2) [simplified])
qed

lemma emplace_device_runs:
  assumes laws: "cuda_laws (api (ogpu s0))" and b: "building Ld Lh Ls s0 m s" and blank: "member m = device_blank"
    and i: "i < 4" "dev_bufs m ! i = member m" "\<And>b. dev_bufs (upd (\<lambda>_. b) m) = (dev_bufs m)[i := b]"
      "\<And>b. host_bufs (upd (\<lambda>_. b) m) = host_bufs m" "\<And>b. copy_stream (upd (\<lambda>_. b) m) = copy_stream m"
    and Q: "\<And>b s'. dev_bytes b = n \<Longrightarrow> building Ld Lh Ls s0 (upd (\<lambda>_. b) m) s' \<Longrightarrow> Q () s'"
    and E: "\<And>e s'. building Ld Lh Ls s0 m s' \<Longrightarrow> E e s'"
  shows "runs (emplace_device member upd n) Q E s"
proof -
  note bd = b [unfolded building_def]
  have l: "cuda_laws (api (ogpu s))" using laws bd by simp
  have mm: "oimpl s = m" using bd by simp
  obtain r g where new: "device_new n (ogpu s) = (r, g)" by fastforce
  show ?thesis
  proof (cases "is_ret r")
    case True
    then obtain c where r: "r = Ret c" by (auto simp: is_ret_iff)
    let ?s = "s\<lparr>oeng := (oeng s)\<lparr>impl := upd (\<lambda>_. c) m\<rparr>, ogpu := g\<rparr>"
    have "emplace_device member upd n s = (Ret (), ?s)"
      using new r mm blank by (simp add: emplace_device_def cbind_def on_device_def device_assign_blank)
    moreover have "api g = api (ogpu s)" using device_new_ret [OF l new [unfolded r]] by simp
    moreover have sz: "impl_owns Ld Lh Ls (upd (\<lambda>_. c) m) (gview_of g)" "dev_bytes c = n"
      using device_new_sized [OF l new [unfolded r], of Ld Lh Ls m i "upd (\<lambda>_. c) m"] bd i blank by auto
    ultimately show ?thesis using Q [of c ?s] bd by (simp add: runs_def building_def)
  next
    case False
    note f = device_new_fails [OF l new False]
    then obtain e where "r = Throw (CudaError e)" by blast
    then show ?thesis using E [of "s\<lparr>ogpu := g\<rparr>" "CudaError e"] bd f new
      by (simp add: runs_def emplace_device_def cbind_def on_device_def building_def)
  qed
qed

lemma emplace_pinned_runs:
  assumes laws: "cuda_laws (api (ogpu s0))" and b: "building Ld Lh Ls s0 m s" and blank: "member m = pinned_blank"
    and i: "i < 2" "host_bufs m ! i = member m" "\<And>b. host_bufs (upd (\<lambda>_. b) m) = (host_bufs m)[i := b]"
      "\<And>b. dev_bufs (upd (\<lambda>_. b) m) = dev_bufs m" "\<And>b. copy_stream (upd (\<lambda>_. b) m) = copy_stream m"
    and Q: "\<And>b s'. pin_bytes b = n \<Longrightarrow> building Ld Lh Ls s0 (upd (\<lambda>_. b) m) s' \<Longrightarrow> Q () s'"
    and E: "\<And>e s'. building Ld Lh Ls s0 m s' \<Longrightarrow> E e s'"
  shows "runs (emplace_pinned member upd n) Q E s"
proof -
  note bd = b [unfolded building_def]
  have l: "cuda_laws (api (ogpu s))" using laws bd by simp
  have mm: "oimpl s = m" using bd by simp
  obtain r g where new: "pinned_new n (ogpu s) = (r, g)" by fastforce
  show ?thesis
  proof (cases "is_ret r")
    case True
    then obtain c where r: "r = Ret c" by (auto simp: is_ret_iff)
    let ?s = "s\<lparr>oeng := (oeng s)\<lparr>impl := upd (\<lambda>_. c) m\<rparr>, ogpu := g\<rparr>"
    have "emplace_pinned member upd n s = (Ret (), ?s)"
      using new r mm blank by (simp add: emplace_pinned_def cbind_def on_device_def pinned_assign_blank)
    moreover have "api g = api (ogpu s)" using pinned_new_ret [OF l new [unfolded r]] by simp
    moreover have sz: "impl_owns Ld Lh Ls (upd (\<lambda>_. c) m) (gview_of g)" "pin_bytes c = n"
      using pinned_new_sized [OF l new [unfolded r], of Ld Lh Ls m i "upd (\<lambda>_. c) m"] bd i blank by auto
    ultimately show ?thesis using Q [of c ?s] bd by (simp add: runs_def building_def)
  next
    case False
    note f = pinned_new_fails [OF l new False]
    then obtain e where "r = Throw (CudaError e)" by blast
    then show ?thesis using E [of "s\<lparr>ogpu := g\<rparr>" "CudaError e"] bd f new
      by (simp add: runs_def emplace_pinned_def cbind_def on_device_def building_def)
  qed
qed

lemma create_stream_runs:
  assumes laws: "cuda_laws (api (ogpu s0))" and b: "building Ld Lh Ls s0 m s" and "copy_stream m = 0"
    and Q: "\<And>x s'. x \<noteq> 0 \<Longrightarrow> building Ld Lh Ls s0 (m\<lparr>copy_stream := x\<rparr>) s' \<Longrightarrow> Q () s'"
    and E: "\<And>e s'. building Ld Lh Ls s0 m s' \<Longrightarrow> E e s'"
  shows "runs create_stream Q E s"
proof -
  note bd = b [unfolded building_def]
  obtain r g where c: "checked_new (cudaStreamCreate (api (ogpu s))) ''cudaStreamCreateWithFlags'' (ogpu s) = (r, g)" by fastforce
  have "cuda_laws (api (ogpu s))" using laws bd by simp
  note sc = stream_created [OF this c]
  then consider x where "r = Ret x" "x \<noteq> 0" "x \<notin> stream_live (gview_of (ogpu s))" "api g = api (ogpu s)"
      "gview_of g = (gview_of (ogpu s))\<lparr>stream_live := insert x (stream_live (gview_of (ogpu s)))\<rparr>"
    | e where "r = Throw (CudaError e)" "gview_of g = gview_of (ogpu s)" "api g = api (ogpu s)"
    by blast
  then show ?thesis
  proof cases
    case 1
    let ?s = "s\<lparr>ogpu := g, oeng := (oeng s)\<lparr>impl := m\<lparr>copy_stream := x\<rparr>\<rparr>\<rparr>"
    have "impl_owns Ld Lh Ls (m\<lparr>copy_stream := x\<rparr>) (gview_of g)"
      using bd 1 assms(3) by (simp add: impl_owns_def dev_sized_def pin_sized_def)
    with 1 Q [of x ?s] bd c show ?thesis by (simp add: runs_def create_stream_def cbind_def on_device_def building_def)
  next
    case 2
    then show ?thesis using E [of "s\<lparr>ogpu := g\<rparr>" "CudaError e"] bd c
      by (simp add: runs_def create_stream_def cbind_def on_device_def building_def)
  qed
qed

text \<open>The two uploads of the normalisation constants.\<close>

lemma upload_runs:
  assumes laws: "cuda_laws (api (ogpu s0))" and b: "building Ld Lh Ls s0 m s"
    and d: "dev_ptr (member m) \<noteq> nullptr" "dev_ptr (member m) \<in> dev_live (gview_of (ogpu s))"
      "length (dev_data (gview_of (ogpu s)) (dev_ptr (member m))) = length xs"
    and Q: "\<And>s'. building Ld Lh Ls s0 m s' \<Longrightarrow> dev_data (gview_of (ogpu s')) (dev_ptr (member m)) = xs \<Longrightarrow>
      (\<And>q. q \<noteq> dev_ptr (member m) \<Longrightarrow> dev_data (gview_of (ogpu s')) q = dev_data (gview_of (ogpu s)) q) \<Longrightarrow> Q () s'"
    and E: "\<And>e s'. building Ld Lh Ls s0 m s' \<Longrightarrow> E e s'"
  shows "runs (\<lambda>s. on_device (\<lambda>g. checked (cudaMemcpyToDevice (api g) (dev_ptr (member (oimpl s))) xs) what g) s) Q E s"
proof -
  note bd = b [unfolded building_def]
  let ?p = "dev_ptr (member m)"
  have l: "cuda_laws (api (ogpu s))" using laws bd by simp
  have mm: "oimpl s = m" using bd by simp
  obtain r g where c: "checked (cudaMemcpyToDevice (api (ogpu s)) ?p xs) what (ogpu s) = (r, g)" by fastforce
  have "inflight (gview_of (ogpu s)) = (\<lambda>_. {})" using bd by (simp add: impl_owns_def)
  from memcpy_cases [OF l c d(2) eq_refl [OF d(3) [symmetric]] this]
  have a: "api g = api (ogpu s)" and "r = Ret () \<and> gview_of g = (gview_of (ogpu s))\<lparr>dev_data :=
      (dev_data (gview_of (ogpu s)))(?p := xs)\<rparr> \<or> (\<exists>e. r = Throw (CudaError e)) \<and> gview_of g = gview_of (ogpu s)"
    using d(3) by simp_all
  then consider "r = Ret ()" "gview_of g = (gview_of (ogpu s))\<lparr>dev_data := (dev_data (gview_of (ogpu s)))(?p := xs)\<rparr>"
    | e where "r = Throw (CudaError e)" "gview_of g = gview_of (ogpu s)" by blast
  then show ?thesis
  proof cases
    case 1
    then have "same_blocks (gview_of (ogpu s)) (gview_of g)" using d(3) by (simp add: same_blocks_def)
    with bd have "building Ld Lh Ls s0 m (s\<lparr>ogpu := g\<rparr>)" using a by (auto simp: building_def intro: impl_owns_same)
    with 1 Q [of "s\<lparr>ogpu := g\<rparr>"] c mm show ?thesis by (simp add: runs_def on_device_def)
  next
    case 2
    then show ?thesis using E [of "s\<lparr>ogpu := g\<rparr>" "CudaError e"] bd c mm a
      by (simp add: runs_def on_device_def building_def)
  qed
qed

lemma impl_owns_dev:
  assumes "impl_owns Ld Lh Ls m v" "b \<in> set (dev_bufs m)" "dev_bytes b \<noteq> 0"
  shows "dev_ptr b \<noteq> nullptr" "dev_ptr b \<in> dev_live v" "length (dev_data v (dev_ptr b)) = floats (dev_bytes b)"
  using assms by (auto simp: impl_owns_def owners_def dev_sized_def)

lemma impl_owns_pin:
  assumes "impl_owns Ld Lh Ls m v" "b \<in> set (host_bufs m)" "pin_bytes b \<noteq> 0"
  shows "pin_ptr b \<noteq> nullptr" "pin_ptr b \<in> host_live v" "length (host_data v (pin_ptr b)) = floats (pin_bytes b)"
  using assms by (auto simp: impl_owns_def owners_def pin_sized_def)

lemma distinct_filter_nth:
  "distinct (filter P xs) \<Longrightarrow> i < j \<Longrightarrow> j < length xs \<Longrightarrow> P (xs ! i) \<Longrightarrow> xs ! i \<noteq> xs ! j"
proof (induction xs arbitrary: i j)
  case (Cons x xs)
  then obtain k where j: "j = Suc k" "k < length xs" by (cases j) auto
  show ?case
  proof (cases i)
    case 0
    with Cons.prems j nth_mem [of k xs] show ?thesis by auto
  next
    case (Suc l)
    with Cons.prems j Cons.IH [of l k] show ?thesis by (auto split: if_splits)
  qed
qed simp

lemma owners_distinct:
  assumes "owners ptr_of L xs live" "i < j" "j < length xs" "ptr_of (xs ! i) \<noteq> nullptr \<or> ptr_of (xs ! j) \<noteq> nullptr"
  shows "ptr_of (xs ! i) \<noteq> ptr_of (xs ! j)"
proof (cases "ptr_of (xs ! i) = nullptr")
  case True
  with assms(4) show ?thesis by auto
next
  case False
  have "distinct (filter (\<lambda>p. p \<noteq> nullptr) (map ptr_of xs))" using assms(1) by (simp add: owners_def)
  from distinct_filter_nth [OF this assms(2)] False assms(2,3) show ?thesis by simp
qed

lemma impl_owns_distinct:
  assumes "impl_owns Ld Lh Ls m v"
  shows "dev_bytes (device_input m) \<noteq> 0 \<Longrightarrow> dev_ptr (device_input m) \<noteq> dev_ptr (device_output m)"
    "dev_bytes (device_mean m) \<noteq> 0 \<Longrightarrow> dev_ptr (device_mean m) \<notin> {dev_ptr (device_input m), dev_ptr (device_output m), dev_ptr (device_stddev m)}"
    "dev_bytes (device_stddev m) \<noteq> 0 \<Longrightarrow> dev_ptr (device_stddev m) \<notin> {dev_ptr (device_input m), dev_ptr (device_output m)}"
    "pin_bytes (host_input m) \<noteq> 0 \<Longrightarrow> pin_ptr (host_input m) \<noteq> pin_ptr (host_output m)"
proof -
  have o: "owners dev_ptr Ld (dev_bufs m) (dev_live v)" "owners pin_ptr Lh (host_bufs m) (host_live v)"
    using assms by (simp_all add: impl_owns_def)
  note d = owners_distinct [OF o(1)]
  show "dev_bytes (device_input m) \<noteq> 0 \<Longrightarrow> dev_ptr (device_input m) \<noteq> dev_ptr (device_output m)"
    using d [of 0 1] impl_owns_dev(1) [OF assms, of "device_input m"] by simp
  show "dev_bytes (device_mean m) \<noteq> 0 \<Longrightarrow> dev_ptr (device_mean m) \<notin> {dev_ptr (device_input m), dev_ptr (device_output m), dev_ptr (device_stddev m)}"
    using d [of 0 2] d [of 1 2] d [of 2 3] impl_owns_dev(1) [OF assms, of "device_mean m"] by (simp add: numeral_eq_Suc)
  show "dev_bytes (device_stddev m) \<noteq> 0 \<Longrightarrow> dev_ptr (device_stddev m) \<notin> {dev_ptr (device_input m), dev_ptr (device_output m)}"
    using d [of 0 3] d [of 1 3] impl_owns_dev(1) [OF assms, of "device_stddev m"] by (simp add: numeral_eq_Suc)
  show "pin_bytes (host_input m) \<noteq> 0 \<Longrightarrow> pin_ptr (host_input m) \<noteq> pin_ptr (host_output m)"
    using owners_distinct [OF o(2), of 0 1] impl_owns_pin(1) [OF assms, of "host_input m"] by simp
qed

lemma vector_bytes: "length xs \<le> vec_max_size \<Longrightarrow> xs \<noteq> [] \<Longrightarrow> vsize (xs :: f32 list) * 4 \<noteq> 0"
  using input_bytes(1) [of xs] by (auto simp: floats_def)

abbreviation (input) copy_constants :: "f32 list \<Rightarrow> f32 list \<Rightarrow> ('g oest, unit) cmd" where
  "copy_constants M T \<equiv>
     cbind (\<lambda>s. on_device (\<lambda>g. checked (cudaMemcpyToDevice (api g) (dev_ptr (device_mean (oimpl s))) M) ''cudaMemcpy (mean)'' g) s)
      (\<lambda>_ s. on_device (\<lambda>g. checked (cudaMemcpyToDevice (api g) (dev_ptr (device_stddev (oimpl s))) T) ''cudaMemcpy (stddev)'' g) s)"

lemma copy_constants_runs:
  assumes laws: "cuda_laws (api (ogpu s0))" and b: "building Ld Lh Ls s0 m s"
    and n0: "dev_bytes (device_mean m) \<noteq> 0" "dev_bytes (device_stddev m) \<noteq> 0"
    and n: "floats (dev_bytes (device_mean m)) = length M" "floats (dev_bytes (device_stddev m)) = length T"
    and Q: "\<And>s'. building Ld Lh Ls s0 m s' \<Longrightarrow> dev_data (gview_of (ogpu s')) (dev_ptr (device_mean m)) = M \<Longrightarrow>
      dev_data (gview_of (ogpu s')) (dev_ptr (device_stddev m)) = T \<Longrightarrow> Q () s'"
    and E: "\<And>e s'. building Ld Lh Ls s0 m s' \<Longrightarrow> E e s'"
  shows "runs (copy_constants M T) Q E s"
proof (rule runs_bind, rule upload_runs [where member = device_mean, OF laws b])
  have own: "impl_owns Ld Lh Ls m (gview_of (ogpu s'))" if "building Ld Lh Ls s0 m s'" for s'
    using that by (simp add: building_def)
  have ne: "dev_ptr (device_mean m) \<noteq> dev_ptr (device_stddev m)" using impl_owns_distinct(2) [OF own [OF b]] n0 by simp
  show "dev_ptr (device_mean m) \<noteq> nullptr" "dev_ptr (device_mean m) \<in> dev_live (gview_of (ogpu s))"
    "length (dev_data (gview_of (ogpu s)) (dev_ptr (device_mean m))) = length M"
    using impl_owns_dev [OF own [OF b], of "device_mean m"] n0 n by simp_all
  fix s3 assume b3: "building Ld Lh Ls s0 m s3"
    and d3: "dev_data (gview_of (ogpu s3)) (dev_ptr (device_mean m)) = M"
  show "runs (\<lambda>s. on_device (\<lambda>g. checked (cudaMemcpyToDevice (api g) (dev_ptr (device_stddev (oimpl s))) T) ''cudaMemcpy (stddev)'' g) s) Q E s3"
  proof (rule upload_runs [where member = device_stddev, OF laws b3])
    show "dev_ptr (device_stddev m) \<noteq> nullptr" "dev_ptr (device_stddev m) \<in> dev_live (gview_of (ogpu s3))"
      "length (dev_data (gview_of (ogpu s3)) (dev_ptr (device_stddev m))) = length T"
      using impl_owns_dev [OF own [OF b3], of "device_stddev m"] n0 n by simp_all
    fix s4 assume b4: "building Ld Lh Ls s0 m s4" and d4: "dev_data (gview_of (ogpu s4)) (dev_ptr (device_stddev m)) = T"
      and o4: "\<And>q. q \<noteq> dev_ptr (device_stddev m) \<Longrightarrow> dev_data (gview_of (ogpu s4)) q = dev_data (gview_of (ogpu s3)) q"
    have "dev_data (gview_of (ogpu s4)) (dev_ptr (device_mean m)) = M" using o4 [OF ne] d3 by simp
    with Q [OF b4] d4 show "Q () s4" by simp
  qed (rule E)
qed (rule E)

lemma upload_normalization_runs:
  assumes laws: "cuda_laws (api (ogpu s0))" and b: "building Ld Lh Ls s0 m s"
    and blank: "device_mean m = device_blank" "device_stddev m = device_blank"
    and xs: "ox_mean (oopts s0) \<noteq> []" "length (ox_mean (oopts s0)) \<le> vec_max_size"
      "length (ox_stddev (oopts s0)) = length (ox_mean (oopts s0))"
    and Q: "\<And>bm bt s'. building Ld Lh Ls s0 (m\<lparr>device_mean := bm, device_stddev := bt\<rparr>) s' \<Longrightarrow>
      dev_bytes bm \<noteq> 0 \<Longrightarrow> dev_bytes bt \<noteq> 0 \<Longrightarrow> dev_data (gview_of (ogpu s')) (dev_ptr bm) = ox_mean (oopts s0) \<Longrightarrow>
      dev_data (gview_of (ogpu s')) (dev_ptr bt) = ox_stddev (oopts s0) \<Longrightarrow> Q () s'"
    and E: "\<And>m' e s'. building Ld Lh Ls s0 m' s' \<Longrightarrow> E e s'"
  shows "runs upload_normalization Q E s"
proof -
  let ?M = "ox_mean (oopts s0)" and ?T = "ox_stddev (oopts s0)"
  let ?cmd = "cbind (emplace_device device_mean device_mean_update (vsize ?M * 4)) (\<lambda>_.
      cbind (emplace_device device_stddev device_stddev_update (vsize ?M * 4)) (\<lambda>_. copy_constants ?M ?T))"
  note bytes = vector_bytes [OF xs(2,1)] and fl = input_bytes(1) [OF xs(2)]
  have "oopts s = oopts s0" using b by (simp add: building_def)
  then have "upload_normalization s = ?cmd s" by (simp only: upload_normalization_def Let_def)
  moreover have "runs ?cmd Q E s"
  proof (rule runs_bind, rule emplace_device_runs [OF laws b, of device_mean 2], goal_cases)
    case (7 bm s1)
    note b1 = this(2) and nm = this(1)
    show ?case
    proof (rule runs_bind, rule emplace_device_runs [OF laws b1, of device_stddev 3], goal_cases)
      case (7 bt s2)
      note nt = this(1)
      show ?case
        by (rule copy_constants_runs [OF laws 7(2)]) (use nm nt bytes fl xs(3) Q E in simp_all)
    next
      case (8 e s2)
      then show ?case by (rule E)
    qed (simp_all add: blank(2) numeral_eq_Suc)
  next
    case (8 e s1)
    then show ?case by (rule E)
  qed (simp_all add: blank(1) numeral_eq_Suc)
  ultimately show ?thesis by (rule runs_cong)
qed

text \<open>Options in the geometry of the network, with buckets that fit a vector and an \<open>int\<close>.\<close>

definition onnx_geometry :: "OnnxOptions \<Rightarrow> 'g ort_api \<Rightarrow> bool" where
  "onnx_geometry opts l \<longleftrightarrow> unat (ox_input_elems opts) = image_elems \<and> unat (ox_output_elems opts) = network_width l \<and>
     0 < network_width l \<and> onnx_max_batch opts \<noteq> 0 \<and> unat (onnx_max_batch opts) < 2 ^ 31 \<and>
     geometry_ok (onnx_max_batch opts) (ox_input_elems opts) (ox_output_elems opts) \<and>
     length (ox_mean opts) < 2 ^ 31 \<and> length (ox_stddev opts) < 2 ^ 31"

lemma geometry_bytes:
  assumes "onnx_geometry opts l"
  defines "k \<equiv> unat (onnx_max_batch opts)"
  shows "floats (onnx_max_batch opts * ox_input_elems opts * 4) = k * image_elems"
    "floats (onnx_max_batch opts * ox_output_elems opts * 4) = k * network_width l"
    "onnx_max_batch opts * ox_input_elems opts * 4 \<noteq> 0" "onnx_max_batch opts * ox_output_elems opts * 4 \<noteq> 0"
proof -
  note g = assms(1) [unfolded onnx_geometry_def geometry_ok_def]
  have p: "k * unat (ox_input_elems opts) \<le> vec_max_size" "k * unat (ox_output_elems opts) \<le> vec_max_size"
    and e: "unat (ox_input_elems opts) = image_elems" "unat (ox_output_elems opts) = network_width l"
    using g unfolding k_def by blast+
  show i: "floats (onnx_max_batch opts * ox_input_elems opts * 4) = k * image_elems"
    using bytes_of_product(2) [OF p(1) [unfolded k_def]] by (simp only: e k_def)
  show o: "floats (onnx_max_batch opts * ox_output_elems opts * 4) = k * network_width l"
    using bytes_of_product(2) [OF p(2) [unfolded k_def]] by (simp only: e k_def)
  have "0 < k * image_elems" "0 < k * network_width l" using g by (simp_all add: k_def image_elems_def unat_gt_0)
  then show "onnx_max_batch opts * ox_input_elems opts * 4 \<noteq> 0" "onnx_max_batch opts * ox_output_elems opts * 4 \<noteq> 0"
    using i o by (auto simp: floats_def)
qed

lemma built_blocks:
  assumes own: "impl_owns Ld Lh Ls (oimpl s) (gview_of (ogpu s))" and geo: "onnx_geometry opts (ort s)"
    and x: "copy_stream (oimpl s) \<noteq> 0"
    and b: "pin_bytes (host_input (oimpl s)) = onnx_max_batch opts * ox_input_elems opts * 4"
      "pin_bytes (host_output (oimpl s)) = onnx_max_batch opts * ox_output_elems opts * 4"
      "dev_bytes (device_input (oimpl s)) = onnx_max_batch opts * ox_input_elems opts * 4"
      "dev_bytes (device_output (oimpl s)) = onnx_max_batch opts * ox_output_elems opts * 4"
  shows "bound_blocks (unat (onnx_max_batch opts)) s"
proof -
  note gb = geometry_bytes [OF geo]
  have n: "dev_bytes (device_input (oimpl s)) \<noteq> 0" "dev_bytes (device_output (oimpl s)) \<noteq> 0"
    "pin_bytes (host_input (oimpl s)) \<noteq> 0" "pin_bytes (host_output (oimpl s)) \<noteq> 0"
    using gb(3,4) by (simp_all only: b not_False_eq_True)
  have "copy_stream (oimpl s) \<in> stream_live (gview_of (ogpu s))" "inflight (gview_of (ogpu s)) = (\<lambda>_. {})"
    using own x by (simp_all add: impl_owns_def)
  then show ?thesis
    using impl_owns_dev [OF own _ n(1)] impl_owns_dev [OF own _ n(2)] impl_owns_pin [OF own _ n(3)]
      impl_owns_pin [OF own _ n(4)] impl_owns_distinct(1,4) [OF own] n
    unfolding bound_blocks_def Let_def by (simp add: b gb(1,2))
qed

text \<open>What the options promise about the normalisation.\<close>

definition normalization_options :: "OnnxOptions \<Rightarrow> bool" where
  "normalization_options opts \<longleftrightarrow> (ox_normalize_on_device opts \<longrightarrow> ox_use_io_binding opts \<and> ox_mean opts \<noteq> [] \<and>
     length (ox_stddev opts) = length (ox_mean opts) \<and> length (ox_mean opts) dvd unat (ox_input_elems opts))"

lemma check_onnx_options_ok:
  assumes "check_onnx_options opts ps = Ret ()" "length (ox_mean opts) < 2 ^ 31" "length (ox_stddev opts) < 2 ^ 31"
  shows "sorted (ox_batch_buckets opts)" "normalization_options opts"
proof -
  show "sorted (ox_batch_buckets opts)" using assms(1) by (auto simp: check_onnx_options_def split: if_splits)
  have u: "unat (vsize (ox_mean opts)) = length (ox_mean opts)" "unat (vsize (ox_stddev opts)) = length (ox_stddev opts)"
    using assms(2,3) by (simp_all add: unat_vsize)
  show "normalization_options opts"
    unfolding normalization_options_def
  proof (rule impI)
    assume "ox_normalize_on_device opts"
    then have c: "ox_use_io_binding opts" "ox_mean opts \<noteq> []" "vsize (ox_mean opts) = vsize (ox_stddev opts)"
      "ox_input_elems opts mod vsize (ox_mean opts) = 0"
      using assms(1) by (auto simp: check_onnx_options_def split: if_splits)
    have "length (ox_stddev opts) = length (ox_mean opts)" using u c(3) by simp
    moreover have "unat (ox_input_elems opts) mod length (ox_mean opts) = 0"
      using arg_cong [OF c(4), of unat] by (simp only: unat_mod u(1) unat_0)
    then have "length (ox_mean opts) dvd unat (ox_input_elems opts)" by (rule mod_0_imp_dvd)
    ultimately show "ox_use_io_binding opts \<and> ox_mean opts \<noteq> [] \<and> length (ox_stddev opts) = length (ox_mean opts) \<and>
        length (ox_mean opts) dvd unat (ox_input_elems opts)"
      using c(1,2) by blast
  qed
qed

text \<open>After \<open>allocate_device_buffers\<close>: the flag says whether the bound path is complete.\<close>

definition allocated :: "addr set \<Rightarrow> addr set \<Rightarrow> stream set \<Rightarrow> 'g oest \<Rightarrow> 'g oest \<Rightarrow> bool" where
  "allocated Ld Lh Ls s0 s \<longleftrightarrow>
     (\<exists>m f. building Ld Lh Ls (s0\<lparr>oeng := (oeng s0)\<lparr>io_binding_active := f\<rparr>\<rparr>) m s \<and>
        (f \<longrightarrow> bound_blocks (unat (onnx_max_batch (oopts s0))) s \<and> normalization_ready s) \<and>
        (ox_normalize_on_device (oopts s0) \<longrightarrow> f))"

lemma building_undisturbed: "building Ld Lh Ls s0 m s \<Longrightarrow> undisturbed s s' \<Longrightarrow> building Ld Lh Ls s0 m s'"
  by (simp add: building_def undisturbed_def)

lemma building_same:
  "building Ld Lh Ls s0 m s \<Longrightarrow> same_blocks (gview_of (ogpu s)) (gview_of g) \<Longrightarrow> api g = api (ogpu s) \<Longrightarrow>
   building Ld Lh Ls s0 m (s\<lparr>ogpu := g\<rparr>)"
  by (auto simp: building_def intro: impl_owns_same)

lemma finished_allocation:
  assumes b: "building Ld Lh Ls s0 m s" and geo: "onnx_geometry (oopts s0) (ort s0)"
    and m: "copy_stream m \<noteq> 0"
      "pin_bytes (host_input m) = onnx_max_batch (oopts s0) * ox_input_elems (oopts s0) * 4"
      "pin_bytes (host_output m) = onnx_max_batch (oopts s0) * ox_output_elems (oopts s0) * 4"
      "dev_bytes (device_input m) = onnx_max_batch (oopts s0) * ox_input_elems (oopts s0) * 4"
      "dev_bytes (device_output m) = onnx_max_batch (oopts s0) * ox_output_elems (oopts s0) * 4"
    and no: "normalization_options (oopts s0)"
    and norm: "ox_normalize_on_device (oopts s0) \<Longrightarrow> dev_bytes (device_mean m) \<noteq> 0 \<and> dev_bytes (device_stddev m) \<noteq> 0 \<and>
      dev_data (gview_of (ogpu s)) (dev_ptr (device_mean m)) = ox_mean (oopts s0) \<and>
      dev_data (gview_of (ogpu s)) (dev_ptr (device_stddev m)) = ox_stddev (oopts s0)"
  shows "runs (set_io_binding True) (\<lambda>_ s'. allocated Ld Lh Ls s0 s') E s"
proof -
  let ?s = "s\<lparr>oeng := (oeng s)\<lparr>io_binding_active := True\<rparr>\<rparr>"
  note bd = b [unfolded building_def]
  have own: "impl_owns Ld Lh Ls m (gview_of (ogpu s))" using bd by blast
  have "bound_blocks (unat (onnx_max_batch (oopts s0))) ?s"
    by (rule built_blocks [of Ld Lh Ls]) (use bd m geo in \<open>simp_all\<close>)
  moreover have "normalization_ready ?s"
    unfolding normalization_ready_def Let_def
  proof (rule impI)
    assume "ox_normalize_on_device (oopts ?s)"
    then have n: "ox_normalize_on_device (oopts s0)" using bd by simp
    note nm = norm [OF n]
    then have nz: "dev_bytes (device_mean m) \<noteq> 0" "dev_bytes (device_stddev m) \<noteq> 0" by blast+
    have "length (ox_mean (oopts s0)) < 2 ^ 31" using geo by (simp add: onnx_geometry_def)
    then show "dev_ptr (device_mean (oimpl ?s)) \<in> dev_live (gview_of (ogpu ?s)) \<and>
      dev_ptr (device_stddev (oimpl ?s)) \<in> dev_live (gview_of (ogpu ?s)) \<and>
      dev_ptr (device_mean (oimpl ?s)) \<noteq> nullptr \<and> dev_ptr (device_stddev (oimpl ?s)) \<noteq> nullptr \<and>
      {dev_ptr (device_mean (oimpl ?s)), dev_ptr (device_stddev (oimpl ?s))} \<inter>
        {dev_ptr (device_input (oimpl ?s)), dev_ptr (device_output (oimpl ?s))} = {} \<and>
      dev_data (gview_of (ogpu ?s)) (dev_ptr (device_mean (oimpl ?s))) = ox_mean (oopts ?s) \<and>
      dev_data (gview_of (ogpu ?s)) (dev_ptr (device_stddev (oimpl ?s))) = ox_stddev (oopts ?s) \<and>
      length (ox_stddev (oopts ?s)) = length (ox_mean (oopts ?s)) \<and> ox_mean (oopts ?s) \<noteq> [] \<and>
      length (ox_mean (oopts ?s)) < 2 ^ 31 \<and> length (ox_mean (oopts ?s)) dvd unat (ox_input_elems (oopts ?s))"
      using bd nm no n impl_owns_dev [OF own _ nz(1)] impl_owns_dev [OF own _ nz(2)]
        impl_owns_distinct(2,3) [OF own] nz by (simp add: normalization_options_def)
  qed
  ultimately show ?thesis
    using bd by (auto simp: runs_def set_io_binding_def allocated_def building_def intro!: exI [of _ m] exI [of _ True])
qed

text \<open>The last stages: zeroed staging, the constants, the description of device memory, the flag.\<close>

definition full_impl :: "OnnxOptions \<Rightarrow> OnnxImpl \<Rightarrow> bool" where
  "full_impl opts m \<longleftrightarrow> copy_stream m \<noteq> 0 \<and>
     pin_bytes (host_input m) = onnx_max_batch opts * ox_input_elems opts * 4 \<and>
     pin_bytes (host_output m) = onnx_max_batch opts * ox_output_elems opts * 4 \<and>
     dev_bytes (device_input m) = onnx_max_batch opts * ox_input_elems opts * 4 \<and>
     dev_bytes (device_output m) = onnx_max_batch opts * ox_output_elems opts * 4"

text \<open>The last steps of the allocation, backwards: the flag, the constants, the cleared staging block.\<close>

abbreviation (input) allocate_last :: "'g oest \<Rightarrow> ('g oest, unit) cmd" where
  "allocate_last s0 \<equiv>
     cbind (ort_call (\<lambda>l. CudaMemoryInfo l (ox_device_id (oopts s0)))) (\<lambda>_. set_io_binding True)"

lemma allocate_last_runs:
  assumes laws: "ort_laws (api (ogpu s0)) (ort s0)" and geo: "onnx_geometry (oopts s0) (ort s0)"
    and no: "normalization_options (oopts s0)" and b: "building Ld Lh Ls s0 m s" and f: "full_impl (oopts s0) m"
    and nm: "ox_normalize_on_device (oopts s0) \<Longrightarrow> dev_bytes (device_mean m) \<noteq> 0 \<and> dev_bytes (device_stddev m) \<noteq> 0 \<and>
      dev_data (gview_of (ogpu s)) (dev_ptr (device_mean m)) = ox_mean (oopts s0) \<and>
      dev_data (gview_of (ogpu s)) (dev_ptr (device_stddev m)) = ox_stddev (oopts s0)"
  shows "runs (allocate_last s0) (\<lambda>_ s'. allocated Ld Lh Ls s0 s') (\<lambda>e s'. \<exists>m. building Ld Lh Ls s0 m s') s"
proof (rule runs_bind, rule runs_ort_call)
  show "ort_quiet (api (ogpu s)) (CudaMemoryInfo (ort s) (ox_device_id (oopts s0)))"
    using b ort_lawsD(9) [OF laws] by (simp add: building_def)
  show "runs (set_io_binding True) (\<lambda>_ s'. allocated Ld Lh Ls s0 s') (\<lambda>e s'. \<exists>m. building Ld Lh Ls s0 m s') s2"
    if u: "undisturbed s s2" for s2
    by (rule finished_allocation [OF building_undisturbed [OF b u] geo])
      (use f no nm u in \<open>simp_all add: full_impl_def undisturbed_def\<close>)
  show "\<exists>m. building Ld Lh Ls s0 m s2" if "undisturbed s s2" for e s2 using building_undisturbed [OF b that] by blast
qed

lemma allocate_constants_runs:
  assumes laws: "cuda_laws (api (ogpu s0))" "ort_laws (api (ogpu s0)) (ort s0)" and geo: "onnx_geometry (oopts s0) (ort s0)"
    and no: "normalization_options (oopts s0)"
    and b: "building Ld Lh Ls s0 m s" and m: "full_impl (oopts s0) m" "device_mean m = device_blank" "device_stddev m = device_blank"
  shows "runs (cbind (if ox_normalize_on_device (oopts s0) then upload_normalization else cret ()) (\<lambda>_. allocate_last s0))
    (\<lambda>_ s'. allocated Ld Lh Ls s0 s') (\<lambda>e s'. \<exists>m. building Ld Lh Ls s0 m s') s"
proof (cases "ox_normalize_on_device (oopts s0)")
  case True
  have x: "ox_mean (oopts s0) \<noteq> []" "length (ox_mean (oopts s0)) \<le> vec_max_size"
    "length (ox_stddev (oopts s0)) = length (ox_mean (oopts s0))"
    using True no geo by (simp_all add: normalization_options_def onnx_geometry_def vec_max_size_def)
  have "runs (cbind upload_normalization (\<lambda>_. allocate_last s0))
      (\<lambda>_ s'. allocated Ld Lh Ls s0 s') (\<lambda>e s'. \<exists>m. building Ld Lh Ls s0 m s') s"
  proof (rule runs_bind, rule upload_normalization_runs [OF laws(1) b m(2,3) x], goal_cases)
    case (1 bm bt s')
    show ?case by (rule allocate_last_runs [OF laws(2) geo no 1(1)]) (use m(1) 1 in \<open>simp_all add: full_impl_def\<close>)
  next
    case (2 m' e s')
    then show ?case by blast
  qed
  then show ?thesis using True by simp
next
  case False
  then show ?thesis using allocate_last_runs [OF laws(2) geo no b m(1)] by (intro runs_bind) simp
qed

lemma allocate_tail:
  assumes laws: "cuda_laws (api (ogpu s0))" "ort_laws (api (ogpu s0)) (ort s0)" and geo: "onnx_geometry (oopts s0) (ort s0)"
    and no: "normalization_options (oopts s0)"
    and b: "building Ld Lh Ls s0 m s" and m: "full_impl (oopts s0) m" "device_mean m = device_blank" "device_stddev m = device_blank"
  shows "runs (cbind (\<lambda>s. on_device (write_host (pin_ptr (host_input (oimpl s)))
         (replicate (floats (onnx_max_batch (oopts s0) * ox_input_elems (oopts s0) * 4)) fzero)) s) (\<lambda>_.
       cbind (if ox_normalize_on_device (oopts s0) then upload_normalization else cret ()) (\<lambda>_. allocate_last s0)))
     (\<lambda>_ s'. allocated Ld Lh Ls s0 s') (\<lambda>e s'. \<exists>m. building Ld Lh Ls s0 m s') s"
proof -
  let ?n = "onnx_max_batch (oopts s0) * ox_input_elems (oopts s0) * 4"
  note fm = m(1) [unfolded full_impl_def] and bd = b [unfolded building_def]
  have own: "impl_owns Ld Lh Ls m (gview_of (ogpu s))" using bd by blast
  have nz: "pin_bytes (host_input m) \<noteq> 0" using geometry_bytes(3) [OF geo] fm by simp
  note hp = impl_owns_pin [OF own _ nz, simplified]
  have l: "cuda_laws (api (ogpu s))" using laws(1) bd by simp
  have le: "length (replicate (floats ?n) fzero) \<le> length (host_data (gview_of (ogpu s)) (pin_ptr (host_input m)))"
    using hp(3) fm by simp
  obtain g where g: "write_host (pin_ptr (host_input m)) (replicate (floats ?n) fzero) (ogpu s) = (Ret (), g)" "api g = api (ogpu s)"
    "same_blocks (gview_of (ogpu s)) (gview_of g)"
    by (rule write_host_ok [OF l hp(2) le]) (use own in \<open>auto simp: impl_owns_def\<close>)
  have mm: "oimpl s = m" using bd by simp
  show ?thesis
    using allocate_constants_runs [OF laws geo no building_same [OF b g(3,2)] m] g(1) mm
    by (intro runs_bind) (simp add: runs_def on_device_def)
qed

text \<open>The buffers of the bound path, one after the other.\<close>

lemma allocate_members:
  assumes laws: "cuda_laws (api (ogpu s0))" and b: "building Ld Lh Ls s0 impl_new s"
    and k: "\<And>m s'. building Ld Lh Ls s0 m s' \<Longrightarrow> full_impl (oopts s0) m \<Longrightarrow> device_mean m = device_blank \<Longrightarrow>
      device_stddev m = device_blank \<Longrightarrow> runs k Q (\<lambda>e s'. \<exists>m. building Ld Lh Ls s0 m s') s'"
  shows "runs (cbind create_stream (\<lambda>_.
      cbind (emplace_pinned host_input host_input_update (onnx_max_batch (oopts s0) * ox_input_elems (oopts s0) * 4)) (\<lambda>_.
      cbind (emplace_pinned host_output host_output_update (onnx_max_batch (oopts s0) * ox_output_elems (oopts s0) * 4)) (\<lambda>_.
      cbind (emplace_device device_input device_input_update (onnx_max_batch (oopts s0) * ox_input_elems (oopts s0) * 4)) (\<lambda>_.
      cbind (emplace_device device_output device_output_update (onnx_max_batch (oopts s0) * ox_output_elems (oopts s0) * 4)) (\<lambda>_. k))))))
    Q (\<lambda>e s'. \<exists>m. building Ld Lh Ls s0 m s') s"
proof (rule runs_bind, rule create_stream_runs [OF laws b], goal_cases)
  case (2 x s1)
  note b1 = this(2) and x = this(1)
  show ?case
  proof (rule runs_bind, rule emplace_pinned_runs [OF laws b1, of host_input 0], goal_cases)
    case (7 hi s2)
    note b2 = this(2) and hi = this(1)
    show ?case
    proof (rule runs_bind, rule emplace_pinned_runs [OF laws b2, of host_output 1], goal_cases)
      case (7 ho s3)
      note b3 = this(2) and ho = this(1)
      show ?case
      proof (rule runs_bind, rule emplace_device_runs [OF laws b3, of device_input 0], goal_cases)
        case (7 di s4)
        note b4 = this(2) and di = this(1)
        show ?case
        proof (rule runs_bind, rule emplace_device_runs [OF laws b4, of device_output 1], goal_cases)
          case (7 dout s5)
          show ?case by (rule k [OF 7(2)]) (use x hi ho di 7(1) in \<open>simp_all add: full_impl_def impl_new_def\<close>)
        qed (simp_all add: impl_new_def, blast)
      qed (simp_all add: impl_new_def, blast)
    qed (simp_all add: impl_new_def, blast)
  qed (simp_all add: impl_new_def, blast)
qed (simp_all add: impl_new_def, blast)

lemma allocate_runs:
  assumes laws: "cuda_laws (api (ogpu s0))" "ort_laws (api (ogpu s0)) (ort s0)" and geo: "onnx_geometry (oopts s0) (ort s0)"
    and no: "normalization_options (oopts s0)" and b: "building Ld Lh Ls s0 impl_new s0"
  shows "runs allocate_device_buffers (\<lambda>_ s'. allocated Ld Lh Ls s0 s')
    (\<lambda>e s'. impl_owns Ld Lh Ls (oimpl s') (gview_of (ogpu s')) \<and> api (ogpu s') = api (ogpu s0)) s0"
proof -
  let ?E = "\<lambda>e s'. \<exists>m. building Ld Lh Ls s0 m s'" and ?Q = "\<lambda>_ s'. allocated Ld Lh Ls s0 s'"
  let ?opts = "oopts s0"
  let ?in = "onnx_max_batch ?opts * ox_input_elems ?opts * 4" and ?out = "onnx_max_batch ?opts * ox_output_elems ?opts * 4"
  let ?body = "cbind (on_device (\<lambda>g. checked (cudaSetDevice (api g) (ox_device_id ?opts)) ''cudaSetDevice'' g)) (\<lambda>_.
     cbind create_stream (\<lambda>_.
     cbind (emplace_pinned host_input host_input_update ?in) (\<lambda>_.
     cbind (emplace_pinned host_output host_output_update ?out) (\<lambda>_.
     cbind (emplace_device device_input device_input_update ?in) (\<lambda>_.
     cbind (emplace_device device_output device_output_update ?out) (\<lambda>_.
     cbind (\<lambda>s. on_device (write_host (pin_ptr (host_input (oimpl s))) (replicate (floats ?in) fzero)) s) (\<lambda>_.
     cbind (if ox_normalize_on_device ?opts then upload_normalization else cret ()) (\<lambda>_.
     cbind (ort_call (\<lambda>l. CudaMemoryInfo l (ox_device_id ?opts))) (\<lambda>_. set_io_binding True)))))))))"
  let ?handler = "\<lambda>e. cbind (set_io_binding False) (\<lambda>_. if ox_normalize_on_device ?opts then cthrow e else cret ())"
  obtain r g where c: "checked (cudaSetDevice (api (ogpu s0)) (ox_device_id ?opts)) ''cudaSetDevice'' (ogpu s0) = (r, g)" by fastforce
  note sd = checked_set_device [OF laws(1) c]
  have b1: "building Ld Lh Ls s0 impl_new (s0\<lparr>ogpu := g\<rparr>)"
    by (rule building_same [OF b]) (use sd in \<open>simp_all add: same_blocks_def\<close>)
  have body: "runs ?body ?Q ?E s0"
  proof (rule runs_bind, rule runs_on_device [where r = r and g = g])
    show "checked (cudaSetDevice (api (ogpu s0)) (ox_device_id ?opts)) ''cudaSetDevice'' (ogpu s0) = (r, g)" by (rule c)
    fix x
    show "runs (cbind create_stream (\<lambda>_.
     cbind (emplace_pinned host_input host_input_update ?in) (\<lambda>_.
     cbind (emplace_pinned host_output host_output_update ?out) (\<lambda>_.
     cbind (emplace_device device_input device_input_update ?in) (\<lambda>_.
     cbind (emplace_device device_output device_output_update ?out) (\<lambda>_.
     cbind (\<lambda>s. on_device (write_host (pin_ptr (host_input (oimpl s))) (replicate (floats ?in) fzero)) s) (\<lambda>_.
     cbind (if ox_normalize_on_device ?opts then upload_normalization else cret ()) (\<lambda>_.
     cbind (ort_call (\<lambda>l. CudaMemoryInfo l (ox_device_id ?opts))) (\<lambda>_. set_io_binding True)))))))) ) ?Q ?E (s0\<lparr>ogpu := g\<rparr>)"
      by (rule allocate_members [OF laws(1) b1]) (rule allocate_tail [OF laws geo no])
    show "?E e (s0\<lparr>ogpu := g\<rparr>)" for e using b1 by blast
    show "defined_res r" using sd(3) by auto
  qed
  have "runs (try_catch ?body ?handler) ?Q
      (\<lambda>e s'. impl_owns Ld Lh Ls (oimpl s') (gview_of (ogpu s')) \<and> api (ogpu s') = api (ogpu s0)) s0"
  proof (rule runs_try, rule runs_mono [OF body])
    fix e s' assume "?E e s'"
    then obtain m where m: "building Ld Lh Ls s0 m s'" by blast
    let ?s = "s'\<lparr>oeng := (oeng s')\<lparr>io_binding_active := False\<rparr>\<rparr>"
    have "building Ld Lh Ls (s0\<lparr>oeng := (oeng s0)\<lparr>io_binding_active := False\<rparr>\<rparr>) m ?s" using m by (simp add: building_def)
    then have al: "\<not> ox_normalize_on_device ?opts \<Longrightarrow> allocated Ld Lh Ls s0 ?s" unfolding allocated_def by blast
    show "runs (?handler e) ?Q (\<lambda>e s'. impl_owns Ld Lh Ls (oimpl s') (gview_of (ogpu s')) \<and> api (ogpu s') = api (ogpu s0)) s'"
      using m al by (intro runs_bind) (simp add: runs_def set_io_binding_def cthrow_def cret_def building_def)
  qed
  then show ?thesis by (rule runs_cong [rotated]) (simp only: allocate_device_buffers_def Let_def)
qed

section \<open>Construction\<close>

lemma sorted_le_last: "sorted xs \<Longrightarrow> x \<in> set xs \<Longrightarrow> x \<le> last xs"
  by (induction xs) (auto split: if_splits intro: order_trans)

lemma first_bucket_self: "sorted bs \<Longrightarrow> b \<in> set bs \<Longrightarrow> first_bucket bs b = b"
  using first_bucket_ge [of b bs] first_bucket_least [of bs b b] by auto

text \<open>An engine in the geometry of its options serves every bucket.\<close>

lemma serves_bucket:
  assumes geo: "onnx_geometry (oopts s) (ort s)" and so: "sorted (ox_batch_buckets (oopts s))"
    and n: "n \<le> onnx_max_batch (oopts s)" "ox_batch_buckets (oopts s) \<noteq> []"
    and blk: "io_binding_active (oeng s) \<Longrightarrow> bound_blocks (unat (onnx_max_batch (oopts s))) s"
  shows "onnx_serves s n (ox_input_elems (oopts s)) (ox_output_elems (oopts s))"
proof -
  let ?bs = "ox_batch_buckets (oopts s)" and ?p = "onnx_bucket_for (oopts s) n"
  have last: "onnx_max_batch (oopts s) = last ?bs" using n(2) by (simp add: onnx_max_batch_def)
  have "?p \<le> onnx_max_batch (oopts s)"
    using n so first_bucket_least [of ?bs "last ?bs" n] by (simp add: onnx_bucket_for_def last)
  then show ?thesis
    using geo n blk geometry_ok_mono [of "onnx_max_batch (oopts s)" _ _ ?p] unfolding onnx_serves_def Let_def
    by (simp add: onnx_geometry_def last word_le_nat_alt)
qed

text \<open>The constructed engine, in or out of use.\<close>

definition onnx_live :: "addr set \<Rightarrow> addr set \<Rightarrow> stream set \<Rightarrow> OnnxOptions \<Rightarrow> 'g oest \<Rightarrow> bool" where
  "onnx_live Ld Lh Ls opts s \<longleftrightarrow> onnx_ready s \<and> oopts s = opts \<and> impl_owns Ld Lh Ls (oimpl s) (gview_of (ogpu s)) \<and>
     (io_binding_active (oeng s) \<longrightarrow> bound_blocks (unat (onnx_max_batch opts)) s)"

lemma onnx_live_frame:
  assumes f: "batch_frame s s'" and l: "onnx_live Ld Lh Ls opts s"
  shows "onnx_live Ld Lh Ls opts s'"
proof -
  have e: "oeng s' = oeng s" "same_blocks (gview_of (ogpu s)) (gview_of (ogpu s'))" using f by (simp_all add: batch_frame_def)
  show ?thesis using l onnx_frame(1) [OF f] impl_owns_same [OF _ e(2)] by (simp add: onnx_live_def e(1) batch_frameD [OF f])
qed

lemma warm_each_runs:
  assumes "onnx_live Ld Lh Ls opts s" and "onnx_geometry opts (ort s)" and "set bs \<subseteq> set (ox_batch_buckets opts)"
  shows "runs (warm_each bs) (\<lambda>_ s'. onnx_live Ld Lh Ls opts s' \<and> ort s' = ort s \<and> api (ogpu s') = api (ogpu s)) E s"
  using assms
proof (induction bs arbitrary: s)
  case Nil
  then show ?case by (simp add: runs_def cret_def)
next
  case (Cons n bs)
  show ?case
  proof (cases "n = 0")
    case True
    then show ?thesis using Cons by (simp add: runs_def)
  next
    case False
    note geo = Cons.prems(2) and lv = Cons.prems(1) [unfolded onnx_live_def]
    have o: "oopts s = opts" and ready: "onnx_ready s" using lv by blast+
    have so: "sorted (ox_batch_buckets opts)" and mem: "n \<in> set (ox_batch_buckets opts)" using ready o Cons.prems(3) by (simp_all add: onnx_ready_def)
    have ne: "ox_batch_buckets opts \<noteq> []" using mem by auto
    have nl: "n \<le> onnx_max_batch opts" using sorted_le_last [OF so mem] ne by (simp add: onnx_max_batch_def)
    let ?ie = "ox_input_elems opts" and ?oe = "ox_output_elems opts"
    have sv: "onnx_serves s n ?ie ?oe" using serves_bucket [of s n] geo so nl ne lv by (simp add: o)
    have ge: "geometry_ok n ?ie ?oe" using geo nl geometry_ok_mono by (auto simp: onnx_geometry_def)
    have vf: "vec_filled (n * ?ie) fzero = Ret (replicate (unat n * unat ?ie) fzero)"
      using geometry_ok_products(1) [OF ge] ge by (simp add: vec_filled_def geometry_ok_def)
    obtain r s1 where run: "onnx_run_inference (replicate (unat n * unat ?ie) fzero) n ?ie ?oe s = (r, s1)" by fastforce
    note oc = onnx_run_cases [OF ready sv length_replicate run]
    then have f: "batch_frame s s1" by blast
    have s1: "onnx_live Ld Lh Ls opts s1" "ort s1 = ort s" "api (ogpu s1) = api (ogpu s)" using onnx_live_frame [OF f Cons.prems(1)] f by (simp_all add: batch_frame_def)
    have "warm_each (n # bs) s = warm_each bs s1"
      using oc False run vf by (auto simp: cbind_def try_catch_def o Let_def cret_def)
    with Cons.IH [OF s1(1)] Cons.prems geo s1(2,3) show ?thesis by (simp add: runs_def)
  qed
qed

text \<open>Before the buffers are allocated: the members are blank.\<close>

definition early :: "addr set \<Rightarrow> addr set \<Rightarrow> stream set \<Rightarrow> OnnxOptions \<Rightarrow> 'g ort_api \<Rightarrow> 'g cuda_api \<Rightarrow> 'g oest \<Rightarrow> bool" where
  "early Ld Lh Ls opts l a s \<longleftrightarrow> impl_owns Ld Lh Ls impl_new (gview_of (ogpu s)) \<and> oimpl s = impl_new \<and> oopts s = opts \<and>
     ort s = l \<and> api (ogpu s) = a \<and> \<not> io_binding_active (oeng s)"

definition abandoned :: "addr set \<Rightarrow> addr set \<Rightarrow> stream set \<Rightarrow> 'g cuda_api \<Rightarrow> 'g oest \<Rightarrow> bool" where
  "abandoned Ld Lh Ls a s \<longleftrightarrow> impl_owns Ld Lh Ls (oimpl s) (gview_of (ogpu s)) \<and> api (ogpu s) = a"

lemma early_undisturbed: "early Ld Lh Ls opts l a s \<Longrightarrow> undisturbed s s' \<Longrightarrow> early Ld Lh Ls opts l a s'"
  by (simp add: early_def undisturbed_def)

lemma early_abandoned: "early Ld Lh Ls opts l a s \<Longrightarrow> abandoned Ld Lh Ls a s"
  by (simp add: early_def abandoned_def)

text \<open>Calls of the library while the members are blank.\<close>

lemma early_call:
  assumes "early Ld Lh Ls opts l a s" "ort_quiet a (f l)"
    and "\<And>x s'. early Ld Lh Ls opts l a s' \<Longrightarrow> Q x s'"
    and "\<And>e s'. early Ld Lh Ls opts l a s' \<Longrightarrow> E e s'"
  shows "runs (ort_call f) Q E s"
proof (rule runs_ort_call)
  show "ort_quiet (api (ogpu s)) (f (ort s))" using assms(1,2) by (simp add: early_def)
qed (use early_undisturbed [OF assms(1)] assms(3,4) in blast)+

lemma create_session_runs:
  assumes l: "ort_laws a l" and s: "early Ld Lh Ls opts l a s"
  shows "runs create_session (\<lambda>_. early Ld Lh Ls opts l a) (\<lambda>_. early Ld Lh Ls opts l a) s"
proof -
  let ?R = "\<lambda>_ s. early Ld Lh Ls opts l a s"
  have "runs (cbind (ort_call (\<lambda>l. AppendExecutionProvider_CUDA l
             \<lparr>provider_device = ox_device_id opts, cudnn_conv_algo_search = ConvAlgoHeuristic\<rparr>)) (\<lambda>_.
           cbind (ort_call SetGraphOptimizationLevel) (\<lambda>_.
           cbind (ort_call (\<lambda>l. CreateSession l (ox_model_path opts))) (\<lambda>_. ort_call CreateCpu))))
         ?R (\<lambda>e s'. \<forall>e'. ?R e' s') s"
    by (rule runs_bind, rule early_call [OF s], rule ort_lawsD(2) [OF l], rule runs_bind, erule early_call, rule ort_lawsD(3) [OF l],
        rule runs_bind, erule early_call, rule ort_lawsD(4) [OF l], erule early_call, rule ort_lawsD(5) [OF l]) simp_all
  from runs_translate [OF this, of "''failed to initialize ONNX Runtime session''"] show ?thesis
    by (rule runs_cong [rotated]) (use s in \<open>simp add: create_session_def early_def Let_def\<close>)
qed

lemma query_providers_runs:
  assumes l: "ort_laws a l" and s: "early Ld Lh Ls opts l a s"
  shows "runs query_providers (\<lambda>_. early Ld Lh Ls opts l a) (\<lambda>_. early Ld Lh Ls opts l a) s"
  unfolding query_providers_def
  by (rule runs_bind, rule early_call [OF s], rule ort_lawsD(6) [OF l]) (simp_all add: runs_def early_def)

lemma query_names_runs:
  assumes l: "ort_laws a l" and s: "early Ld Lh Ls opts l a s"
  shows "runs query_names (\<lambda>_. early Ld Lh Ls opts l a) (\<lambda>_. early Ld Lh Ls opts l a) s"
  unfolding query_names_def
  by (rule runs_translate, rule runs_bind, rule early_call [OF s], rule ort_lawsD(7) [OF l], rule runs_bind,
      erule early_call, rule ort_lawsD(8) [OF l]) (simp_all add: runs_def early_def)

lemma early_building:
  assumes "early Ld Lh Ls opts l a s"
  shows "building Ld Lh Ls s impl_new s"
proof -
  have "oeng s = (oeng s)\<lparr>impl := impl_new\<rparr>" using assms by (cases "oeng s") (simp add: early_def)
  then show ?thesis using assms by (simp add: building_def early_def)
qed

text \<open>With or without the bound path, the engine is ready.\<close>

lemma allocation_runs:
  assumes laws: "cuda_laws a" "copies_succeed a" "ort_laws a l" and geo: "onnx_geometry opts l"
    and so: "sorted (ox_batch_buckets opts)" and no: "normalization_options opts" and s: "early Ld Lh Ls opts l a s"
  shows "runs (if ox_use_io_binding opts then allocate_device_buffers else cret ())
    (\<lambda>_ s'. onnx_live Ld Lh Ls opts s' \<and> ort s' = l \<and> api (ogpu s') = a) (\<lambda>_. abandoned Ld Lh Ls a) s"
proof (cases "ox_use_io_binding opts")
  case True
  note e = s [unfolded early_def]
  have "runs allocate_device_buffers (\<lambda>_ s'. allocated Ld Lh Ls s s')
      (\<lambda>e s'. impl_owns Ld Lh Ls (oimpl s') (gview_of (ogpu s')) \<and> api (ogpu s') = api (ogpu s)) s"
    by (rule allocate_runs [OF _ _ _ _ early_building [OF s]]) (use e laws geo no in simp_all)
  then have "runs allocate_device_buffers
      (\<lambda>_ s'. onnx_live Ld Lh Ls opts s' \<and> ort s' = l \<and> api (ogpu s') = a) (\<lambda>_. abandoned Ld Lh Ls a) s"
  proof (rule runs_mono)
    fix x s' assume "allocated Ld Lh Ls s s'"
    then obtain m f where m: "building Ld Lh Ls (s\<lparr>oeng := (oeng s)\<lparr>io_binding_active := f\<rparr>\<rparr>) m s'"
      "f \<longrightarrow> bound_blocks (unat (onnx_max_batch opts)) s' \<and> normalization_ready s'"
      "ox_normalize_on_device opts \<longrightarrow> f" using e by (auto simp: allocated_def)
    then show "onnx_live Ld Lh Ls opts s' \<and> ort s' = l \<and> api (ogpu s') = a"
      using e laws so by (simp add: building_def onnx_live_def onnx_ready_def onnx_laws_def)
  qed (use e in \<open>simp add: abandoned_def\<close>)
  then show ?thesis using True by simp
next
  case False
  then show ?thesis
    using s laws so no by (auto simp: early_def onnx_live_def onnx_ready_def onnx_laws_def normalization_options_def)
qed

lemma onnx_init_runs:
  assumes laws: "cuda_laws a" "copies_succeed a" "ort_laws a l" and geo: "onnx_geometry opts l"
    and s: "early Ld Lh Ls opts l a s"
  shows "runs onnx_engine_init (\<lambda>_ s'. onnx_live Ld Lh Ls opts s' \<and> ort s' = l \<and> api (ogpu s') = a) (\<lambda>_. abandoned Ld Lh Ls a) s"
proof -
  let ?Q = "\<lambda>_ s'. onnx_live Ld Lh Ls opts s' \<and> ort s' = l \<and> api (ogpu s') = a" and ?E = "\<lambda>_. abandoned Ld Lh Ls a"
  let ?warm = "\<lambda>_. if ox_warm_buckets opts then warm_buckets else cret ()"
  let ?alloc = "\<lambda>_. cbind (if ox_use_io_binding opts then allocate_device_buffers else cret ()) ?warm"
  have warm: "runs (?warm ()) ?Q ?E s1" if q: "?Q () s1" for s1
  proof (cases "ox_warm_buckets opts")
    case True
    have o: "oopts s1 = opts" using q by (simp add: onnx_live_def)
    have "runs (warm_each (ox_batch_buckets opts)) (\<lambda>_ s'. onnx_live Ld Lh Ls opts s' \<and> ort s' = ort s1 \<and> api (ogpu s') = api (ogpu s1)) ?E s1"
      by (rule warm_each_runs) (use q geo in simp_all)
    then show ?thesis using True q by (simp add: warm_buckets_def o runs_def)
  next
    case False
    then show ?thesis using q by simp
  qed
  have checks: "runs (\<lambda>s. (check_onnx_options opts (providers (oeng s)), s)) (\<lambda>_. runs (cbind query_names ?alloc) ?Q ?E) ?E s1"
    if e: "early Ld Lh Ls opts l a s1" for s1
  proof (cases "check_onnx_options opts (providers (oeng s1))")
    case (Ret u)
    have c: "sorted (ox_batch_buckets opts)" "normalization_options opts"
      using check_onnx_options_ok Ret geo by (auto simp: onnx_geometry_def)
    have "runs (cbind query_names ?alloc) ?Q ?E s1"
      by (rule runs_bind, rule runs_mono [OF query_names_runs [OF laws(3) e]], rule runs_bind,
          rule runs_mono [OF allocation_runs [OF laws geo c]])
        (use warm early_abandoned in blast)+
    then show ?thesis using Ret by (simp add: runs_def)
  next
    case (Throw x)
    then show ?thesis using early_abandoned [OF e] by (simp add: runs_def)
  qed (auto simp: check_onnx_options_def split: if_splits)
  have "runs (cbind (guard (ox_model_path opts \<noteq> []) (InferenceError ''OnnxExecutionEngine: model_path is empty'')) (\<lambda>_.
         cbind create_session (\<lambda>_. cbind query_providers (\<lambda>_.
         cbind (\<lambda>s. (check_onnx_options opts (providers (oeng s)), s)) (\<lambda>_. cbind query_names ?alloc))))) ?Q ?E s"
  proof (cases "ox_model_path opts = []")
    case True
    then show ?thesis using early_abandoned [OF s] by (intro runs_bind) (simp add: guard_def)
  next
    case False
    have "runs (cbind create_session (\<lambda>_. cbind query_providers (\<lambda>_.
         cbind (\<lambda>s. (check_onnx_options opts (providers (oeng s)), s)) (\<lambda>_. cbind query_names ?alloc)))) ?Q ?E s"
      by (rule runs_bind, rule runs_mono [OF create_session_runs [OF laws(3) s]], rule runs_bind,
          erule runs_mono [OF query_providers_runs [OF laws(3)]], rule runs_bind, erule checks)
        (use early_abandoned in blast)+
    then show ?thesis using False by (intro runs_bind) (simp add: guard_def)
  qed
  then show ?thesis by (rule runs_cong [rotated]) (use s in \<open>simp add: onnx_engine_init_def early_def Let_def\<close>)
qed

text \<open>The whole constructor: a live engine, or an exception and nothing left behind.\<close>

lemma onnx_new_cases:
  assumes laws: "cuda_laws (api g)" "copies_succeed (api g)" "ort_laws (api g) l" and fl: "inflight (gview_of g) = (\<lambda>_. {})"
    and geo: "onnx_geometry opts l" and new: "onnx_engine_new opts l g = (r, s)"
  obtains "r = Ret ()" "onnx_live (dev_live (gview_of g)) (host_live (gview_of g)) (stream_live (gview_of g)) opts s"
      "ort s = l" "api (ogpu s) = api g"
  | e where "r = Throw e" "lives (gview_of (ogpu s)) = lives (gview_of g)"
proof -
  let ?v = "gview_of g"
  let ?s0 = "\<lparr>oeng = \<lparr>onnx_options = opts, impl = impl_new, providers = [], input_name = [], output_name = [],
        io_binding_active = False\<rparr>, ogpu = g, ort = l\<rparr>"
  let ?Q = "\<lambda>_ s'. onnx_live (dev_live ?v) (host_live ?v) (stream_live ?v) opts s' \<and> ort s' = l \<and> api (ogpu s') = api g"
  let ?E = "\<lambda>_ s'. lives (gview_of (ogpu s')) = lives ?v"
  have s0: "early (dev_live ?v) (host_live ?v) (stream_live ?v) opts l (api g) ?s0"
    using impl_owns_new [OF fl] by (simp add: early_def)
  have body: "runs (con_throw onnx_engine_init (\<lambda>s. s\<lparr>ogpu := onnx_engine_destroy s\<rparr>)) ?Q ?E s1"
    if e: "early (dev_live ?v) (host_live ?v) (stream_live ?v) opts l (api g) s1" for s1
  proof -
    obtain q s2 where i: "onnx_engine_init s1 = (q, s2)" by fastforce
    have "lives (gview_of (onnx_engine_destroy s2)) = lives ?v"
      if "abandoned (dev_live ?v) (host_live ?v) (stream_live ?v) (api g) s2"
    proof -
      have own: "impl_owns (dev_live ?v) (host_live ?v) (stream_live ?v) (oimpl s2) (gview_of (ogpu s2))"
        and l2: "cuda_laws (api (ogpu s2))" using that laws(1) by (simp_all add: abandoned_def)
      show ?thesis using impl_destroy_ok [OF l2 own] by (simp add: onnx_engine_destroy_def lives_def)
    qed
    with runs_eq [OF i onnx_init_runs [OF laws geo e]] i show ?thesis by (auto simp: runs_def con_throw_def)
  qed
  have "runs (cbind (ort_call CreateEnv) (\<lambda>_. con_throw onnx_engine_init (\<lambda>s. s\<lparr>ogpu := onnx_engine_destroy s\<rparr>))) ?Q ?E ?s0"
    by (rule runs_bind, rule early_call [OF s0], rule ort_lawsD(1) [OF laws(3)], erule body)
      (simp add: early_def impl_owns_def impl_new_def owners_def lives_def device_blank_def pinned_blank_def)
  from runs_eq [OF new [unfolded onnx_engine_new_def] this] that show thesis by auto
qed

end
