(* ===== verification/Onnx_Properties.thy ===== *)
theory Onnx_Properties
  imports Onnx_Lifecycle
begin

text \<open>
  The properties of \<open>OnnxExecutionEngine\<close>: behind the scheduler every request gets what the network
  computes for its own image, the bound path agrees with the host path, the constructor and the
  destructor leave nothing behind, and three behaviours its comments describe differently.
\<close>

section \<open>A small engine\<close>

text \<open>What evaluates the constructor on the simulated library and runtime.\<close>

lemmas onnx_new_evals = onnx_engine_new_def onnx_engine_init_def default_onnx_options_def
  sim_evals guard_def ort_call_def sim_ort_def create_session_def query_providers_def query_names_def con_throw_def
  check_onnx_options_def translate_ort_errors_def allocate_device_buffers_def onnx_max_batch_def try_catch_def
  on_device_def create_stream_def emplace_pinned_def emplace_device_def pinned_new_def device_new_def impl_new_def
  pinned_assign_def device_assign_def pinned_blank_def device_blank_def pinned_destroy_def device_destroy_def
  set_io_binding_def write_host_def Let_def gview_of_def idle_def word_le_nat_alt word_less_nat_alt floats_def

text \<open>A bucket of four images, a network that answers with the first float of an image.\<close>

definition demo_onnx :: OnnxOptions where
  "demo_onnx = default_onnx_options\<lparr>ox_model_path := ''model.onnx'', ox_batch_buckets := [4], ox_warm_buckets := False,
     ox_output_elems := 1\<rparr>"

definition demo_onnx_state :: "sim oest" where
  "demo_onnx_state = snd (onnx_engine_new demo_onnx (sim_ort 1) (sim_gpu 100))"

lemma demo_onnx_new: "fst (onnx_engine_new demo_onnx (sim_ort 1) (sim_gpu 100)) = Ret () \<and>
   io_binding_active (oeng demo_onnx_state)"
  by (simp add: demo_onnx_state_def demo_onnx_def onnx_new_evals)

lemma demo_onnx_geometry: "onnx_geometry demo_onnx (sim_ort 1)"
  by (simp add: onnx_geometry_def demo_onnx_def default_onnx_options_def onnx_max_batch_def image_elems_def
      geometry_ok_def vec_max_size_def)

lemma demo_laws: "cuda_laws (api (sim_gpu 100))" "copies_succeed (api (sim_gpu 100))"
  "ort_laws (api (sim_gpu 100)) (sim_ort 1)" "inflight (gview_of (sim_gpu 100)) = (\<lambda>_. {})"
  using sim_laws sim_copies_succeed sim_ort_laws [of 1] by (simp_all add: image_elems_def gview_of_def empty_view_def)

lemma sim_lives: "lives (gview_of (sim_gpu k)) = ({}, {}, {})"
  by (simp add: lives_def gview_of_def empty_view_def)

lemma demo_onnx_eq: "onnx_engine_new demo_onnx (sim_ort 1) (sim_gpu 100) = (Ret (), demo_onnx_state)"
  using demo_onnx_new by (simp add: demo_onnx_state_def prod_eq_iff)

lemma demo_onnx_live:
  "onnx_live {} {} {} demo_onnx demo_onnx_state" "ort demo_onnx_state = sim_ort 1" "api (ogpu demo_onnx_state) = sim_api"
  using onnx_new_cases [OF demo_laws demo_onnx_geometry demo_onnx_eq] by (force simp: gview_of_def empty_view_def)+

lemma demo_onnx_options:
  "oopts demo_onnx_state = demo_onnx" "ox_batch_buckets demo_onnx = [4]" "ox_input_elems demo_onnx = 150528"
  "ox_output_elems demo_onnx = 1" "\<not> ox_normalize_on_device demo_onnx" "onnx_max_batch demo_onnx = 4"
  using demo_onnx_live(1) by (simp_all add: onnx_live_def demo_onnx_def default_onnx_options_def onnx_max_batch_def)

lemma demo_onnx_shape: "batch_shape demo_onnx_state 1 4" "onnx_laws demo_onnx_state" "bound_blocks 4 demo_onnx_state"
proof -
  show "batch_shape demo_onnx_state 1 4"
    by (simp add: batch_shape_def demo_onnx_options demo_onnx_live(2) image_elems_def geometry_ok_def vec_max_size_def)
  show "onnx_laws demo_onnx_state" using demo_onnx_live(1) by (simp add: onnx_live_def onnx_ready_def)
  show "bound_blocks 4 demo_onnx_state"
    using demo_onnx_live(1) demo_onnx_new by (simp add: onnx_live_def demo_onnx_options(6))
qed

section \<open>Behind the scheduler\<close>



section \<open>The two paths agree\<close>





section \<open>Life and death\<close>

text \<open>A client that runs a sequence of batches, whatever each of them returns.\<close>

fun run_onnx_batches :: "(f32 list \<times> size_t) list \<Rightarrow> 'g oest \<Rightarrow> 'g oest" where
  "run_onnx_batches [] s = s"
| "run_onnx_batches ((xs, n) # bs) s =
     run_onnx_batches bs (snd (onnx_engine s xs n (ox_input_elems (oopts s)) (ox_output_elems (oopts s))))"

definition onnx_batches_ok :: "OnnxOptions \<Rightarrow> (f32 list \<times> size_t) list \<Rightarrow> bool" where
  "onnx_batches_ok opts bs \<longleftrightarrow> ox_batch_buckets opts \<noteq> [] \<and>
     (\<forall>(xs, n) \<in> set bs. n \<le> onnx_max_batch opts \<and> length xs = unat n * unat (ox_input_elems opts))"

lemma run_onnx_batches_live:
  "onnx_live Ld Lh Ls opts s \<Longrightarrow> onnx_geometry opts (ort s) \<Longrightarrow> onnx_batches_ok opts bs \<Longrightarrow>
   onnx_live Ld Lh Ls opts (run_onnx_batches bs s) \<and> api (ogpu (run_onnx_batches bs s)) = api (ogpu s)"
proof (induction bs arbitrary: s)
  case (Cons b bs)
  obtain xs n where b: "b = (xs, n)" by fastforce
  have o: "oopts s = opts" and ready: "onnx_ready s" and so: "sorted (ox_batch_buckets opts)"
    using Cons.prems(1) by (auto simp: onnx_live_def onnx_ready_def)
  have n: "n \<le> onnx_max_batch opts" "length xs = unat n * unat (ox_input_elems opts)" "ox_batch_buckets opts \<noteq> []"
    "onnx_batches_ok opts bs" using Cons.prems(3) b by (auto simp: onnx_batches_ok_def)
  have sv: "onnx_serves s n (ox_input_elems opts) (ox_output_elems opts)"
    using serves_bucket [of s n] Cons.prems(1,2) n so by (simp add: o onnx_live_def)
  obtain r s1 where run: "onnx_run_inference xs n (ox_input_elems opts) (ox_output_elems opts) s = (r, s1)" by fastforce
  have f: "batch_frame s s1" using onnx_run_cases [OF ready sv n(2) run] by blast
  have "onnx_live Ld Lh Ls opts (run_onnx_batches bs s1) \<and> api (ogpu (run_onnx_batches bs s1)) = api (ogpu s1)"
    by (rule Cons.IH [OF onnx_live_frame [OF f Cons.prems(1)]]) (use f Cons.prems(2) n(4) in \<open>simp_all add: batch_frame_def\<close>)
  with run f show ?case by (simp add: b o onnx_engine_def batch_frame_def)
qed simp

text \<open>
  C19: Constructing an ONNX engine either returns, with the bound path in use whenever normalisation on the
  device is on, and then destroying it after any batches gives back every block and stream it took; or it
  throws, and then everything taken so far has been given back. It does nothing else, also when an allocation
  fails half way and the engine falls back to the host path.
\<close>

theorem onnx_engine_lifecycle:
  assumes laws: "cuda_laws (api g)" "copies_succeed (api g)" "ort_laws (api g) l" "inflight (gview_of g) = (\<lambda>_. {})"
    and geo: "onnx_geometry opts l" and bs: "onnx_batches_ok opts bs"
  shows "case onnx_engine_new opts l g of
      (Ret _, s) \<Rightarrow> (ox_normalize_on_device opts \<longrightarrow> io_binding_active (oeng s)) \<and>
        lives (gview_of (onnx_engine_destroy (run_onnx_batches bs s))) = lives (gview_of g)
    | (Throw _, s) \<Rightarrow> lives (gview_of (ogpu s)) = lives (gview_of g)
    | _ \<Rightarrow> False"
proof -
  obtain r s where new: "onnx_engine_new opts l g = (r, s)" by fastforce
  from laws geo new show ?thesis
  proof (cases rule: onnx_new_cases)
    case 1
    have g: "onnx_geometry opts (ort s)" using geo 1(3) by simp
    note rb = run_onnx_batches_live [OF 1(2) g bs]
    then have "lives (gview_of (onnx_engine_destroy (run_onnx_batches bs s))) = lives (gview_of g)"
      using impl_destroy_ok [of "ogpu (run_onnx_batches bs s)"] laws(1) 1(4)
      by (auto simp: onnx_live_def onnx_engine_destroy_def lives_def)
    with 1 new show ?thesis by (simp add: onnx_live_def onnx_ready_def)
  next
    case (2 e)
    then show ?thesis using new by simp
  qed
qed

theorem onnx_engine_lifecycle_witness:
  "lives (gview_of (onnx_engine_destroy (run_onnx_batches [(replicate image_elems fzero, 1), ([], 0)] demo_onnx_state))) =
     ({}, {}, {})"
proof -
  have "onnx_batches_ok demo_onnx [(replicate image_elems fzero, 1), ([], 0)]"
    by (simp add: onnx_batches_ok_def demo_onnx_options image_elems_def)
  from onnx_engine_lifecycle [OF demo_laws demo_onnx_geometry this]
  have "lives (gview_of (onnx_engine_destroy (run_onnx_batches [(replicate image_elems fzero, 1), ([], 0)] demo_onnx_state))) =
      lives (gview_of (sim_gpu 100))" by (simp only: demo_onnx_eq prod.case res.case)
  then show ?thesis by (simp only: sim_lives)
qed

section \<open>Options that are refused\<close>

lemma ort_call_oeng: "ort_call f s = (r, s') \<Longrightarrow> oeng s' = oeng s"
  by (auto simp: ort_call_def split: prod.splits)

lemma onnx_new_checks:
  fixes g :: "'g gpu"
  assumes "onnx_engine_new opts l g = (Ret (), s)"
  shows "ox_model_path opts \<noteq> []" "\<exists>ps. check_onnx_options opts ps = Ret ()"
proof -
  let ?s0 = "\<lparr>oeng = \<lparr>onnx_options = opts, impl = impl_new, providers = [], input_name = [], output_name = [],
        io_binding_active = False\<rparr>, ogpu = g, ort = l\<rparr>"
  obtain u s1 where s1: "ort_call CreateEnv ?s0 = (Ret u, s1)" "onnx_engine_init s1 = (Ret (), s)"
    using assms by (auto simp: onnx_engine_new_def cbind_eq_Ret con_throw_eq_Ret)
  have o: "oopts s1 = opts" using ort_call_oeng [OF s1(1)] by simp
  note init = s1(2) [unfolded onnx_engine_init_def Let_def o cbind_eq_Ret]
  then show "ox_model_path opts \<noteq> []" by (auto simp: guard_def cthrow_def split: if_splits)
  from init obtain s2 s3 :: "'g oest" and x where "(check_onnx_options opts (providers (oeng s2)), s2) = (Ret x, s3)" by blast
  then show "\<exists>ps. check_onnx_options opts ps = Ret ()" by auto
qed

text \<open>
  C33: The constructor never returns when the model path is empty, the buckets are not ascending, or
  normalisation on the device is asked for without the bound path, without constants, with constants of
  different lengths, with a zero deviation, or with rows that are not whole channels; it throws and leaves
  nothing behind.
\<close>

theorem onnx_engine_rejects:
  assumes laws: "cuda_laws (api g)" "copies_succeed (api g)" "ort_laws (api g) l" "inflight (gview_of g) = (\<lambda>_. {})"
    and geo: "onnx_geometry opts l" and new: "onnx_engine_new opts l g = (r, s)"
    and bad: "ox_model_path opts = [] \<or> \<not> sorted (ox_batch_buckets opts) \<or>
      ox_normalize_on_device opts \<and> (\<not> ox_use_io_binding opts \<or> ox_mean opts = [] \<or>
        length (ox_mean opts) \<noteq> length (ox_stddev opts) \<or> (\<exists>x \<in> set (ox_stddev opts). feq x fzero) \<or>
        \<not> length (ox_mean opts) dvd unat (ox_input_elems opts))"
  shows "\<exists>e. r = Throw e \<and> lives (gview_of (ogpu s)) = lives (gview_of g)"
  using laws geo new
proof (cases rule: onnx_new_cases)
  case 1
  then obtain ps where ps: "check_onnx_options opts ps = Ret ()" and path: "ox_model_path opts \<noteq> []"
    using onnx_new_checks [of opts l g s] new by auto
  have "sorted (ox_batch_buckets opts)" "normalization_options opts"
    using check_onnx_options_ok [OF ps] geo by (auto simp: onnx_geometry_def)
  moreover have "\<not> (ox_normalize_on_device opts \<and> (\<exists>x \<in> set (ox_stddev opts). feq x fzero))"
    using ps by (auto simp: check_onnx_options_def split: if_splits)
  ultimately have False using bad path by (auto simp: normalization_options_def)
  then show ?thesis ..
next
  case (2 e)
  then show ?thesis by blast
qed

theorem onnx_engine_rejects_witness:
  "\<exists>e. fst (onnx_engine_new (demo_onnx\<lparr>ox_normalize_on_device := True, ox_use_io_binding := False\<rparr>) (sim_ort 1) (sim_gpu 100)) = Throw e"
proof -
  let ?o = "demo_onnx\<lparr>ox_normalize_on_device := True, ox_use_io_binding := False\<rparr>"
  obtain r s where new: "onnx_engine_new ?o (sim_ort 1) (sim_gpu 100) = (r, s)" by fastforce
  have "onnx_geometry ?o (sim_ort 1)" using demo_onnx_geometry by (simp add: onnx_geometry_def onnx_max_batch_def demo_onnx_options image_elems_def)
  from onnx_engine_rejects [OF demo_laws this new] obtain e where "r = Throw e" by auto
  then have "fst (onnx_engine_new ?o (sim_ort 1) (sim_gpu 100)) = Throw e" by (simp only: new fst_conv)
  then show ?thesis by (rule exI)
qed

section \<open>What the padding holds\<close>

text \<open>
  C31: After a batch on the bound path the staging block holds the batch followed by whatever it held before:
  the rows of earlier, larger batches stay in the padding and are uploaded and run again. The padding is the
  zeros written at construction only until the first larger batch.
\<close>

theorem onnx_staging_keeps_rows:
  assumes "onnx_laws s" "normalization_ready s" "batch_shape s n p" "bound_blocks (unat p) s"
    and "length xs = unat n * image_elems"
  shows "host_data (gview_of (ogpu (snd (run_bound xs n p s)))) (pin_ptr (host_input (oimpl s))) =
    xs @ drop (length xs) (host_data (gview_of (ogpu s)) (pin_ptr (host_input (oimpl s))))"
proof -
  obtain r s' where "run_bound xs n p s = (r, s')" by fastforce
  from run_bound_cases [OF assms this, of 0 0] this show ?thesis by simp
qed

theorem onnx_staging_keeps_rows_witness:
  "\<exists>s ys. snd (run_bound (replicate (2 * image_elems) (Fin False 3)) 2 4 demo_onnx_state) = s \<and>
     host_data (gview_of (ogpu (snd (run_bound (replicate image_elems fzero) 1 4 s))))
       (pin_ptr (host_input (oimpl demo_onnx_state))) = replicate image_elems fzero @ replicate image_elems (Fin False 3) @ ys"
proof -
  let ?xs = "replicate (2 * image_elems) (Fin False 3)" and ?s = demo_onnx_state
  have nr: "normalization_ready ?s" by (simp add: normalization_ready_def demo_onnx_options)
  have b: "bound_blocks (unat (4 :: size_t)) ?s" using demo_onnx_shape(3) by simp
  have sh2: "batch_shape ?s 2 4" using demo_onnx_shape(1) by (simp add: batch_shape_def word_le_nat_alt)
  obtain r s where r: "run_bound ?xs 2 4 ?s = (r, s)" by fastforce
  have lx: "length ?xs = unat (2 :: size_t) * image_elems" "length (replicate image_elems fzero) = unat (1 :: size_t) * image_elems" by simp_all
  have f: "batch_frame ?s s" using run_bound_cases [OF demo_onnx_shape(2) nr sh2 b lx(1) r, of 0 0] by blast
  have e: "oimpl s = oimpl ?s" using f by (simp add: batch_frame_def)
  note fD = batch_frameD [OF f]
  have "host_data (gview_of (ogpu s)) (pin_ptr (host_input (oimpl ?s))) =
      ?xs @ drop (length ?xs) (host_data (gview_of (ogpu ?s)) (pin_ptr (host_input (oimpl ?s))))"
    using onnx_staging_keeps_rows [OF demo_onnx_shape(2) nr sh2 b lx(1)] r by simp
  moreover have "host_data (gview_of (ogpu (snd (run_bound (replicate image_elems fzero) 1 4 s)))) (pin_ptr (host_input (oimpl s))) =
      replicate image_elems fzero @ drop (length (replicate image_elems fzero)) (host_data (gview_of (ogpu s)) (pin_ptr (host_input (oimpl s))))"
    by (rule onnx_staging_keeps_rows)
      (use demo_onnx_shape b lx normalization_ready_frame [OF f nr] in \<open>simp_all add: fD\<close>)
  moreover have "drop image_elems ?xs = replicate image_elems (Fin False 3)" by simp
  ultimately show ?thesis using r e by (auto simp: image_elems_def)
qed

section \<open>Batches beyond the largest bucket\<close>

text \<open>
  C30: With normalisation on the device, a batch larger than every bucket (or any batch, when the bucket list
  is empty) takes the host path: the network sees the raw rows, without normalisation.
\<close>

theorem onnx_oversize_not_normalized:
  assumes "onnx_laws s" and "ox_normalize_on_device (oopts s)" and shape: "batch_shape s n n"
    and big: "\<forall>b \<in> set (ox_batch_buckets (oopts s)). b < n" and xs: "length xs = unat n * image_elems"
    and run: "onnx_run_inference xs n (ox_input_elems (oopts s)) (ox_output_elems (oopts s)) s = (Ret ys, s')"
  shows "ys = concat (map (network (ort s)) (rows image_elems (unat n) xs))"
proof -
  let ?bs = "ox_batch_buckets (oopts s)"
  note sh = batch_shapeD [OF shape]
  have p: "onnx_bucket_for (oopts s) n = n" unfolding onnx_bucket_for_def by (rule first_bucket_oversize [OF big])
  have "\<not> (?bs \<noteq> [] \<and> n \<le> last ?bs)" using big last_in_set by fastforce
  moreover have "vsize xs = n * ox_input_elems (oopts s)"
    using sh(4,10) xs by (simp add: vsize_eq_iff vec_max_size_def)
  moreover have "n \<noteq> 0" using shape by (simp add: batch_shape_def)
  ultimately have "run_host xs n n s = (Ret ys, s')" using run by (auto simp: onnx_run_inference_def Let_def p split: if_splits)
  from run_host_cases [OF assms(1) shape xs this] show ?thesis by (simp add: apply_network_def)
qed

text \<open>An engine that normalises one channel and has no bucket.\<close>

definition demo_unbucketed :: OnnxOptions where
  "demo_unbucketed = demo_onnx\<lparr>ox_batch_buckets := [], ox_normalize_on_device := True, ox_mean := [Fin False 1],
     ox_stddev := [Fin False 2]\<rparr>"

definition demo_unbucketed_state :: "sim oest" where
  "demo_unbucketed_state = snd (onnx_engine_new demo_unbucketed (sim_ort 1) (sim_gpu 100))"

lemma sim_host_store:
  "host_store sim_api h xs = (\<lambda>g. snd (sim_upd (\<lambda>v. v\<lparr>host_data := (host_data v)(h := overwrite 0 xs (host_data v h))\<rparr>) g))"
  by (simp add: sim_api_def)

lemma demo_unbucketed_new: "fst (onnx_engine_new demo_unbucketed (sim_ort 1) (sim_gpu 100)) = Ret ()"
  by (simp add: demo_unbucketed_def demo_onnx_def onnx_new_evals
      upload_normalization_def vsize_def sim_memcpy sim_host_store fzero_def)

lemma demo_unbucketed_eq: "onnx_engine_new demo_unbucketed (sim_ort 1) (sim_gpu 100) = (Ret (), demo_unbucketed_state)"
  using demo_unbucketed_new by (simp add: demo_unbucketed_state_def prod_eq_iff)

lemma demo_unbucketed_live:
  "onnx_live {} {} {} demo_unbucketed demo_unbucketed_state" "ort demo_unbucketed_state = sim_ort 1"
proof -
  have geo: "onnx_geometry demo_unbucketed (sim_ort 1)"
    using demo_onnx_geometry
    by (simp add: onnx_geometry_def onnx_max_batch_def demo_unbucketed_def demo_onnx_options image_elems_def geometry_ok_def vec_max_size_def)
  show "onnx_live {} {} {} demo_unbucketed demo_unbucketed_state" "ort demo_unbucketed_state = sim_ort 1"
    using onnx_new_cases [OF demo_laws geo demo_unbucketed_eq] by (force simp: gview_of_def empty_view_def)+
qed

lemma demo_unbucketed_options:
  "oopts demo_unbucketed_state = demo_unbucketed" "ox_batch_buckets demo_unbucketed = []" "ox_input_elems demo_unbucketed = 150528"
  "ox_output_elems demo_unbucketed = 1" "ox_normalize_on_device demo_unbucketed"
  using demo_unbucketed_live(1) by (simp_all add: onnx_live_def demo_unbucketed_def demo_onnx_options)

theorem onnx_oversize_not_normalized_witness:
  "io_binding_active (oeng demo_unbucketed_state) \<and>
     fst (onnx_run_inference (replicate image_elems fzero) 1 150528 1 demo_unbucketed_state) = Ret [fzero]"
proof
  let ?s = demo_unbucketed_state and ?xs = "replicate image_elems fzero" and ?l = "sim_ort 1"
  have live: "onnx_ready ?s" "onnx_laws ?s" using demo_unbucketed_live(1) by (auto simp: onnx_live_def onnx_ready_def)
  show "io_binding_active (oeng ?s)" using live(1) by (simp add: onnx_ready_def demo_unbucketed_options)
  have sh: "batch_shape ?s 1 1"
    by (simp add: batch_shape_def demo_unbucketed_options demo_unbucketed_live(2) image_elems_def geometry_ok_def vec_max_size_def)
  have nl: "network_law ?l" by (rule sim_network_law) (simp add: image_elems_def)
  have one: "apply_network ?l 1 ?xs = [fzero]" by (simp add: apply_network_def rows_def row_def image_elems_def)
  have "Run ?l i out ?xs [sint (1 :: size_t), 3, 224, 224] g = (Ret [Some (apply_network ?l 1 ?xs)], g)" for i out g
    by (simp add: sim_ort_def apply_network_def)
  moreover have "CreateTensor ?l n shp g = (Ret (), g)" for n shp g by (simp add: sim_ort_def)
  moreover have "host_outputs 1 1 1 [Some [fzero]] = Ret [fzero]"
    using host_outputs_ok [OF sh, of "[fzero]"] by (simp add: demo_unbucketed_options demo_unbucketed_live(2))
  ultimately have "is_ret (fst (run_host ?xs 1 1 ?s))"
    by (simp add: run_host_def padded_input_def Let_def cbind_def ort_call_def demo_unbucketed_live(2) demo_unbucketed_options
        translate_ort_errors_def one [simplified])
  then have "is_ret (fst (onnx_run_inference ?xs 1 150528 1 ?s))"
    by (simp add: onnx_run_inference_def Let_def demo_unbucketed_options onnx_bucket_for_def vsize_def image_elems_def)
  then obtain ys s' where run: "onnx_run_inference ?xs 1 150528 1 ?s = (Ret ys, s')" by (metis is_ret_iff prod.collapse)
  have "ys = concat (map (network (ort ?s)) (rows image_elems (unat (1 :: size_t)) ?xs))"
    by (rule onnx_oversize_not_normalized [OF live(2) _ sh _ _]) (use run in \<open>simp_all add: demo_unbucketed_options\<close>)
  then show "fst (onnx_run_inference ?xs 1 150528 1 ?s) = Ret [fzero]"
    using run one by (simp add: apply_network_def demo_unbucketed_live(2))
qed

end
