(* ===== verification/Runtime_Binding.thy ===== *)
theory Runtime_Binding
  imports Onnx_Properties
begin

text \<open>
  The Python binding (cpp/src/bindings/module.cpp): the settings object, the choice of the backend, and
  \<open>InferenceRuntime\<close>, which owns an engine and the scheduler driving it. A call of \<open>predict\<close> is three
  steps: the check and the request while the interpreter lock is held, \<open>submit\<close>, and the wait for the
  future; the calls of several Python threads interleave with each other and with the worker. Shown: a
  call that returns a tuple returns the output of its own input under its own id, and ids are not
  reused. The conversions of pybind11 itself are not modelled.
\<close>

section \<open>Settings and backend\<close>

record RuntimeConfig =
  rc_max_batch_size :: size_t
  rc_max_wait_ms :: int
  rc_input_elems :: size_t
  rc_output_elems :: size_t
  rc_model_path :: string

definition default_runtime_config :: RuntimeConfig where
  "default_runtime_config =
     \<lparr>rc_max_batch_size = 8, rc_max_wait_ms = 5, rc_input_elems = 3 * 224 * 224, rc_output_elems = 1000,
      rc_model_path = []\<rparr>"

text \<open>The Python constructor of the settings object.\<close>

definition runtime_config_init :: "size_t \<Rightarrow> int \<Rightarrow> size_t \<Rightarrow> size_t \<Rightarrow> string \<Rightarrow> RuntimeConfig" where
  "runtime_config_init batch wait ie oe path =
     default_runtime_config\<lparr>rc_max_batch_size := batch, rc_max_wait_ms := wait, rc_input_elems := ie,
       rc_output_elems := oe, rc_model_path := path\<rparr>"

definition to_scheduler_config :: "RuntimeConfig \<Rightarrow> SchedulerConfig" where
  "to_scheduler_config config =
     default_scheduler_config\<lparr>max_batch_size := rc_max_batch_size config, max_wait := rc_max_wait_ms config,
       input_elems := rc_input_elems config, output_elems := rc_output_elems config\<rparr>"

text \<open>The backends behind the interface, and the virtual call.\<close>

datatype 'g backend = StubBackend | OnnxBackend "'g oest"

fun backend_engine :: "'g backend engine" where
  "backend_engine StubBackend xs n ie oe = (stub_run_inference xs n ie oe, StubBackend)"
| "backend_engine (OnnxBackend e) xs n ie oe =
     (case onnx_engine e xs n ie oe of (r, e') \<Rightarrow> (r, OnnxBackend e'))"

definition backend_options :: "RuntimeConfig \<Rightarrow> OnnxOptions" where
  "backend_options config =
     default_onnx_options\<lparr>ox_model_path := rc_model_path config, ox_batch_buckets := [rc_max_batch_size config]\<rparr>"

text \<open>The flag says whether the build has the ONNX Runtime.\<close>

definition make_engine :: "bool \<Rightarrow> 'g ort_api \<Rightarrow> 'g gpu \<Rightarrow> RuntimeConfig \<Rightarrow> 'g backend res" where
  "make_engine enable_onnx l g config =
     (if rc_model_path config = [] then Ret StubBackend
      else if enable_onnx
      then (case onnx_engine_new (backend_options config) l g of
              (r, e) \<Rightarrow> res_bind r (\<lambda>_. Ret (OnnxBackend e)))
      else Throw (RuntimeError (''model_path was set but this build has no ONNX Runtime support; '' @
        ''reconfigure with -DCUDA_DB_ENABLE_ONNX=ON'')))"

section \<open>The runtime\<close>

text \<open>
  \<open>calls\<close> and \<open>drawn\<close> are history: the calls of \<open>predict\<close> that passed the check, with how far each has
  come, and how many ids have been drawn.
\<close>

datatype predict_call =
    Prepared InferenceRequest
  | Waiting InferenceRequest
  | Answered InferenceRequest "(u64 \<times> f32 list) res"

record 'e runtime =
  rt_sched :: "'e sched"
  rt_config :: SchedulerConfig
  rt_input_elems :: size_t
  engine_name :: string
  next_request_id :: u64
  calls :: "predict_call list"
  drawn :: nat

definition runtime_new :: "bool \<Rightarrow> 'g ort_api \<Rightarrow> 'g gpu \<Rightarrow> RuntimeConfig \<Rightarrow> 'g backend runtime res" where
  "runtime_new enable_onnx l g config =
     res_bind (make_engine enable_onnx l g config) (\<lambda>e.
     res_bind (start (new_scheduler e)) (\<lambda>s.
       Ret \<lparr>rt_sched = s, rt_config = to_scheduler_config config, rt_input_elems = rc_input_elems config,
         engine_name = (if rc_model_path config = [] then ''stub'' else ''onnx''),
         next_request_id = 0, calls = [], drawn = 0\<rparr>))"

text \<open>
  \<open>predict\<close> up to the release of the interpreter lock; \<open>t\<close> is the clock reading, and the promise of the
  \<open>k\<close>-th call is named \<open>k\<close>.
\<close>

definition predict_prepare :: "f32 list \<Rightarrow> int \<Rightarrow> 'e runtime \<Rightarrow> InferenceRequest res \<times> 'e runtime" where
  "predict_prepare input t r =
     (let elems = vsize input
      in if elems \<noteq> rt_input_elems r
         then (Throw (ValueError (''expected '' @ to_string (rt_input_elems r) @ '' input elements, got '' @
           to_string elems)), r)
         else let r' = r\<lparr>next_request_id := next_request_id r + 1, drawn := Suc (drawn r)\<rparr>
              in if vec_max_size < length input
                 then (Throw (LengthError ''cannot create std::vector larger than max_size()''), r')
                 else (Ret \<lparr>request_id = next_request_id r, input_data = input, arrival_time = t,
                   result_promise = length (calls r)\<rparr>, r'))"

definition predict_submit :: "InferenceRequest \<Rightarrow> 'e runtime \<Rightarrow> predict_call \<times> 'e runtime" where
  "predict_submit request r =
     (case submit request (rt_sched r) of
        (Ret future, s) \<Rightarrow> (Waiting request, r\<lparr>rt_sched := s\<rparr>)
      | (Throw e, s) \<Rightarrow> (Answered request (Throw e), r\<lparr>rt_sched := s\<rparr>)
      | (Terminate, s) \<Rightarrow> (Answered request Terminate, r\<lparr>rt_sched := s\<rparr>)
      | (Undef, s) \<Rightarrow> (Answered request Undef, r\<lparr>rt_sched := s\<rparr>)
      | (Hang, s) \<Rightarrow> (Answered request Hang, r\<lparr>rt_sched := s\<rparr>))"

text \<open>\<open>future.get()\<close> and the tuple; nothing while the promise is unresolved.\<close>

definition predict_get :: "InferenceRequest \<Rightarrow> 'e runtime \<Rightarrow> (u64 \<times> f32 list) res option" where
  "predict_get request r =
     (case promises (work (rt_sched r)) (result_promise request) of
        Unset \<Rightarrow> None
      | Value result \<Rightarrow> Some (Ret (request_id request, logits result))
      | Exception e \<Rightarrow> Some (Throw e))"

datatype stat_value = StatText string | StatCount u64 | StatMs f64

definition runtime_stats :: "'e runtime \<Rightarrow> (string \<times> stat_value) list" where
  "runtime_stats r =
     (let snapshot = stats (rt_sched r)
      in [(''engine'', StatText (engine_name r)),
          (''total_batches'', StatCount (total_batches snapshot)),
          (''total_requests'', StatCount (total_requests snapshot)),
          (''max_batch_size_seen'', StatCount (max_batch_size_seen snapshot)),
          (''queue_depth'', StatCount (queue_size (rq (sq (rt_sched r))))),
          (''avg_queue_wait_ms'', StatMs (avg_queue_wait_ms snapshot)),
          (''max_queue_wait_ms'', StatMs (max_queue_wait_ms snapshot)),
          (''avg_exec_ms'', StatMs (avg_exec_ms snapshot))])"

definition runtime_reset_stats :: "'e runtime \<Rightarrow> 'e runtime" where
  "runtime_reset_stats r = r\<lparr>rt_sched := reset_stats (rt_sched r)\<rparr>"

text \<open>
  The steps of a runtime. An inner step is one of the scheduler that neither submits nor starts it: the
  worker, the clock, a notification, \<open>reset_stats\<close>, or a part of \<open>stop\<close>, which \<open>shutdown\<close>, \<open>__exit__\<close> and
  the destructor call.
\<close>

inductive rstep :: "'e engine \<Rightarrow> 'e runtime \<Rightarrow> 'e runtime \<Rightarrow> bool" for run where
  r_inner: "sstep run (rt_config r) (rt_sched r) s \<Longrightarrow> accepted s = accepted (rt_sched r) \<Longrightarrow>
     (running s \<longrightarrow> running (rt_sched r)) \<Longrightarrow> rstep run r (r\<lparr>rt_sched := s\<rparr>)"
| r_prepare: "predict_prepare input t r = (Ret q, r') \<Longrightarrow> rstep run r (r'\<lparr>calls := calls r @ [Prepared q]\<rparr>)"
| r_refuse: "predict_prepare input t r = (Throw e, r') \<Longrightarrow> rstep run r r'"
| r_submit: "i < length (calls r) \<Longrightarrow> calls r ! i = Prepared q \<Longrightarrow> predict_submit q r = (c, r') \<Longrightarrow>
     rstep run r (r'\<lparr>calls := (calls r)[i := c]\<rparr>)"
| r_get: "i < length (calls r) \<Longrightarrow> calls r ! i = Waiting q \<Longrightarrow> predict_get q r = Some out \<Longrightarrow>
     rstep run r (r\<lparr>calls := (calls r)[i := Answered q out]\<rparr>)"

inductive rreach :: "'e engine \<Rightarrow> 'e runtime \<Rightarrow> 'e runtime \<Rightarrow> bool" for run r0 where
  rreach_init: "rreach run r0 r0"
| rreach_step: "rreach run r0 r \<Longrightarrow> rstep run r r' \<Longrightarrow> rreach run r0 r'"

section \<open>Either backend keeps the row contract\<close>

primrec backend_inv :: "'g backend \<Rightarrow> bool" where
  "backend_inv StubBackend = True"
| "backend_inv (OnnxBackend e) = onnx_ready e"

primrec backend_serves :: "'g backend \<Rightarrow> size_t \<Rightarrow> size_t \<Rightarrow> size_t \<Rightarrow> bool" where
  "backend_serves StubBackend = geometry_ok"
| "backend_serves (OnnxBackend e) = onnx_serves e"

primrec backend_row :: "'g backend \<Rightarrow> size_t \<Rightarrow> size_t \<Rightarrow> f32 list \<Rightarrow> f32 list" where
  "backend_row StubBackend = fit_row"
| "backend_row (OnnxBackend e) = onnx_row e"

interpretation backend: row_engine "backend_engine :: 'g backend engine" backend_inv backend_serves backend_row
  "range InferenceError"
proof unfold_locales
  fix e :: "'g backend" and n ie oe :: size_t and xs :: "f32 list"
  assume a: "backend_inv e" "backend_serves e n ie oe" "length xs = unat n * unat ie"
  let ?P = "\<lambda>(r, e'). backend_inv e' \<and> backend_serves e' = backend_serves e \<and> backend_row e' = backend_row e \<and>
      (r = Ret (concat (map (backend_row e ie oe) (rows (unat ie) (unat n) xs))) \<or> (\<exists>m. r = Throw (InferenceError m)))"
  have p: "?P (backend_engine e xs n ie oe)"
  proof (cases e)
    case StubBackend
    then show ?thesis using a by (simp add: stub_run_rows)
  next
    case (OnnxBackend s)
    obtain r s' where run: "onnx_run_inference xs n ie oe s = (r, s')" by fastforce
    have s: "onnx_ready s" "onnx_serves s n ie oe" using a OnnxBackend by simp_all
    note c = onnx_run_cases [OF s a(3) run]
    then have f: "batch_frame s s'" by blast
    show ?thesis using OnnxBackend run c onnx_frame [OF f] s by (simp add: onnx_engine_def)
  qed
  obtain r e' where r: "backend_engine e xs n ie oe = (r, e')" by fastforce
  show "backend_inv (snd (backend_engine e xs n ie oe))" "backend_serves (snd (backend_engine e xs n ie oe)) = backend_serves e"
    "backend_row (snd (backend_engine e xs n ie oe)) = backend_row e" "defined_res (fst (backend_engine e xs n ie oe))"
    using p by (auto simp: r)
  show "ex \<in> range InferenceError" if "fst (backend_engine e xs n ie oe) = Throw ex" for ex using p that by (auto simp: r)
  show "ys = concat (map (backend_row e ie oe) (rows (unat ie) (unat n) xs))" if "fst (backend_engine e xs n ie oe) = Ret ys" for ys
    using p that by (auto simp: r)
next
  fix e :: "'g backend" and n ie oe and r :: "f32 list"
  assume "backend_inv e" "backend_serves e n ie oe" "length r = unat ie"
  then show "length (backend_row e ie oe r) = unat oe"
    by (cases e) (use length_fit_row onnx.row_length in auto)
qed

section \<open>Every call and its request\<close>

primrec call_request :: "predict_call \<Rightarrow> InferenceRequest" where
  "call_request (Prepared q) = q"
| "call_request (Waiting q) = q"
| "call_request (Answered q out) = q"

abbreviation call_id :: "predict_call \<Rightarrow> u64" where
  "call_id c \<equiv> request_id (call_request c)"

text \<open>
  The scheduler inside is one that the scheduler's own steps reach; a call and its promise have the same
  index, so promises are never shared; a waiting call's request has been accepted; the ids are those of an
  increasing sequence of counter values.
\<close>

definition call_ok :: "size_t \<Rightarrow> InferenceRequest list \<Rightarrow> nat \<Rightarrow> predict_call \<Rightarrow> bool" where
  "call_ok ie acc i c \<longleftrightarrow>
     result_promise (call_request c) = i \<and> fits ie (call_request c) \<and>
     length (input_data (call_request c)) \<le> vec_max_size \<and>
     (\<forall>q. c = Prepared q \<longrightarrow> i \<notin> promises_of acc) \<and> (\<forall>q. c = Waiting q \<longrightarrow> q \<in> set acc)"

definition ids_inv :: "u64 \<Rightarrow> nat \<Rightarrow> u64 list \<Rightarrow> bool" where
  "ids_inv nxt k is \<longleftrightarrow> nxt = of_nat k \<and> (\<exists>ks. sorted_wrt (<) ks \<and> (\<forall>j \<in> set ks. j < k) \<and> is = map of_nat ks)"

definition runtime_inv :: "'e engine \<Rightarrow> 'e \<Rightarrow> 'e runtime \<Rightarrow> bool" where
  "runtime_inv run e0 r \<longleftrightarrow>
     sreach run (rt_config r) e0 (rt_sched r) \<and>
     (\<forall>i < length (calls r). call_ok (rt_input_elems r) (accepted (rt_sched r)) i (calls r ! i)) \<and>
     (\<forall>q \<in> set (accepted (rt_sched r)). result_promise q < length (calls r)) \<and>
     ids_inv (next_request_id r) (drawn r) (map call_id (calls r))"

lemma ids_inv_draw:
  assumes "ids_inv nxt k is"
  shows "ids_inv (nxt + 1) (Suc k) is" "ids_inv (nxt + 1) (Suc k) (is @ [nxt])"
proof -
  from assms obtain ks where ks: "nxt = of_nat k" "sorted_wrt (<) ks" "\<forall>j \<in> set ks. j < k" "is = map of_nat ks"
    by (auto simp: ids_inv_def)
  then have "\<forall>j \<in> set ks. j < Suc k" by (auto intro: less_SucI)
  with ks show "ids_inv (nxt + 1) (Suc k) is" unfolding ids_inv_def by (auto simp: add.commute)
  have "sorted_wrt (<) (ks @ [k])" "\<forall>j \<in> set (ks @ [k]). j < Suc k" "is @ [nxt] = map of_nat (ks @ [k])"
    using ks by (auto simp: sorted_wrt_append intro: less_SucI)
  with ks(1) show "ids_inv (nxt + 1) (Suc k) (is @ [nxt])" unfolding ids_inv_def by (metis add.commute of_nat_Suc)
qed

lemma ids_inv_distinct:
  assumes "ids_inv nxt k is" "k \<le> 2 ^ 64"
  shows "distinct is"
proof -
  from assms(1) obtain ks where ks: "sorted_wrt (<) ks" "\<forall>j \<in> set ks. j < k" "is = map of_nat ks" by (auto simp: ids_inv_def)
  have "inj_on (of_nat :: nat \<Rightarrow> u64) (set ks)"
  proof (rule inj_onI)
    fix x y assume "x \<in> set ks" "y \<in> set ks" and eq: "(of_nat x :: u64) = of_nat y"
    then have "x < 2 ^ 64" "y < 2 ^ 64" using ks(2) assms(2) by fastforce+
    with arg_cong [OF eq, of unat] show "x = y" by (simp add: unat_of_nat take_bit_nat_eq_self)
  qed
  with ks show ?thesis by (simp add: distinct_map strict_sorted_iff)
qed

lemma predict_prepare_Ret:
  assumes "predict_prepare input t r = (Ret q, r')"
  shows "r' = r\<lparr>next_request_id := next_request_id r + 1, drawn := Suc (drawn r)\<rparr> \<and>
    q = \<lparr>request_id = next_request_id r, input_data = input, arrival_time = t, result_promise = length (calls r)\<rparr> \<and>
    vsize input = rt_input_elems r \<and> length input \<le> vec_max_size"
  using assms by (auto simp: predict_prepare_def Let_def split: if_splits)

lemma predict_prepare_Throw:
  assumes "predict_prepare input t r = (Throw e, r')"
  shows "r' = r \<or> r' = r\<lparr>next_request_id := next_request_id r + 1, drawn := Suc (drawn r)\<rparr>"
  using assms by (auto simp: predict_prepare_def Let_def split: if_splits)

lemma predict_submit_cases:
  assumes "predict_submit q r = (c, r')"
  obtains (accepted) p s where "submit q (rt_sched r) = (Ret p, s)" "c = Waiting q" "r' = r\<lparr>rt_sched := s\<rparr>"
      "accepted s = accepted (rt_sched r) @ [q]"
  | (refused) out where "c = Answered q out" "\<not> is_ret out" "r' = r"
proof (cases "submit q (rt_sched r)")
  case (Pair res s)
  show ?thesis
  proof (cases "\<exists>p. res = Ret p")
    case True
    then obtain p where p: "submit q (rt_sched r) = (Ret p, s)" using Pair by blast
    then have "accepted s = accepted (rt_sched r) @ [q]" by (rule submitE) simp
    with p assms that(1) [of p s] show ?thesis by (simp add: predict_submit_def)
  next
    case False
    then have "s = rt_sched r" using Pair by (auto simp: submit_def split: prod.splits res.splits if_splits)
    with False Pair assms that(2) show ?thesis by (cases res) (auto simp: predict_submit_def)
  qed
qed

lemma call_ok_accept:
  assumes "call_ok ie acc i c" "result_promise q \<noteq> i"
  shows "call_ok ie (acc @ [q]) i c"
  using assms by (auto simp: call_ok_def)

lemma runtime_inv_prepare:
  assumes "runtime_inv run e0 r" and prep: "predict_prepare input t r = (Ret q, r')"
  shows "runtime_inv run e0 (r'\<lparr>calls := calls r @ [Prepared q]\<rparr>)"
proof -
  note p = predict_prepare_Ret [OF prep]
  have ids: "ids_inv (next_request_id r) (drawn r) (map call_id (calls r))"
    and old: "\<And>i. i < length (calls r) \<Longrightarrow> call_ok (rt_input_elems r) (accepted (rt_sched r)) i (calls r ! i)"
    and sub: "\<forall>q \<in> set (accepted (rt_sched r)). result_promise q < length (calls r)"
    using assms(1) by (auto simp: runtime_inv_def)
  have "length (calls r) \<notin> promises_of (accepted (rt_sched r))" using sub by auto
  then have "call_ok (rt_input_elems r) (accepted (rt_sched r)) (length (calls r)) (Prepared q)"
    using p by (simp add: call_ok_def fits_def)
  with old have "call_ok (rt_input_elems r) (accepted (rt_sched r)) i ((calls r @ [Prepared q]) ! i)"
    if "i < Suc (length (calls r))" for i
    using that by (cases "i = length (calls r)") (simp_all add: nth_append)
  then show ?thesis using assms(1) sub p ids_inv_draw(2) [OF ids] by (simp add: runtime_inv_def less_SucI)
qed

lemma runtime_inv_update:
  assumes "runtime_inv run e0 r" "i < length (calls r)" "call_request c = call_request (calls r ! i)"
    and s: "sreach run (rt_config r) e0 s" "accepted s = accepted (rt_sched r) \<or> accepted s = accepted (rt_sched r) @ [call_request c]"
    and c: "call_ok (rt_input_elems r) (accepted s) i c"
  shows "runtime_inv run e0 (r\<lparr>rt_sched := s, calls := (calls r)[i := c]\<rparr>)"
proof -
  have old: "\<And>j. j < length (calls r) \<Longrightarrow> call_ok (rt_input_elems r) (accepted (rt_sched r)) j (calls r ! j)"
    and rest: "\<forall>q \<in> set (accepted (rt_sched r)). result_promise q < length (calls r)"
      "ids_inv (next_request_id r) (drawn r) (map call_id (calls r))"
    using assms(1) by (auto simp: runtime_inv_def)
  have own: "result_promise (call_request c) = i" using c by (simp add: call_ok_def)
  have "call_ok (rt_input_elems r) (accepted s) j ((calls r)[i := c] ! j)" if "j < length (calls r)" for j
    using c old [OF that] s(2) own call_ok_accept [of _ "accepted (rt_sched r)" j]
    by (cases "j = i") (use assms(2) in auto)
  moreover have "\<forall>q \<in> set (accepted s). result_promise q < length (calls r)" using s(2) rest(1) own assms(2) by auto
  moreover have "map call_id ((calls r)[i := c]) = map call_id (calls r)"
    using assms(2,3) by (simp add: map_update list_update_same_conv)
  ultimately show ?thesis using s(1) rest(2) by (simp add: runtime_inv_def)
qed

lemma runtime_inv_submit:
  assumes inv: "runtime_inv run e0 r" and i: "i < length (calls r)" "calls r ! i = Prepared q"
    and sub: "predict_submit q r = (c, r')"
  shows "runtime_inv run e0 (r'\<lparr>calls := (calls r)[i := c]\<rparr>)"
proof -
  have ok: "call_ok (rt_input_elems r) (accepted (rt_sched r)) i (Prepared q)"
    and s: "sreach run (rt_config r) e0 (rt_sched r)"
    using inv i by (auto simp: runtime_inv_def)
  from sub show ?thesis
  proof (cases rule: predict_submit_cases)
    case (accepted p s')
    have "inputs_ok [q]" "result_promise q \<notin> promises_of (sched.accepted (rt_sched r))"
      using ok by (simp_all add: call_ok_def inputs_ok_def)
    with accepted(1) s have "sreach run (rt_config r) e0 s'" by (blast intro: sreach_step s_submit)
    with runtime_inv_update [OF inv i(1), of "Waiting q" s'] accepted ok i(2) show ?thesis by (simp add: call_ok_def)
  next
    case (refused out)
    with runtime_inv_update [OF inv i(1), of "Answered q out" "rt_sched r"] s ok i(2) show ?thesis by (simp add: call_ok_def)
  qed
qed

lemma rstep_inv: "rstep run r r' \<Longrightarrow> runtime_inv run e0 r \<Longrightarrow> runtime_inv run e0 r'"
proof (induction rule: rstep.induct)
  case (r_inner r s)
  then show ?case using sreach_step by (fastforce simp: runtime_inv_def)
next
  case (r_prepare input t r q r')
  then show ?case by (blast intro: runtime_inv_prepare)
next
  case (r_refuse input t r e r')
  from predict_prepare_Throw [OF r_refuse.hyps] r_refuse.prems ids_inv_draw(1) show ?case by (auto simp: runtime_inv_def)
next
  case (r_submit i r q c r')
  then show ?case by (blast intro: runtime_inv_submit)
next
  case (r_get i r q out)
  have "call_ok (rt_input_elems r) (accepted (rt_sched r)) i (Waiting q)" "sreach run (rt_config r) e0 (rt_sched r)"
    using r_get by (auto simp: runtime_inv_def)
  with runtime_inv_update [OF r_get.prems r_get.hyps(1), of "Answered q out" "rt_sched r"] r_get.hyps(2)
  show ?case by (simp add: call_ok_def)
qed

lemma rstep_settings: "rstep run r r' \<Longrightarrow> rt_config r' = rt_config r \<and> rt_input_elems r' = rt_input_elems r"
  by (induction rule: rstep.induct)
    (auto dest: predict_prepare_Ret predict_prepare_Throw elim: predict_submit_cases)

lemma rreach_inv:
  assumes "rreach run r0 r" "runtime_inv run e0 r0"
  shows "runtime_inv run e0 r \<and> rt_config r = rt_config r0 \<and> rt_input_elems r = rt_input_elems r0"
  using assms by (induction rule: rreach.induct) (auto dest: rstep_settings intro: rstep_inv)

text \<open>What a call may return.\<close>

definition answered_ok :: "(f32 list \<Rightarrow> f32 list) \<Rightarrow> predict_call \<Rightarrow> bool" where
  "answered_ok f c \<longleftrightarrow> (\<forall>q id ys. c = Answered q (Ret (id, ys)) \<longrightarrow> id = request_id q \<and> ys = f (input_data q))"

context row_engine
begin

lemma get_answer:
  assumes inv: "runtime_inv run e0 r" and c: "compatible (rt_config r) e0" "rt_input_elems r = input_elems (rt_config r)"
    and i: "i < length (calls r)" "calls r ! i = Waiting q" and out: "predict_get q r = Some out"
  shows "answered_ok (row_fun (rt_config r) e0) (Answered q out)"
proof -
  have s: "sreach run (rt_config r) e0 (rt_sched r)" "fits (input_elems (rt_config r)) q" "q \<in> set (accepted (rt_sched r))"
    using inv i c(2) by (auto simp: runtime_inv_def call_ok_def)
  have "promises (work (rt_sched r)) (result_promise q) \<noteq> Unset" using out by (auto simp: predict_get_def)
  with s(3) flow_invD(2,5) [OF sreach_flow_inv [OF s(1)]] have "q \<in> set (served (rt_sched r))" by auto
  with sreach_answer_inv [OF s(1) c(1)] have "answer (rt_config r) (row_fun (rt_config r) e0) faults q
      (promises (work (rt_sched r)) (result_promise q))" by (simp add: answer_inv_def)
  with s(2) out show ?thesis by (auto simp: answer_def predict_get_def answered_ok_def)
qed

lemma rstep_answered:
  "rstep run r r' \<Longrightarrow> runtime_inv run e0 r \<Longrightarrow> compatible (rt_config r) e0 \<Longrightarrow> rt_input_elems r = input_elems (rt_config r) \<Longrightarrow>
   list_all (answered_ok (row_fun (rt_config r) e0)) (calls r) \<Longrightarrow> list_all (answered_ok (row_fun (rt_config r) e0)) (calls r')"
proof (induction rule: rstep.induct)
  case (r_refuse input t r e r')
  with predict_prepare_Throw [OF r_refuse.hyps] show ?case by auto
next
  case (r_submit i r q c r')
  have "answered_ok (row_fun (rt_config r) e0) c"
    by (rule predict_submit_cases [OF r_submit.hyps(3)]) (auto simp: answered_ok_def is_ret_def)
  with r_submit show ?case by (auto simp: list_all_iff dest: set_update_subset_insert [THEN subsetD])
next
  case (r_get i r q out)
  from get_answer [OF r_get.prems(1-3) r_get.hyps] r_get.prems(4)
  show ?case by (auto simp: list_all_iff dest: set_update_subset_insert [THEN subsetD])
qed (auto simp: answered_ok_def)

lemma rreach_answered:
  assumes "rreach run r0 r" and inv: "runtime_inv run e0 r0" and c: "compatible (rt_config r0) e0"
    "rt_input_elems r0 = input_elems (rt_config r0)" "calls r0 = []"
  shows "list_all (answered_ok (row_fun (rt_config r0) e0)) (calls r)"
  using assms(1)
proof (induction rule: rreach.induct)
  case (rreach_step r r')
  from rreach_inv [OF rreach_step.hyps(1) inv] rstep_answered [OF rreach_step.hyps(2)] rreach_step.IH c show ?case by simp
qed (simp add: c(3))

end

lemma runtime_waiting_accepted:
  assumes "runtime_inv run e r" "Waiting q \<in> set (calls r)"
  shows "q \<in> set (accepted (rt_sched r))"
  using assms by (auto simp: runtime_inv_def call_ok_def in_set_conv_nth)

section \<open>A new runtime\<close>

lemma runtime_new_Ret:
  assumes "runtime_new enable_onnx l g config = Ret r"
  obtains e where "make_engine enable_onnx l g config = Ret e"
    "r = \<lparr>rt_sched = (new_scheduler e)\<lparr>running := True, worker := Looping\<rparr>, rt_config = to_scheduler_config config,
       rt_input_elems = rc_input_elems config, engine_name = (if rc_model_path config = [] then ''stub'' else ''onnx''),
       next_request_id = 0, calls = [], drawn = 0\<rparr>"
  using assms by (auto simp: runtime_new_def res_bind_eq_Ret start_def new_scheduler_def)

lemma runtime_new_inv:
  assumes "runtime_new enable_onnx l g config = Ret r"
  shows "runtime_inv run (engine (work (rt_sched r))) r"
proof -
  from assms obtain e where r: "rt_sched r = (new_scheduler e)\<lparr>running := True, worker := Looping\<rparr>"
    "calls r = []" "next_request_id r = 0" "drawn r = 0" by (rule runtime_new_Ret) simp
  have "start (new_scheduler e) = Ret (rt_sched r)" by (simp add: start_def r(1) new_scheduler_def)
  then have "sreach run (rt_config r) e (rt_sched r)"
    by (intro sreach_step [OF sreach_init] s_start) (simp_all add: new_scheduler_def)
  then show ?thesis by (simp add: runtime_inv_def ids_inv_def r new_scheduler_def)
qed

lemma backend_options_simps [simp]:
  "ox_model_path (backend_options config) = rc_model_path config"
  "ox_batch_buckets (backend_options config) = [rc_max_batch_size config]"
  "onnx_max_batch (backend_options config) = rc_max_batch_size config"
  "ox_input_elems (backend_options config) = 150528" "ox_output_elems (backend_options config) = 1000"
  "\<not> ox_normalize_on_device (backend_options config)"
  by (simp_all add: backend_options_def default_onnx_options_def onnx_max_batch_def)

lemma make_engine_onnx:
  assumes laws: "cuda_laws (api g)" "copies_succeed (api g)" "ort_laws (api g) l" "inflight (gview_of g) = (\<lambda>_. {})"
    and geo: "onnx_geometry (backend_options config) l" and p: "rc_model_path config \<noteq> []"
    and new: "make_engine enable_onnx l g config = Ret b"
  obtains e where "b = OnnxBackend e" "ort e = l"
    "onnx_live (dev_live (gview_of g)) (host_live (gview_of g)) (stream_live (gview_of g)) (backend_options config) e"
proof -
  obtain r e where e: "onnx_engine_new (backend_options config) l g = (r, e)" by fastforce
  with new p have "r = Ret ()" "b = OnnxBackend e" by (auto simp: make_engine_def res_bind_eq_Ret split: if_splits)
  with onnx_new_cases [OF laws geo e] that show ?thesis by auto
qed

text \<open>What the backend of a configuration computes for one input, and when it serves that configuration.\<close>

definition runtime_output :: "'g ort_api \<Rightarrow> RuntimeConfig \<Rightarrow> f32 list \<Rightarrow> f32 list" where
  "runtime_output l config input =
     (if rc_model_path config = [] then fit_row (rc_input_elems config) (rc_output_elems config) input
      else network l input)"

definition onnx_supported :: "'g ort_api \<Rightarrow> 'g gpu \<Rightarrow> RuntimeConfig \<Rightarrow> bool" where
  "onnx_supported l g config \<longleftrightarrow>
     cuda_laws (api g) \<and> copies_succeed (api g) \<and> ort_laws (api g) l \<and> inflight (gview_of g) = (\<lambda>_. {}) \<and>
     onnx_geometry (backend_options config) l"

lemma runtime_backend:
  assumes new: "runtime_new enable_onnx l g config = Ret r"
    and geo: "geometry_ok (rc_max_batch_size config) (rc_input_elems config) (rc_output_elems config)"
    and onnx: "rc_model_path config = [] \<or> onnx_supported l g config \<and> rc_input_elems config = 150528 \<and> rc_output_elems config = 1000"
  shows "backend.compatible (rt_config r) (engine (work (rt_sched r))) \<and>
    backend.row_fun (rt_config r) (engine (work (rt_sched r))) = runtime_output l config"
proof -
  from new obtain b where b: "make_engine enable_onnx l g config = Ret b"
    and r: "engine (work (rt_sched r)) = b" "rt_config r = to_scheduler_config config"
    by (rule runtime_new_Ret) (simp add: new_scheduler_def)
  have cfg: "max_batch_size (rt_config r) = rc_max_batch_size config" "input_elems (rt_config r) = rc_input_elems config"
    "output_elems (rt_config r) = rc_output_elems config" by (simp_all add: r to_scheduler_config_def)
  show ?thesis
  proof (cases "rc_model_path config = []")
    case True
    with b have "b = StubBackend" by (simp add: make_engine_def)
    with True geo show ?thesis
      by (auto simp: backend.compatible_def cfg r(1) runtime_output_def intro: geometry_ok_mono)
  next
    case False
    with onnx have o: "onnx_supported l g config" "rc_input_elems config = 150528" "rc_output_elems config = 1000" by auto
    then have s: "cuda_laws (api g)" "copies_succeed (api g)" "ort_laws (api g) l" "inflight (gview_of g) = (\<lambda>_. {})"
      "onnx_geometry (backend_options config) l" by (auto simp: onnx_supported_def)
    obtain e where e: "b = OnnxBackend e" "ort e = l" and
      live: "onnx_live (dev_live (gview_of g)) (host_live (gview_of g)) (stream_live (gview_of g)) (backend_options config) e"
      by (rule make_engine_onnx [OF s False b])
    then have oe: "onnx_ready e" "oopts e = backend_options config" by (auto simp: onnx_live_def)
    have "onnx_serves e n 150528 1000" if "n \<le> rc_max_batch_size config" for n
      using serves_bucket [of e n] live s(5) that by (simp add: oe(2) e(2) onnx_live_def)
    moreover have "onnx_row e 150528 1000 = network l"
      by (rule ext) (simp add: onnx_row_def e(2) oe(2) onnx_prepared_def)
    ultimately show ?thesis using geo False oe(1)
      by (auto simp: backend.compatible_def cfg r(1) e(1) runtime_output_def o(2,3))
  qed
qed

section \<open>A concrete run\<close>

text \<open>The steps of a schedule that belong to the runtime's inside.\<close>

primrec inner_act :: "act \<Rightarrow> bool" where
  "inner_act AStart = False"
| "inner_act (ASubmit r) = False"
| "inner_act ACall = True"
| "inner_act AWake = True"
| "inner_act ATimeout = True"
| "inner_act (AIterate t1 t2 t3) = True"
| "inner_act (ATick t) = True"
| "inner_act ANotify = True"
| "inner_act AClear = True"
| "inner_act AShut = True"
| "inner_act AJoin = True"

lemma perform_inner:
  assumes "perform run cfg a s = Some s'" "inner_act a"
  shows "accepted s' = accepted s \<and> (running s' \<longrightarrow> running s)"
  using assms
  by (cases a) (auto simp: put_consumer_def stop_clear_def stop_shutdown_def stop_join_def iterate_def Let_def res_bind_eq_Ret
      split: if_splits wad_pc.splits nat.splits)

lemma rreach_perform_all:
  "rreach run r0 r \<Longrightarrow> list_all inner_act as \<Longrightarrow> perform_all run (rt_config r) as (rt_sched r) = Some s \<Longrightarrow>
   rreach run r0 (r\<lparr>rt_sched := s\<rparr>)"
proof (induction as arbitrary: r)
  case (Cons a as)
  then obtain s1 where s1: "perform run (rt_config r) a (rt_sched r) = Some s1"
    "perform_all run (rt_config r) as s1 = Some s" by (auto split: option.splits)
  have "rreach run r0 (r\<lparr>rt_sched := s1\<rparr>)"
    using rreach_step [OF Cons.prems(1) r_inner [OF perform_sound [OF s1(1)]]] perform_inner [OF s1(1)] Cons.prems(2) by simp
  from Cons.IH [OF this] Cons.prems(2) s1(2) show ?case by simp
qed auto

definition demo_runtime_config :: RuntimeConfig where
  "demo_runtime_config = runtime_config_init 4 5 2 1 []"

definition demo_call :: InferenceRequest where
  "demo_call = \<lparr>request_id = 0, input_data = [Fin False 3, fzero], arrival_time = 0, result_promise = 0\<rparr>"

definition demo_runtime :: "sim backend runtime" where
  "demo_runtime =
     \<lparr>rt_sched = (new_scheduler StubBackend)\<lparr>running := True, worker := Looping\<rparr>,
      rt_config = \<lparr>max_batch_size = 4, max_wait = 5, input_elems = 2, output_elems = 1\<rparr>, rt_input_elems = 2,
      engine_name = ''stub'', next_request_id = 0, calls = [], drawn = 0\<rparr>"

lemma demo_runtime_new: "runtime_new False (sim_ort 1) (sim_gpu 0) demo_runtime_config = Ret demo_runtime"
  by (simp add: runtime_new_def make_engine_def demo_runtime_config_def runtime_config_init_def demo_runtime_def
      default_runtime_config_def start_def new_scheduler_def to_scheduler_config_def default_scheduler_config_def)

definition demo_waiting :: "sim backend runtime" where
  "demo_waiting =
     demo_runtime\<lparr>rt_sched := snd (submit demo_call (rt_sched demo_runtime)), next_request_id := 1, drawn := 1,
       calls := [Waiting demo_call]\<rparr>"

lemma demo_waiting_reach: "rreach backend_engine demo_runtime demo_waiting"
proof -
  let ?r = "demo_runtime\<lparr>next_request_id := 1, drawn := 1\<rparr>"
  let ?p = "?r\<lparr>calls := [Prepared demo_call]\<rparr>"
  have "predict_prepare [Fin False 3, fzero] 0 demo_runtime = (Ret demo_call, ?r)"
    by (simp add: predict_prepare_def demo_runtime_def demo_call_def vsize_def vec_max_size_def)
  from r_prepare [OF this] have "rreach backend_engine demo_runtime ?p"
    by (intro rreach_step [OF rreach_init]) (simp add: demo_runtime_def)
  moreover have "predict_submit demo_call ?p = (Waiting demo_call, demo_waiting\<lparr>calls := [Prepared demo_call]\<rparr>)"
    by (simp add: predict_submit_def demo_waiting_def demo_runtime_def demo_call_def sched_evals queue_evals)
  from r_submit [where i = 0, OF _ _ this] have "rstep backend_engine ?p demo_waiting" by (simp add: demo_waiting_def)
  ultimately show ?thesis by (rule rreach_step)
qed

definition demo_settled :: "sim backend sched" where
  "demo_settled =
     \<lparr>work = \<lparr>engine = StubBackend, counters = counters demo_core,
        promises = (\<lambda>_. Unset)(0 := Value \<lparr>res_request_id = 0, logits = [Fin False 3]\<rparr>)\<rparr>,
      sq = \<lparr>rq = \<lparr>queue = [], stop_requested = True\<rparr>, cpc = Outside, now = 0, notifying = 1\<rparr>,
      running = False, worker = Looping, stopping = QueueShut, accepted = [demo_call], served = [demo_call]\<rparr>"

lemma demo_settled_run:
  "perform_all backend_engine (rt_config demo_waiting) [ACall, AClear, AShut, ANotify, AWake, AIterate 0 0 0]
     (rt_sched demo_waiting) = Some demo_settled"
  by (simp add: demo_waiting_def demo_runtime_def demo_call_def sched_evals queue_evals word_le_nat_alt Let_def
      process_drained_def execute_batch_def demo_stub set_value_def count_batch_def elapsed_us_def duration_us_def
      zero_stats_def vec_max_size_def deliver_def vec_slice_def max_def demo_settled_def demo_core_def)

text \<open>Warming never makes a constructor throw: the loop swallows what a batch throws.\<close>

lemma warm_each_quiet: "fst (warm_each bs s) \<noteq> Throw x"
  by (induction bs arbitrary: s) (auto simp: cret_def cbind_def try_catch_def Let_def split: prod.splits res.splits)

lemma warm_each_no_throw: "warm_each bs s = (Throw x, s') \<longleftrightarrow> False"
  using warm_each_quiet [of bs s x] by auto

definition narrow_config :: RuntimeConfig where
  "narrow_config = runtime_config_init 4 5 2 1 ''model.onnx''"

lemma narrow_supported: "onnx_supported (sim_ort 1000) (sim_gpu 100) narrow_config"
proof -
  have "onnx_geometry (backend_options narrow_config) (sim_ort 1000)"
    by (simp add: onnx_geometry_def narrow_config_def runtime_config_init_def image_elems_def geometry_ok_def vec_max_size_def)
      (simp add: backend_options_def default_onnx_options_def)
  then show ?thesis using sim_laws sim_copies_succeed sim_ort_laws [of 1000]
    by (simp add: onnx_supported_def image_elems_def gview_of_def empty_view_def)
qed

lemma narrow_new: "fst (onnx_engine_new (backend_options narrow_config) (sim_ort 1000) (sim_gpu 100)) \<noteq> Throw x"
  by (simp add: backend_options_def narrow_config_def runtime_config_init_def onnx_new_evals warm_buckets_def warm_each_no_throw del: warm_each.simps split: prod.splits res.splits)

end
