(* ===== verification/Admission.thy ===== *)
theory Admission
  imports Prelude
begin

text \<open>
  Admission of prediction requests (python/cuda_db/server/admission.py): the controller that counts
  permits, the lease that gives its permit up once both the HTTP handling and the native call are over,
  the wait for the last permit at shutdown, and the bounded reading of a request body. Event loop,
  executor threads and the waiting thread interleave at the locks. Shown: permits are never lost,
  duplicated or given up under a running native call; the wait at shutdown misses no notification, and
  after it nothing can start. The ASGI plumbing around them (tasks, responses, replayed messages) is not
  modelled.
\<close>

section \<open>Controller\<close>

record AdmissionController =
  ac_capacity :: int
  ac_inflight :: int
  ac_closed :: bool

definition new_controller :: "int \<Rightarrow> AdmissionController" where
  "new_controller capacity = \<lparr>ac_capacity = capacity, ac_inflight = 0, ac_closed = False\<rparr>"

text \<open>A future is represented by a number.\<close>

record AdmissionLease =
  http_finished :: bool
  lease_work :: "nat option"
  work_finished :: bool
  released :: bool

definition new_lease :: AdmissionLease where
  "new_lease = \<lparr>http_finished = False, lease_work = None, work_finished = False, released = False\<rparr>"

definition try_acquire :: "AdmissionController \<Rightarrow> AdmissionLease option \<times> AdmissionController" where
  "try_acquire c =
     (if ac_closed c \<or> ac_inflight c \<ge> ac_capacity c then (None, c)
      else (Some new_lease, c\<lparr>ac_inflight := ac_inflight c + 1\<rparr>))"

definition ac_close :: "AdmissionController \<Rightarrow> AdmissionController" where
  "ac_close c = c\<lparr>ac_closed := True\<rparr>"

text \<open>The decrement stays when the check after it raises.\<close>

definition ac_release :: "AdmissionController \<Rightarrow> unit res \<times> AdmissionController" where
  "ac_release c =
     (let c' = c\<lparr>ac_inflight := ac_inflight c - 1\<rparr>
      in if ac_inflight c' < 0 then (Throw (RuntimeError ''admission permit released more than once''), c')
         else (Ret (), c'))"

section \<open>Lease\<close>

definition attach_work :: "nat \<Rightarrow> AdmissionLease \<Rightarrow> unit res \<times> AdmissionLease" where
  "attach_work future l =
     (if lease_work l \<noteq> None
      then (Throw (RuntimeError ''an admission lease can own only one native submission''), l)
      else (Ret (), l\<lparr>lease_work := Some future\<rparr>))"

text \<open>Both report whether the caller has to give the permit up.\<close>

definition work_done :: "AdmissionLease \<Rightarrow> bool \<times> AdmissionLease" where
  "work_done l =
     (let l' = l\<lparr>work_finished := True\<rparr>
      in if http_finished l' \<and> \<not> released l' then (True, l'\<lparr>released := True\<rparr>) else (False, l'))"

definition finish_http :: "AdmissionLease \<Rightarrow> bool \<times> AdmissionLease" where
  "finish_http l =
     (let l' = l\<lparr>http_finished := True\<rparr>
      in if (lease_work l' = None \<or> work_finished l') \<and> \<not> released l' then (True, l'\<lparr>released := True\<rparr>)
         else (False, l'))"

section \<open>The threads together\<close>

text \<open>A thread in \<open>_wait_until_drained\<close>: blocked, notified or not, or returned.\<close>

datatype drain_pc = DrainParked bool | Drained

definition drain_check :: "AdmissionController \<Rightarrow> drain_pc" where
  "drain_check c = (if ac_inflight c = 0 then Drained else DrainParked False)"

primrec drain_notified :: "drain_pc \<Rightarrow> drain_pc" where
  "drain_notified (DrainParked b) = DrainParked True"
| "drain_notified Drained = Drained"

text \<open>\<open>releasing\<close> counts the threads that have marked a lease as released and not yet called \<open>_release\<close>.\<close>

record admission =
  controller :: AdmissionController
  leases :: "AdmissionLease list"
  releasing :: nat
  drains :: "drain_pc list"

definition new_admission :: "int \<Rightarrow> admission" where
  "new_admission capacity = \<lparr>controller = new_controller capacity, leases = [], releasing = 0, drains = []\<rparr>"

text \<open>
  The middleware waits for the handler before it finishes the HTTP side, so a handler attaches its native
  call only before that. The callback of a future runs once the future is attached.
\<close>

inductive astep :: "admission \<Rightarrow> admission \<Rightarrow> bool" where
  a_acquire: "try_acquire (controller s) = (Some l, c) \<Longrightarrow>
     astep s (s\<lparr>controller := c, leases := leases s @ [l]\<rparr>)"
| a_refuse: "try_acquire (controller s) = (None, c) \<Longrightarrow> astep s (s\<lparr>controller := c\<rparr>)"
| a_attach: "i < length (leases s) \<Longrightarrow> \<not> http_finished (leases s ! i) \<Longrightarrow>
     attach_work f (leases s ! i) = (r, l) \<Longrightarrow> astep s (s\<lparr>leases := (leases s)[i := l]\<rparr>)"
| a_work_done: "i < length (leases s) \<Longrightarrow> lease_work (leases s ! i) \<noteq> None \<Longrightarrow>
     work_done (leases s ! i) = (release, l) \<Longrightarrow>
     astep s (s\<lparr>leases := (leases s)[i := l], releasing := releasing s + of_bool release\<rparr>)"
| a_finish: "i < length (leases s) \<Longrightarrow> finish_http (leases s ! i) = (release, l) \<Longrightarrow>
     astep s (s\<lparr>leases := (leases s)[i := l], releasing := releasing s + of_bool release\<rparr>)"
| a_release: "releasing s = Suc k \<Longrightarrow> ac_release (controller s) = (Ret (), c) \<Longrightarrow>
     astep s (s\<lparr>controller := c, releasing := k, drains := map drain_notified (drains s)\<rparr>)"
| a_release_raise: "releasing s = Suc k \<Longrightarrow> ac_release (controller s) = (Throw e, c) \<Longrightarrow>
     astep s (s\<lparr>controller := c, releasing := k\<rparr>)"
| a_close: "astep s (s\<lparr>controller := ac_close (controller s), drains := map drain_notified (drains s)\<rparr>)"
| a_drain: "astep s (s\<lparr>drains := drains s @ [drain_check (controller s)]\<rparr>)"
| a_wake: "i < length (drains s) \<Longrightarrow> drains s ! i = DrainParked True \<Longrightarrow>
     astep s (s\<lparr>drains := (drains s)[i := drain_check (controller s)]\<rparr>)"

inductive areach :: "int \<Rightarrow> admission \<Rightarrow> bool" for capacity where
  areach_init: "areach capacity (new_admission capacity)"
| areach_step: "areach capacity s \<Longrightarrow> astep s s' \<Longrightarrow> areach capacity s'"

section \<open>Invariant\<close>

text \<open>A lease holds its permit exactly until both sides are over.\<close>

definition lease_ok :: "AdmissionLease \<Rightarrow> bool" where
  "lease_ok l \<longleftrightarrow> (released l \<longleftrightarrow> http_finished l \<and> (lease_work l = None \<or> work_finished l)) \<and>
     (work_finished l \<longrightarrow> lease_work l \<noteq> None)"

definition held_permits :: "AdmissionLease list \<Rightarrow> nat" where
  "held_permits ls = sum_list (map (\<lambda>l. of_bool (\<not> released l)) ls)"

definition admission_inv :: "int \<Rightarrow> admission \<Rightarrow> bool" where
  "admission_inv capacity s \<longleftrightarrow>
     ac_capacity (controller s) = capacity \<and>
     ac_inflight (controller s) = int (held_permits (leases s) + releasing s) \<and>
     ac_inflight (controller s) \<le> max 0 capacity \<and>
     (\<forall>l \<in> set (leases s). lease_ok l) \<and>
     (DrainParked False \<in> set (drains s) \<longrightarrow> ac_inflight (controller s) \<noteq> 0)"

lemma held_permits_update:
  assumes "i < length ls" "of_bool (\<not> released l) + of_bool r = (of_bool (\<not> released (ls ! i)) :: nat)"
  shows "held_permits (ls[i := l]) + of_bool r = held_permits ls"
proof -
  let ?f = "\<lambda>l. of_bool (\<not> released l) :: nat"
  have "?f (ls ! i) \<le> sum_list (map ?f ls)" using elem_le_sum_list [of i "map ?f ls"] assms(1) by simp
  then show ?thesis
    using sum_list_update [of i "map ?f ls" "?f l"] assms by (simp add: held_permits_def map_update)
qed

lemma work_done_permit:
  assumes "work_done l = (r, l')" "lease_ok l" "lease_work l \<noteq> None"
  shows "lease_ok l' \<and> of_bool (\<not> released l') + of_bool r = (of_bool (\<not> released l) :: nat)"
  using assms by (auto simp: work_done_def lease_ok_def Let_def split: if_splits)

lemma finish_http_permit:
  assumes "finish_http l = (r, l')" "lease_ok l"
  shows "lease_ok l' \<and> of_bool (\<not> released l') + of_bool r = (of_bool (\<not> released l) :: nat)"
  using assms by (auto simp: finish_http_def lease_ok_def Let_def split: if_splits)

lemma attach_work_permit:
  assumes "attach_work f l = (r, l')" "lease_ok l" "\<not> http_finished l"
  shows "lease_ok l' \<and> released l' = released l"
  using assms by (auto simp: attach_work_def lease_ok_def split: if_splits)

lemma lease_step_inv:
  assumes inv: "admission_inv k s" and i: "i < length (leases s)"
    and l: "lease_ok (leases s ! i) \<Longrightarrow>
      lease_ok l \<and> of_bool (\<not> released l) + of_bool r = (of_bool (\<not> released (leases s ! i)) :: nat)"
  shows "admission_inv k (s\<lparr>leases := (leases s)[i := l], releasing := releasing s + of_bool r\<rparr>)"
proof -
  have "lease_ok (leases s ! i)" using inv i by (auto simp: admission_inv_def)
  note l = l [OF this]
  have "\<forall>x \<in> set ((leases s)[i := l]). lease_ok x"
    using inv l set_update_subset_insert [of "leases s" i l] by (auto simp: admission_inv_def)
  moreover have "held_permits ((leases s)[i := l]) + of_bool r = held_permits (leases s)"
    using held_permits_update [OF i] l by blast
  ultimately show ?thesis using inv by (cases r) (auto simp: admission_inv_def)
qed

lemma drain_notified_parked: "DrainParked False \<notin> set (map drain_notified ds)"
proof
  assume "DrainParked False \<in> set (map drain_notified ds)"
  then obtain d where "drain_notified d = DrainParked False" by auto
  then show False by (cases d) simp_all
qed

lemma drain_check_parked: "DrainParked False = drain_check c \<longleftrightarrow> ac_inflight c \<noteq> 0"
  by (simp add: drain_check_def)

lemma admission_release_returns:
  assumes "admission_inv k s" "releasing s \<noteq> 0"
  shows "fst (ac_release (controller s)) = Ret ()"
  using assms by (simp add: admission_inv_def ac_release_def Let_def)

lemma astep_inv: "astep s s' \<Longrightarrow> admission_inv k s \<Longrightarrow> admission_inv k s'"
proof (induction rule: astep.induct)
  case (a_acquire s l c)
  then show ?case
    by (auto simp: admission_inv_def try_acquire_def held_permits_def new_lease_def lease_ok_def split: if_splits)
next
  case (a_attach i s f r l)
  have "admission_inv k (s\<lparr>leases := (leases s)[i := l], releasing := releasing s + of_bool False\<rparr>)"
    by (rule lease_step_inv [OF a_attach.prems a_attach.hyps(1)])
      (use attach_work_permit [OF a_attach.hyps(3) _ a_attach.hyps(2)] in simp)
  then show ?case by simp
next
  case (a_work_done i s release l)
  show ?case
    by (rule lease_step_inv [OF a_work_done.prems a_work_done.hyps(1)])
      (rule work_done_permit [OF a_work_done.hyps(3) _ a_work_done.hyps(2)])
next
  case (a_finish i s release l)
  show ?case
    by (rule lease_step_inv [OF a_finish.prems a_finish.hyps(1)]) (rule finish_http_permit [OF a_finish.hyps(2)])
next
  case (a_release s j c)
  then show ?case using drain_notified_parked
    by (auto simp: admission_inv_def ac_release_def Let_def split: if_splits)
next
  case (a_release_raise s j e c)
  then show ?case using admission_release_returns [of k s] by simp
next
  case (a_wake i s)
  then show ?case using set_update_subset_insert [of "drains s" i] drain_check_parked
    by (fastforce simp: admission_inv_def)
qed (auto simp: admission_inv_def try_acquire_def ac_close_def drain_check_parked
      simp del: set_map simp add: drain_notified_parked split: if_splits)

lemma areach_inv: "areach k s \<Longrightarrow> admission_inv k s"
proof (induction rule: areach.induct)
  case areach_init
  show ?case by (simp add: admission_inv_def new_admission_def new_controller_def held_permits_def)
qed (rule astep_inv)

lemma held_permits_zero: "held_permits ls = 0 \<longleftrightarrow> (\<forall>l \<in> set ls. released l)"
  by (induction ls) (auto simp: held_permits_def)

text \<open>A closed controller with no permit out stays so and gets no new lease.\<close>

lemma astep_closed:
  assumes "astep s s'" "ac_closed (controller s)" "ac_inflight (controller s) = 0" "admission_inv k s"
  shows "ac_closed (controller s') \<and> ac_inflight (controller s') = 0 \<and> length (leases s') = length (leases s)"
  using assms
  by (induction rule: astep.induct) (auto simp: try_acquire_def ac_close_def admission_inv_def)

section \<open>Reading a body\<close>

datatype asgi_message = HttpRequest string bool | HttpDisconnect | OtherMessage

datatype received = ReceiveTimeout | Received asgi_message

text \<open>\<open>AwaitingBody\<close>: the messages so far have not ended the call.\<close>

datatype body_result = Body string | BodyDisconnected | BodyDeadline | BodyTooLarge | AwaitingBody

text \<open>One entry per round of the loop: the clock reading and what the wait for a message gave.\<close>

fun read_body :: "nat \<Rightarrow> int \<Rightarrow> string \<Rightarrow> (int \<times> received) list \<Rightarrow> body_result" where
  "read_body max_request_bytes deadline body [] = AwaitingBody"
| "read_body max_request_bytes deadline body ((now, r) # rounds) =
     (if deadline - now \<le> 0 then BodyDeadline
      else case r of
        ReceiveTimeout \<Rightarrow> BodyDeadline
      | Received HttpDisconnect \<Rightarrow> BodyDisconnected
      | Received OtherMessage \<Rightarrow> read_body max_request_bytes deadline body rounds
      | Received (HttpRequest chunk more_body) \<Rightarrow>
          (if max_request_bytes < length body + length chunk then BodyTooLarge
           else if \<not> more_body then Body (body @ chunk)
           else read_body max_request_bytes deadline (body @ chunk) rounds))"

fun chunk_of :: "received \<Rightarrow> string" where
  "chunk_of (Received (HttpRequest chunk more_body)) = chunk"
| "chunk_of r = []"

text \<open>A body that is handed on is made of the chunks received, in order, and within the limit.\<close>

lemma read_body_chunks:
  "read_body k d body rounds = Body b \<Longrightarrow>
   length b \<le> k \<and> (\<exists>n \<le> length rounds. b = body @ concat (map (\<lambda>x. chunk_of (snd x)) (take n rounds)))"
proof (induction k d body rounds rule: read_body.induct)
  case (2 k d body now r rounds)
  show ?case
  proof (cases r)
    case (Received m)
    show ?thesis
    proof (cases m)
      case (HttpRequest chunk more_body)
      note m = Received HttpRequest
      show ?thesis
      proof (cases more_body)
        case True
        have "read_body k d (body @ chunk) rounds = Body b" using 2(3) True m by (simp split: if_splits)
        with 2(1) [OF _ Received HttpRequest] 2(3) True m obtain n where "length b \<le> k" "n \<le> length rounds"
          "b = (body @ chunk) @ concat (map (\<lambda>x. chunk_of (snd x)) (take n rounds))" by (auto split: if_splits)
        then show ?thesis using m by (intro conjI exI [of _ "Suc n"]) simp_all
      next
        case False
        then show ?thesis using 2(3) m by (intro conjI exI [of _ 1]) (auto split: if_splits)
      qed
    next
      case OtherMessage
      with Received 2(2) [OF _ Received OtherMessage] 2(3) obtain n where "length b \<le> k" "n \<le> length rounds"
          "b = body @ concat (map (\<lambda>x. chunk_of (snd x)) (take n rounds))" by (auto split: if_splits)
      then show ?thesis using Received OtherMessage by (intro conjI exI [of _ "Suc n"]) simp_all
    qed (use 2(3) Received in \<open>simp split: if_splits\<close>)
  qed (use 2(3) in \<open>simp split: if_splits\<close>)
qed simp

section \<open>Properties\<close>

text \<open>
  C9: In every interleaving the permits out are the leases not yet released plus the releases under way, and at
  most the capacity; a lease whose native call has not finished keeps its permit, whatever happened to its HTTP
  request; and a release never finds the counter at zero, so its defensive exception is never raised.
\<close>

theorem admission_permits:
  assumes "areach capacity s"
  shows "ac_inflight (controller s) = int (held_permits (leases s) + releasing s) \<and>
    ac_inflight (controller s) \<le> max 0 capacity \<and>
    (\<forall>l \<in> set (leases s). lease_work l \<noteq> None \<and> \<not> work_finished l \<longrightarrow> \<not> released l) \<and>
    (releasing s \<noteq> 0 \<longrightarrow> fst (ac_release (controller s)) = Ret ())"
  using areach_inv [OF assms] admission_release_returns [OF areach_inv [OF assms]]
  by (auto simp: admission_inv_def lease_ok_def)

definition demo_abandoned :: AdmissionLease where
  "demo_abandoned = \<lparr>http_finished = True, lease_work = Some 7, work_finished = False, released = False\<rparr>"

definition demo_admission :: admission where
  "demo_admission =
     \<lparr>controller = \<lparr>ac_capacity = 1, ac_inflight = 1, ac_closed = True\<rparr>, leases = [demo_abandoned], releasing = 0, drains = []\<rparr>"

lemma demo_admission_reach: "areach 1 demo_admission"
proof -
  let ?c = "\<lparr>ac_capacity = 1, ac_inflight = 1, ac_closed = False\<rparr>"
  let ?s = "\<lambda>l. \<lparr>controller = ?c, leases = [l], releasing = 0, drains = []\<rparr>"
  have "try_acquire (controller (new_admission 1)) = (Some new_lease, ?c)"
    by (simp add: try_acquire_def new_admission_def new_controller_def)
  from areach_step [OF areach_init a_acquire [OF this]] have "areach 1 (?s new_lease)" by (simp add: new_admission_def)
  from areach_step [OF this a_attach [of 0 _ 7]] have "areach 1 (?s (new_lease\<lparr>lease_work := Some 7\<rparr>))"
    by (simp add: attach_work_def new_lease_def)
  from areach_step [OF this a_finish [of 0 _ False]] have "areach 1 (?s demo_abandoned)"
    by (simp add: finish_http_def new_lease_def demo_abandoned_def)
  from areach_step [OF this a_close] show ?thesis by (simp add: ac_close_def demo_admission_def)
qed

theorem admission_permits_witness:
  "ac_inflight (controller demo_admission) = int (held_permits [demo_abandoned]) \<and> \<not> released demo_abandoned"
  using admission_permits [OF demo_admission_reach] by (simp add: demo_admission_def demo_abandoned_def)

text \<open>
  C21: Shutting down is safe: a thread waiting for the permits is blocked unnotified only while one is out; when
  every lease has finished both sides and no release is under way none is out; and once the controller is closed
  with no permit out, that stays so whatever happens, and no native call is running or can start.
\<close>

theorem admission_drains:
  assumes "areach capacity s"
  shows "(DrainParked False \<in> set (drains s) \<longrightarrow> ac_inflight (controller s) \<noteq> 0) \<and>
    ((\<forall>l \<in> set (leases s). http_finished l \<and> (lease_work l = None \<or> work_finished l)) \<and> releasing s = 0 \<longrightarrow>
      ac_inflight (controller s) = 0) \<and>
    (ac_closed (controller s) \<and> ac_inflight (controller s) = 0 \<and> astep\<^sup>*\<^sup>* s s' \<longrightarrow>
      ac_inflight (controller s') = 0 \<and> length (leases s') = length (leases s) \<and>
      (\<forall>l \<in> set (leases s'). http_finished l \<and> (lease_work l = None \<or> work_finished l)))"
proof -
  note inv = areach_inv [OF assms]
  have "ac_inflight (controller s') = 0 \<and> length (leases s') = length (leases s) \<and>
      (\<forall>l \<in> set (leases s'). http_finished l \<and> (lease_work l = None \<or> work_finished l))"
    if "ac_closed (controller s)" "ac_inflight (controller s) = 0" "astep\<^sup>*\<^sup>* s s'"
  proof -
    from that(3,1,2) inv have q: "admission_inv capacity s' \<and> ac_closed (controller s') \<and> ac_inflight (controller s') = 0 \<and>
        length (leases s') = length (leases s)"
    proof (induction rule: rtranclp_induct)
      case (step x y)
      then show ?case using astep_closed [OF step.hyps(2), of capacity] astep_inv [OF step.hyps(2), of capacity] by simp
    qed simp
    then have "held_permits (leases s') = 0" by (simp add: admission_inv_def)
    with q show ?thesis by (auto simp: admission_inv_def lease_ok_def held_permits_zero)
  qed
  moreover have "held_permits (leases s) = 0"
    if "\<forall>l \<in> set (leases s). http_finished l \<and> (lease_work l = None \<or> work_finished l)"
    using inv that by (auto simp: held_permits_zero admission_inv_def lease_ok_def)
  ultimately show ?thesis using inv by (auto simp: admission_inv_def)
qed

theorem admission_drains_witness:
  "\<exists>s. astep\<^sup>*\<^sup>* demo_admission s \<and> ac_inflight (controller s) = 0 \<and> length (leases s) = 1"
proof -
  let ?l = "demo_abandoned\<lparr>work_finished := True, released := True\<rparr>"
  let ?t = "\<lambda>n k. \<lparr>controller = \<lparr>ac_capacity = 1, ac_inflight = n, ac_closed = True\<rparr>, leases = [?l], releasing = k, drains = []\<rparr>"
  have d: "astep demo_admission (?t 1 1)"
    using a_work_done [of 0 demo_admission True ?l] by (simp add: demo_admission_def demo_abandoned_def work_done_def)
  have r: "astep (?t 1 1) (?t 0 0)"
    using a_release [of "?t 1 1" 0 "\<lparr>ac_capacity = 1, ac_inflight = 0, ac_closed = True\<rparr>"] by (simp add: ac_release_def)
  from areach_step [OF areach_step [OF demo_admission_reach d] r] have "areach 1 (?t 0 0)" .
  from admission_drains [OF this, of "?t 0 0"] d r show ?thesis
    by (intro exI [of _ "?t 0 0"]) (auto intro: rtranclp.rtrancl_into_rtrancl)
qed

end
