(* ===== verification/Api_Keys.thy ===== *)
theory Api_Keys
  imports Prelude
begin

text \<open>
  API keys: the hashed key store and its administration (python/cuda_db/security/keys.py) and the bearer
  authentication of prediction requests (python/cuda_db/server/security.py). SHA-256 and the generator of
  secrets are parameters; the JSON text of a store is represented by its syntax tree. Shown: every store
  the administration writes is valid, a generated token authenticates after a restart and disturbs no
  other key, and a revoked key authenticates nobody.
\<close>

section \<open>Characters and patterns\<close>

abbreviation (input) code :: "char \<Rightarrow> nat" where
  "code c \<equiv> of_char c"

definition key_char :: "char \<Rightarrow> bool" where
  "key_char c \<longleftrightarrow> 65 \<le> code c \<and> code c \<le> 90 \<or> 97 \<le> code c \<and> code c \<le> 122 \<or> 48 \<le> code c \<and> code c \<le> 57 \<or>
     c = CHR ''_'' \<or> c = CHR ''-''"

definition hex_char :: "char \<Rightarrow> bool" where
  "hex_char c \<longleftrightarrow> 48 \<le> code c \<and> code c \<le> 57 \<or> 97 \<le> code c \<and> code c \<le> 102"

definition key_id_pattern :: "string \<Rightarrow> bool" where
  "key_id_pattern s \<longleftrightarrow> 1 \<le> length s \<and> length s \<le> 64 \<and> list_all key_char s"

definition digest_pattern :: "string \<Rightarrow> bool" where
  "digest_pattern s \<longleftrightarrow> length s = 64 \<and> list_all hex_char s"

definition secret_pattern :: "string \<Rightarrow> bool" where
  "secret_pattern s \<longleftrightarrow> s \<noteq> [] \<and> list_all key_char s"

section \<open>The store\<close>

text \<open>A number with a fraction or an exponent is refused wherever it stands, so its value is left out.\<close>

datatype json =
    JNull
  | JBool bool
  | JInt int
  | JReal
  | JStr string
  | JList "json list"
  | JObj "(string \<times> json) list"

text \<open>What opening and reading the file gives.\<close>

datatype store_file = NoFile | Unreadable | Blank | NotJson | Document json

record ApiKeyRecord =
  key_id :: string
  sha256 :: string

text \<open>\<open>KeyFileError\<close> is a \<open>ValueError\<close>. The hook sees every object of the text and refuses repeated names.\<close>

abbreviation key_file_error :: "string \<Rightarrow> 'a res" where
  "key_file_error m \<equiv> Throw (ValueError m)"

fun strict_object :: "json \<Rightarrow> bool" and strict_list :: "json list \<Rightarrow> bool"
  and strict_fields :: "(string \<times> json) list \<Rightarrow> bool" where
  "strict_object (JList xs) = strict_list xs"
| "strict_object (JObj fs) = (distinct (map fst fs) \<and> strict_fields fs)"
| "strict_object j = True"
| "strict_list [] = True"
| "strict_list (x # xs) = (strict_object x \<and> strict_list xs)"
| "strict_fields [] = True"
| "strict_fields ((n, x) # fs) = (strict_object x \<and> strict_fields fs)"

definition validate_key_id :: "string \<Rightarrow> string res" where
  "validate_key_id s =
     (if key_id_pattern s then Ret s
      else key_file_error ''key id must contain 1 to 64 ASCII letters, digits, underscores, or hyphens'')"

definition key_id_field :: "json option \<Rightarrow> string res" where
  "key_id_field j =
     (case j of Some (JStr s) \<Rightarrow> validate_key_id s
      | _ \<Rightarrow> key_file_error ''key id must contain 1 to 64 ASCII letters, digits, underscores, or hyphens'')"

definition digest_field :: "json option \<Rightarrow> string res" where
  "digest_field j =
     (case j of
        Some (JStr s) \<Rightarrow>
          (if digest_pattern s then Ret s
           else key_file_error ''API-key digest must be 64 lowercase hexadecimal characters'')
      | _ \<Rightarrow> key_file_error ''API-key digest must be 64 lowercase hexadecimal characters'')"

definition validate_entry :: "json \<Rightarrow> ApiKeyRecord res" where
  "validate_entry entry =
     (case entry of
        JObj fs \<Rightarrow>
          (if set (map fst fs) \<noteq> {''id'', ''sha256''} then key_file_error ''API-key record has an invalid schema''
           else res_bind (key_id_field (map_of fs ''id'')) (\<lambda>k.
                res_bind (digest_field (map_of fs ''sha256'')) (\<lambda>digest. Ret \<lparr>key_id = k, sha256 = digest\<rparr>)))
      | _ \<Rightarrow> key_file_error ''API-key record has an invalid schema'')"

primrec validate_entries :: "json list \<Rightarrow> string set \<Rightarrow> ApiKeyRecord list \<Rightarrow> ApiKeyRecord list res" where
  "validate_entries [] seen records = Ret records"
| "validate_entries (entry # rest) seen records =
     res_bind (validate_entry entry) (\<lambda>r.
       if key_id r \<in> seen then key_file_error ''API-key store contains a duplicate key id''
       else validate_entries rest (insert (key_id r) seen) (records @ [r]))"

definition validate_document :: "json \<Rightarrow> bool \<Rightarrow> ApiKeyRecord list res" where
  "validate_document document require_nonempty =
     (case document of
        JObj fs \<Rightarrow>
          (if set (map fst fs) \<noteq> {''schema_version'', ''keys''}
           then key_file_error ''API-key store has an invalid top-level schema''
           else if map_of fs ''schema_version'' \<noteq> Some (JInt 1)
           then key_file_error ''unsupported API-key store schema version''
           else case map_of fs ''keys'' of
                  Some (JList entries) \<Rightarrow>
                    (if require_nonempty \<and> entries = []
                     then key_file_error ''API-key store must contain at least one key''
                     else validate_entries entries {} [])
                | _ \<Rightarrow> key_file_error ''API-key store keys must be a list'')
      | _ \<Rightarrow> key_file_error ''API-key store has an invalid top-level schema'')"

definition load_key_file :: "store_file \<Rightarrow> bool \<Rightarrow> ApiKeyRecord list res" where
  "load_key_file f require_nonempty =
     (case f of
        NoFile \<Rightarrow> key_file_error ''API-key store could not be read''
      | Unreadable \<Rightarrow> key_file_error ''API-key store could not be read''
      | Blank \<Rightarrow> key_file_error ''API-key store is empty''
      | NotJson \<Rightarrow> key_file_error ''API-key store is not valid UTF-8 JSON''
      | Document j \<Rightarrow>
          (if strict_object j then validate_document j require_nonempty
           else key_file_error ''API-key store contains a duplicate JSON field''))"

definition store_document :: "ApiKeyRecord list \<Rightarrow> json" where
  "store_document records =
     JObj [(''schema_version'', JInt 1),
           (''keys'', JList (map (\<lambda>r. JObj [(''id'', JStr (key_id r)), (''sha256'', JStr (sha256 r))]) records))]"

text \<open>
  Writing replaces the file in one step: the system may fail before it, which leaves the old file, or in
  the calls after it, which leaves the new one.
\<close>

datatype write_outcome = Written | FailedBefore | FailedAfter

definition write_key_file :: "write_outcome \<Rightarrow> ApiKeyRecord list \<Rightarrow> store_file \<Rightarrow> unit res \<times> store_file" where
  "write_key_file w records f =
     (case w of
        Written \<Rightarrow> (Ret (), Document (store_document records))
      | FailedBefore \<Rightarrow> (key_file_error ''API-key store could not be written'', f)
      | FailedAfter \<Rightarrow> (key_file_error ''API-key store could not be written'', Document (store_document records)))"

text \<open>The lock file serialises the administration; taking it may fail.\<close>

definition store_lock :: "bool \<Rightarrow> (store_file, 'a) cmd \<Rightarrow> (store_file, 'a) cmd" where
  "store_lock locked body f =
     (if locked then body f else (key_file_error ''API-key store could not be locked'', f))"

definition generate_key :: "(string \<Rightarrow> string) \<Rightarrow> string \<Rightarrow> string \<Rightarrow> bool \<Rightarrow> write_outcome \<Rightarrow> (store_file, string) cmd" where
  "generate_key hash k secret locked w =
     cbind (\<lambda>f. (validate_key_id k, f)) (\<lambda>k. store_lock locked (
     cbind (\<lambda>f. (if f = NoFile then Ret [] else load_key_file f False, f)) (\<lambda>records.
       if \<exists>r \<in> set records. key_id r = k then (\<lambda>f. (key_file_error ''API-key id already exists'', f))
       else let token = k @ ''.'' @ secret
            in cbind (write_key_file w (records @ [\<lparr>key_id = k, sha256 = hash token\<rparr>])) (\<lambda>_. cret token))))"

definition revoke_key :: "string \<Rightarrow> bool \<Rightarrow> write_outcome \<Rightarrow> (store_file, unit) cmd" where
  "revoke_key k locked w =
     cbind (\<lambda>f. (validate_key_id k, f)) (\<lambda>k. store_lock locked (
     cbind (\<lambda>f. (load_key_file f False, f)) (\<lambda>records.
       let remaining = filter (\<lambda>r. key_id r \<noteq> k) records
       in if length remaining = length records then (\<lambda>f. (key_file_error ''API-key id does not exist'', f))
          else write_key_file w remaining)))"

section \<open>Authentication\<close>

definition lower_char :: "char \<Rightarrow> char" where
  "lower_char c = (if 65 \<le> code c \<and> code c \<le> 90 then char_of (code c + 32) else c)"

definition lower :: "string \<Rightarrow> string" where
  "lower s = map lower_char s"

fun split_on :: "char \<Rightarrow> string \<Rightarrow> string list" where
  "split_on sep [] = [[]]"
| "split_on sep (c # cs) =
     (if c = sep then [] # split_on sep cs
      else case split_on sep cs of piece # pieces \<Rightarrow> (c # piece) # pieces | [] \<Rightarrow> [[c]])"

definition dummy_digest :: string where
  "dummy_digest = replicate 64 (CHR ''0'')"

record ApiKeyAuthenticator =
  auth_required :: bool
  digests :: "(string \<rightharpoonup> string) option"

definition authenticator_new :: "bool \<Rightarrow> ApiKeyAuthenticator" where
  "authenticator_new req = \<lparr>auth_required = req, digests = (if \<not> req then Some Map.empty else None)\<rparr>"

definition auth_load :: "store_file \<Rightarrow> ApiKeyAuthenticator \<Rightarrow> ApiKeyAuthenticator res" where
  "auth_load f a =
     (if \<not> auth_required a then Ret (a\<lparr>digests := Some Map.empty\<rparr>)
      else res_bind (load_key_file f True) (\<lambda>records.
        Ret (a\<lparr>digests := Some (map_of (rev (map (\<lambda>r. (key_id r, sha256 r)) records)))\<rparr>)))"

definition auth_clear :: "ApiKeyAuthenticator \<Rightarrow> ApiKeyAuthenticator" where
  "auth_clear a = a\<lparr>digests := (if \<not> auth_required a then Some Map.empty else None)\<rparr>"

text \<open>The token of the only authorization header, and the id and secret in it.\<close>

definition bearer_token :: "(string \<times> string) list \<Rightarrow> string option" where
  "bearer_token headers =
     (case map snd (filter (\<lambda>(name, value). lower name = ''authorization'') headers) of
        [value] \<Rightarrow>
          (if \<exists>c \<in> set value. 128 \<le> code c then None
           else case split_on (CHR '' '') value of
                  [scheme, token] \<Rightarrow> (if lower scheme \<noteq> ''bearer'' \<or> token = [] then None else Some token)
                | _ \<Rightarrow> None)
      | _ \<Rightarrow> None)"

definition authenticate :: "(string \<Rightarrow> string) \<Rightarrow> (string \<times> string) list \<Rightarrow> ApiKeyAuthenticator \<Rightarrow> string option" where
  "authenticate hash headers a =
     (if \<not> auth_required a then Some ''-''
      else case digests a of
        None \<Rightarrow> None
      | Some known \<Rightarrow>
          (case bearer_token headers of
             None \<Rightarrow> None
           | Some token \<Rightarrow>
               (case split_on (CHR ''.'') token of
                  [k, secret] \<Rightarrow>
                    (if \<not> key_id_pattern k then None
                     else if \<not> secret_pattern secret then None
                     else let actual = hash token;
                              expected = (case known k of None \<Rightarrow> dummy_digest | Some d \<Rightarrow> d)
                          in if actual \<noteq> expected then None else Some k)
                | _ \<Rightarrow> None)))"

section \<open>Valid stores\<close>

definition records_ok :: "ApiKeyRecord list \<Rightarrow> bool" where
  "records_ok rs \<longleftrightarrow> distinct (map key_id rs) \<and> (\<forall>r \<in> set rs. key_id_pattern (key_id r) \<and> digest_pattern (sha256 r))"

lemma key_id_field_Ret: "key_id_field j = Ret k \<Longrightarrow> key_id_pattern k"
  by (cases "key_id_pattern k") (auto simp: key_id_field_def validate_key_id_def split: option.splits json.splits if_splits)

lemma digest_field_Ret: "digest_field j = Ret d \<Longrightarrow> digest_pattern d"
  by (cases "digest_pattern d") (auto simp: digest_field_def split: option.splits json.splits if_splits)

lemma validate_entry_ok:
  assumes "validate_entry e = Ret r"
  shows "key_id_pattern (key_id r) \<and> digest_pattern (sha256 r)"
proof (cases e)
  case (JObj fs)
  show ?thesis
  proof (cases "set (map fst fs) = {''id'', ''sha256''}")
    case True
    then have "res_bind (key_id_field (map_of fs ''id'')) (\<lambda>k.
        res_bind (digest_field (map_of fs ''sha256'')) (\<lambda>digest. Ret \<lparr>key_id = k, sha256 = digest\<rparr>)) = Ret r"
      using assms by (simp only: validate_entry_def JObj json.case if_False not_not simp_thms)
    then obtain k d where "key_id_field (map_of fs ''id'') = Ret k" "digest_field (map_of fs ''sha256'') = Ret d"
      "r = \<lparr>key_id = k, sha256 = d\<rparr>" by (auto simp only: res_bind_eq_Ret res.inject)
    then show ?thesis using key_id_field_Ret digest_field_Ret by simp
  next
    case False
    then show ?thesis using assms by (simp only: validate_entry_def JObj json.case if_True simp_thms res.distinct)
  qed
qed (use assms in \<open>simp_all only: validate_entry_def json.case res.distinct simp_thms\<close>)

lemma validate_entries_ok:
  "validate_entries es (set (map key_id rs)) rs = Ret rs' \<Longrightarrow> records_ok rs \<Longrightarrow> records_ok rs'"
proof (induction es arbitrary: rs)
  case (Cons e es)
  from Cons.prems(1) obtain r where r: "validate_entry e = Ret r" "key_id r \<notin> set (map key_id rs)"
    "validate_entries es (insert (key_id r) (set (map key_id rs))) (rs @ [r]) = Ret rs'"
    by (auto simp: res_bind_eq_Ret split: if_splits)
  have "records_ok (rs @ [r])" using validate_entry_ok [OF r(1)] r(2) Cons.prems(2) by (auto simp: records_ok_def)
  with Cons.IH [of "rs @ [r]"] r(3) show ?case by simp
qed simp

lemma load_key_file_ok:
  assumes "load_key_file f b = Ret rs"
  shows "records_ok rs"
proof -
  from assms obtain es where "validate_entries es {} [] = Ret rs"
    by (auto simp: load_key_file_def validate_document_def split: store_file.splits if_splits json.splits option.splits)
  with validate_entries_ok [of es "[]" rs] show ?thesis by (simp add: records_ok_def)
qed

text \<open>An entry as the administration writes it.\<close>

abbreviation entry_of :: "ApiKeyRecord \<Rightarrow> json" where
  "entry_of r \<equiv> JObj [(''id'', JStr (key_id r)), (''sha256'', JStr (sha256 r))]"

lemma validate_entry_of:
  assumes "key_id_pattern (key_id r)" "digest_pattern (sha256 r)"
  shows "validate_entry (entry_of r) = Ret r"
  using assms by (simp add: validate_entry_def key_id_field_def digest_field_def validate_key_id_def)

lemma validate_entries_document:
  assumes "records_ok (acc @ rs)"
  shows "validate_entries (map entry_of rs) (set (map key_id acc)) acc = Ret (acc @ rs)"
  using assms
proof (induction rs arbitrary: acc)
  case (Cons r rs)
  have r: "key_id_pattern (key_id r)" "digest_pattern (sha256 r)" "key_id r \<notin> set (map key_id acc)"
    using Cons.prems by (auto simp: records_ok_def)
  with Cons.IH [of "acc @ [r]"] Cons.prems show ?case by (simp add: validate_entry_of)
qed simp

lemma strict_store_document: "strict_object (store_document rs)"
proof -
  have "strict_list (map entry_of rs)" by (induction rs) simp_all
  then show ?thesis by (simp add: store_document_def)
qed

text \<open>What is written is read unchanged.\<close>

lemma load_store_document:
  assumes "records_ok rs" "b \<longrightarrow> rs \<noteq> []"
  shows "load_key_file (Document (store_document rs)) b = Ret rs"
proof -
  have "validate_entries (map entry_of rs) {} [] = Ret rs"
    using validate_entries_document [of "[]" rs] assms(1) by simp
  then show ?thesis using assms(2) strict_store_document [of rs]
    by (auto simp: load_key_file_def validate_document_def store_document_def)
qed

section \<open>Tokens\<close>

lemma split_on_plain: "sep \<notin> set s \<Longrightarrow> split_on sep s = [s]"
  by (induction s) auto

lemma split_on_first: "sep \<notin> set s \<Longrightarrow> split_on sep (s @ sep # t) = s # split_on sep t"
  by (induction s) auto

lemma key_char_plain: "key_char c \<Longrightarrow> c \<noteq> CHR ''.'' \<and> c \<noteq> CHR '' '' \<and> code c < 128"
  by (auto simp: key_char_def)

lemma patterns_plain:
  assumes "key_id_pattern k" "secret_pattern secret"
  shows "CHR ''.'' \<notin> set k" "CHR ''.'' \<notin> set secret" "CHR '' '' \<notin> set (k @ ''.'' @ secret)"
    "\<not> (\<exists>c \<in> set (k @ ''.'' @ secret). 128 \<le> code c)"
proof -
  have c: "key_char c" if "c \<in> set k \<or> c \<in> set secret" for c
    using assms that by (auto simp: key_id_pattern_def secret_pattern_def list_all_iff)
  show "CHR ''.'' \<notin> set k" "CHR ''.'' \<notin> set secret" using c key_char_plain by blast+
  show "CHR '' '' \<notin> set (k @ ''.'' @ secret)" using c key_char_plain by auto
  show "\<not> (\<exists>c \<in> set (k @ ''.'' @ secret). 128 \<le> code c)" using c key_char_plain by fastforce
qed

lemma bearer_token_single:
  assumes "lower h = ''authorization''" "key_id_pattern k" "secret_pattern secret"
  shows "bearer_token [(h, ''Bearer '' @ k @ ''.'' @ secret)] = Some (k @ ''.'' @ secret)"
proof -
  let ?t = "k @ ''.'' @ secret"
  note p = patterns_plain [OF assms(2,3)]
  have "split_on (CHR '' '') (''Bearer'' @ CHR '' '' # ?t) = [''Bearer'', ?t]"
    by (subst split_on_first) (simp_all only: split_on_plain [OF p(3)], simp)
  then have s: "split_on (CHR '' '') (''Bearer '' @ ?t) = [''Bearer'', ?t]" by simp
  have "\<not> (\<exists>c \<in> set (''Bearer '' @ ?t). 128 \<le> code c)" using p(4) by simp
  moreover have "lower ''Bearer'' = ''bearer''" by code_simp
  moreover have "filter (\<lambda>(name, value). lower name = ''authorization'') [(h, ''Bearer '' @ ?t)] = [(h, ''Bearer '' @ ?t)]"
    by (simp only: filter.simps assms(1) prod.case if_True simp_thms)
  ultimately show ?thesis by (simp only: bearer_token_def list.map snd_conv list.case s if_False simp_thms) simp
qed

text \<open>Who is let in: the digest stored for the id, or the stand-in digest when there is none.\<close>

definition accepts :: "(string \<Rightarrow> string) \<Rightarrow> (string \<rightharpoonup> string) \<Rightarrow> string \<Rightarrow> string \<Rightarrow> bool" where
  "accepts hash known k token \<longleftrightarrow>
     (\<exists>secret. split_on (CHR ''.'') token = [k, secret] \<and> secret_pattern secret) \<and> key_id_pattern k \<and>
     hash token = (case known k of None \<Rightarrow> dummy_digest | Some d \<Rightarrow> d)"

lemma authenticate_Some:
  assumes "auth_required a" "digests a = Some known"
  shows "authenticate hash headers a = Some k \<longleftrightarrow>
    (\<exists>token. bearer_token headers = Some token \<and> accepts hash known k token)"
  using assms
  by (auto simp: authenticate_def accepts_def Let_def split: option.splits list.splits if_splits)

section \<open>Administration\<close>

definition known_digests :: "ApiKeyRecord list \<Rightarrow> string \<rightharpoonup> string" where
  "known_digests rs = map_of (map (\<lambda>r. (key_id r, sha256 r)) rs)"

lemma auth_load_True:
  assumes "auth_load f (authenticator_new True) = Ret a"
  obtains rs where "load_key_file f True = Ret rs" "auth_required a" "digests a = Some (known_digests rs)"
proof -
  from assms obtain rs where rs: "load_key_file f True = Ret rs" "auth_required a"
    "digests a = Some (map_of (rev (map (\<lambda>r. (key_id r, sha256 r)) rs)))"
    by (auto simp: auth_load_def authenticator_new_def res_bind_eq_Ret)
  have "distinct (map fst (map (\<lambda>r. (key_id r, sha256 r)) rs))" using load_key_file_ok [OF rs(1)] by (simp add: records_ok_def comp_def)
  then have "map_of (rev (map (\<lambda>r. (key_id r, sha256 r)) rs)) = known_digests rs"
    unfolding known_digests_def by (subst map_of_inject_set) (simp_all add: rev_map [symmetric])
  with rs that show thesis by simp
qed

lemma validate_document_nonempty:
  assumes "validate_document j True = Ret rs"
  shows "validate_document j False = Ret rs"
proof (cases j)
  case (JObj fs)
  let ?schema = "set (map fst fs) = {''schema_version'', ''keys''}" and ?version = "map_of fs ''schema_version'' = Some (JInt 1)"
  let ?keys = "\<lambda>b. case map_of fs ''keys'' of
      Some (JList entries) \<Rightarrow>
        (if b \<and> entries = [] then key_file_error ''API-key store must contain at least one key''
         else validate_entries entries {} [])
    | _ \<Rightarrow> key_file_error ''API-key store keys must be a list''"
  have "?schema" "?version"
    using assms unfolding validate_document_def JObj json.case by (simp_all only: res.distinct split: if_split_asm)
  then have "validate_document j b = ?keys b" for b
    unfolding validate_document_def JObj json.case by (simp only: if_False simp_thms)
  with assms show ?thesis by (simp split: option.splits json.splits if_splits)
qed (use assms in \<open>simp_all only: validate_document_def json.case res.distinct\<close>)

lemma load_nonempty: "load_key_file f True = Ret rs \<Longrightarrow> load_key_file f False = Ret rs"
  using validate_document_nonempty by (cases f) (simp_all add: load_key_file_def split: if_splits)

lemma generate_key_Ret:
  assumes "generate_key hash k secret locked w f = (Ret token, f')"
  obtains rs where "if f = NoFile then rs = [] else load_key_file f False = Ret rs" "key_id_pattern k"
    "k \<notin> set (map key_id rs)" "token = k @ ''.'' @ secret"
    "f' = Document (store_document (rs @ [\<lparr>key_id = k, sha256 = hash token\<rparr>]))"
proof -
  let ?read = "if f = NoFile then Ret [] else load_key_file f False"
  have k: "key_id_pattern k" "locked" using assms
    by (auto simp: generate_key_def cbind_def validate_key_id_def store_lock_def split: if_splits)
  obtain rs where rs: "?read = Ret rs"
    using assms k by (cases ?read) (auto simp: generate_key_def cbind_def validate_key_id_def store_lock_def)
  have new: "\<not> (\<exists>r \<in> set rs. key_id r = k)"
  proof
    assume "\<exists>r \<in> set rs. key_id r = k"
    then show False using assms k rs by (simp add: generate_key_def cbind_def validate_key_id_def store_lock_def)
  qed
  with assms k rs have "token = k @ ''.'' @ secret" "f' = Document (store_document (rs @ [\<lparr>key_id = k, sha256 = hash token\<rparr>]))"
    by (auto simp: generate_key_def cbind_def validate_key_id_def store_lock_def Let_def write_key_file_def cret_def
        split: write_outcome.splits)
  with rs k new that [of rs] show thesis by (force split: if_splits)
qed

lemma revoke_key_Ret:
  assumes "revoke_key k locked w f = (Ret (), f')"
  obtains rs where "load_key_file f False = Ret rs" "f' = Document (store_document (filter (\<lambda>r. key_id r \<noteq> k) rs))"
proof -
  have k: "key_id_pattern k" "locked" using assms
    by (auto simp: revoke_key_def cbind_def validate_key_id_def store_lock_def split: if_splits)
  obtain rs where rs: "load_key_file f False = Ret rs"
    using assms k by (cases "load_key_file f False") (auto simp: revoke_key_def cbind_def validate_key_id_def store_lock_def)
  with assms k that show thesis
    by (auto simp: revoke_key_def cbind_def validate_key_id_def store_lock_def Let_def write_key_file_def
        split: if_splits write_outcome.splits)
qed

lemma records_ok_filter: "records_ok rs \<Longrightarrow> records_ok (filter P rs)"
  by (auto simp: records_ok_def distinct_map_filter)

lemma known_digests_other: "k' \<noteq> k \<Longrightarrow> known_digests (filter (\<lambda>r. key_id r \<noteq> k) rs) k' = known_digests rs k'"
  by (induction rs) (auto simp: known_digests_def)

lemma known_digests_add:
  "key_id r \<notin> set (map key_id rs) \<Longrightarrow> known_digests (rs @ [r]) = (known_digests rs)(key_id r \<mapsto> sha256 r)"
  by (induction rs) (auto simp: known_digests_def fun_upd_twist)

lemma known_digests_gone: "known_digests (filter (\<lambda>r. key_id r \<noteq> k) rs) k = None"
  by (auto simp: known_digests_def map_of_eq_None_iff)

section \<open>Properties\<close>

text \<open>Calls of the administration, with what the system does to them; \<open>secret\<close> is the generated secret.\<close>

datatype keyop = GenerateKey string string bool write_outcome | RevokeKey string bool write_outcome

fun key_step :: "(string \<Rightarrow> string) \<Rightarrow> keyop \<Rightarrow> store_file \<Rightarrow> store_file" where
  "key_step hash (GenerateKey k secret locked w) f = snd (generate_key hash k secret locked w f)"
| "key_step hash (RevokeKey k locked w) f = snd (revoke_key k locked w f)"

definition store_ok :: "store_file \<Rightarrow> bool" where
  "store_ok f \<longleftrightarrow> f = NoFile \<or> (\<exists>rs. f = Document (store_document rs) \<and> records_ok rs)"

lemma store_ok_load: "store_ok f \<Longrightarrow> f = NoFile \<or> (\<exists>rs. load_key_file f False = Ret rs \<and> records_ok rs)"
  using load_store_document by (auto simp: store_ok_def)

lemma write_store_ok: "store_ok f \<Longrightarrow> records_ok rs \<Longrightarrow> store_ok (snd (write_key_file w rs f))"
  by (cases w) (auto simp: write_key_file_def store_ok_def)

lemma generate_store_ok:
  assumes "\<forall>t. digest_pattern (hash t)" "store_ok f"
  shows "store_ok (snd (generate_key hash k secret locked w f))"
proof (cases "key_id_pattern k \<and> locked")
  case True
  let ?read = "if f = NoFile then Ret [] else load_key_file f False"
  obtain rs where rs: "?read = Ret rs" "records_ok rs"
    using store_ok_load [OF assms(2)] by (cases "f = NoFile") (auto simp: records_ok_def)
  show ?thesis
  proof (cases "\<exists>r \<in> set rs. key_id r = k")
    case ex: True
    then show ?thesis using True rs(1) assms(2) by (simp add: generate_key_def cbind_def validate_key_id_def store_lock_def)
  next
    case new: False
    let ?rs = "rs @ [\<lparr>key_id = k, sha256 = hash (k @ ''.'' @ secret)\<rparr>]"
    have "records_ok ?rs" using rs(2) new True assms(1) by (auto simp: records_ok_def)
    moreover obtain r g where wr: "write_key_file w ?rs f = (r, g)" by fastforce
    ultimately have "store_ok g" using write_store_ok [OF assms(2), of ?rs w] by simp
    then show ?thesis using True rs(1) new wr
      by (cases r) (simp_all add: generate_key_def cbind_def validate_key_id_def store_lock_def Let_def cret_def)
  qed
next
  case False
  then show ?thesis using assms(2) by (auto simp: generate_key_def cbind_def validate_key_id_def store_lock_def)
qed

lemma revoke_store_ok:
  assumes "store_ok f"
  shows "store_ok (snd (revoke_key k locked w f))"
proof (cases "load_key_file f False")
  case (Ret rs)
  then have "store_ok (snd (write_key_file w (filter (\<lambda>r. key_id r \<noteq> k) rs) f))"
    using write_store_ok [OF assms] records_ok_filter load_key_file_ok by blast
  with Ret assms show ?thesis
    by (cases "key_id_pattern k"; cases locked)
      (simp_all add: revoke_key_def cbind_def validate_key_id_def store_lock_def Let_def)
qed (use assms in \<open>simp_all add: revoke_key_def cbind_def validate_key_id_def store_lock_def\<close>)

text \<open>
  C28: Whatever keys are generated and revoked, and whichever of these calls fail while locking or writing, the
  store is absent or can be loaded, and its records have distinct well-formed ids and well-formed digests.
\<close>

theorem key_store_stays_valid:
  assumes "\<forall>t. digest_pattern (hash t)"
  shows "case fold (key_step hash) ops NoFile of
      NoFile \<Rightarrow> True
    | f \<Rightarrow> \<exists>rs. load_key_file f False = Ret rs \<and> distinct (map key_id rs) \<and>
        (\<forall>r \<in> set rs. key_id_pattern (key_id r) \<and> digest_pattern (sha256 r))"
proof -
  have step: "store_ok f \<Longrightarrow> store_ok (key_step hash x f)" for x f
    by (cases x) (simp_all add: generate_store_ok [OF assms] revoke_store_ok)
  have "store_ok f \<Longrightarrow> store_ok (fold (key_step hash) ops f)" for f
    by (induction ops arbitrary: f) (simp_all add: step)
  then have "store_ok (fold (key_step hash) ops NoFile)" by (simp add: store_ok_def)
  then show ?thesis using load_store_document by (auto simp: store_ok_def records_ok_def)
qed

definition demo_hash :: "string \<Rightarrow> string" where
  "demo_hash t = replicate 64 (if length t = 4 then CHR ''a'' else CHR ''b'')"

lemma demo_hash_ok: "\<forall>t. digest_pattern (demo_hash t)"
  by (simp add: demo_hash_def digest_pattern_def list_all_iff hex_char_def)

definition demo_store :: store_file where
  "demo_store = Document (store_document [\<lparr>key_id = ''k1'', sha256 = demo_hash ''k1.x''\<rparr>])"

lemma demo_generate: "generate_key demo_hash ''k1'' ''x'' True Written NoFile = (Ret ''k1.x'', demo_store)"
  by (simp add: generate_key_def cbind_def cret_def validate_key_id_def store_lock_def write_key_file_def demo_store_def
      key_id_pattern_def key_char_def Let_def)

theorem key_store_stays_valid_witness:
  "\<exists>rs. load_key_file demo_store False = Ret rs \<and> distinct (map key_id rs)"
  using key_store_stays_valid [OF demo_hash_ok, of "[GenerateKey ''k1'' ''x'' True Written]"] demo_generate
  by (auto simp: demo_store_def)

text \<open>
  C14: A token that \<open>generate_key\<close> returns authenticates as its key after the store has been loaded again, sent in
  the only authorization header; and whoever else was authenticated before the key was added still is.
\<close>

theorem generated_key_authenticates:
  assumes hash: "\<forall>t. digest_pattern (hash t)" and secret: "secret_pattern secret"
    and gen: "generate_key hash k secret locked w f = (Ret token, f')"
  shows "\<exists>a. auth_load f' (authenticator_new True) = Ret a \<and>
    (\<forall>h. lower h = ''authorization'' \<longrightarrow> authenticate hash [(h, ''Bearer '' @ token)] a = Some k) \<and>
    (\<forall>a0 headers k'. auth_load f (authenticator_new True) = Ret a0 \<and> authenticate hash headers a0 = Some k' \<and> k' \<noteq> k \<longrightarrow>
      authenticate hash headers a = Some k')"
proof -
  obtain rs where rs: "if f = NoFile then rs = [] else load_key_file f False = Ret rs" "key_id_pattern k"
    "k \<notin> set (map key_id rs)" "token = k @ ''.'' @ secret"
    and f': "f' = Document (store_document (rs @ [\<lparr>key_id = k, sha256 = hash token\<rparr>]))"
    using gen by (rule generate_key_Ret)
  let ?rs = "rs @ [\<lparr>key_id = k, sha256 = hash token\<rparr>]"
  have "records_ok rs" using rs(1) load_key_file_ok by (auto simp: records_ok_def split: if_splits)
  then have "records_ok ?rs" using rs(2,3) hash by (auto simp: records_ok_def)
  then have "load_key_file f' True = Ret ?rs" unfolding f' by (rule load_store_document) simp
  then obtain a where a: "auth_load f' (authenticator_new True) = Ret a"
    by (simp add: auth_load_def authenticator_new_def)
  from a obtain qs where "load_key_file f' True = Ret qs" "auth_required a" "digests a = Some (known_digests qs)"
    by (rule auth_load_True)
  with \<open>load_key_file f' True = Ret ?rs\<close> have a': "auth_required a" "digests a = Some (known_digests ?rs)" by simp_all
  have known: "known_digests ?rs k = Some (hash token)" "k' \<noteq> k \<Longrightarrow> known_digests ?rs k' = known_digests rs k'" for k'
    using known_digests_add [of "\<lparr>key_id = k, sha256 = hash token\<rparr>" rs] rs(3) by simp_all
  note p = patterns_plain [OF rs(2) secret]
  have "split_on (CHR ''.'') token = [k, secret]"
    using split_on_first [OF p(1), of secret] split_on_plain [OF p(2)] by (simp add: rs(4))
  with known(1) rs(2) secret have "accepts hash (known_digests ?rs) k token" by (auto simp: accepts_def)
  then have "\<forall>h. lower h = ''authorization'' \<longrightarrow> authenticate hash [(h, ''Bearer '' @ token)] a = Some k"
    using bearer_token_single [OF _ rs(2) secret] unfolding authenticate_Some [OF a'] rs(4) by blast
  moreover have "authenticate hash headers a = Some k'"
    if "auth_load f (authenticator_new True) = Ret a0" "authenticate hash headers a0 = Some k'" "k' \<noteq> k" for a0 headers k'
  proof -
    from that(1) obtain qs where q: "load_key_file f True = Ret qs" "auth_required a0" "digests a0 = Some (known_digests qs)"
      by (rule auth_load_True)
    have "qs = rs" using load_nonempty [OF q(1)] rs(1) by (auto simp: load_key_file_def split: if_splits)
    with that(2,3) known(2) [of k'] show ?thesis
      unfolding authenticate_Some [OF a'] authenticate_Some [OF q(2,3)] by (auto simp: accepts_def)
  qed
  ultimately show ?thesis using a by blast
qed

theorem generated_key_authenticates_witness:
  "\<exists>a. auth_load demo_store (authenticator_new True) = Ret a \<and>
     authenticate demo_hash [(''authorization'', ''Bearer k1.x'')] a = Some ''k1''"
proof -
  have "secret_pattern ''x''" "lower ''authorization'' = ''authorization''"
    by (simp_all add: secret_pattern_def key_char_def lower_def lower_char_def)
  with generated_key_authenticates [OF demo_hash_ok _ demo_generate] show ?thesis by auto
qed

text \<open>
  C13: After a key has been revoked and the store loaded again, no request authenticates as it, unless the hash of
  its token is the all-zero stand-in; every other key authenticates as before.
\<close>

theorem revoked_key_rejected:
  assumes rev: "revoke_key k locked w f = (Ret (), f')" and a: "auth_load f' (authenticator_new True) = Ret a"
  shows "(authenticate hash headers a = Some k \<longrightarrow>
      (\<exists>token. bearer_token headers = Some token \<and> hash token = dummy_digest)) \<and>
    (\<forall>a0 k'. auth_load f (authenticator_new True) = Ret a0 \<and> k' \<noteq> k \<longrightarrow>
      (authenticate hash headers a = Some k' \<longleftrightarrow> authenticate hash headers a0 = Some k'))"
proof -
  obtain rs where rs: "load_key_file f False = Ret rs" "f' = Document (store_document (filter (\<lambda>r. key_id r \<noteq> k) rs))"
    using rev by (rule revoke_key_Ret)
  from a obtain qs where q: "load_key_file f' True = Ret qs" "auth_required a" "digests a = Some (known_digests qs)"
    by (rule auth_load_True)
  have "load_key_file f' False = Ret (filter (\<lambda>r. key_id r \<noteq> k) rs)"
    unfolding rs(2) by (rule load_store_document) (simp_all add: records_ok_filter load_key_file_ok [OF rs(1)])
  with load_nonempty [OF q(1)] have qs: "qs = filter (\<lambda>r. key_id r \<noteq> k) rs" by simp
  have "authenticate hash headers a = Some k' \<longleftrightarrow> authenticate hash headers a0 = Some k'"
    if "auth_load f (authenticator_new True) = Ret a0" "k' \<noteq> k" for a0 k'
  proof -
    from that(1) obtain ps where p: "load_key_file f True = Ret ps" "auth_required a0" "digests a0 = Some (known_digests ps)"
      by (rule auth_load_True)
    have "ps = rs" using load_nonempty [OF p(1)] rs(1) by simp
    then show ?thesis using known_digests_other [OF that(2), of rs]
      unfolding authenticate_Some [OF q(2,3)] authenticate_Some [OF p(2,3)] by (simp add: accepts_def qs)
  qed
  moreover have "\<exists>token. bearer_token headers = Some token \<and> hash token = dummy_digest"
    if "authenticate hash headers a = Some k"
    using that known_digests_gone [of k rs] unfolding authenticate_Some [OF q(2,3)] by (auto simp: accepts_def qs)
  ultimately show ?thesis by blast
qed

theorem revoked_key_rejected_witness:
  "\<exists>a. auth_load demo_store (authenticator_new True) = Ret a \<and>
     authenticate demo_hash [(''authorization'', ''Bearer k2.x'')] a \<noteq> Some ''k2''"
proof -
  let ?rs = "[\<lparr>key_id = ''k1'', sha256 = demo_hash ''k1.x''\<rparr>, \<lparr>key_id = ''k2'', sha256 = demo_hash ''k2.x''\<rparr>]"
  have ok: "records_ok ?rs" using demo_hash_ok by (simp add: records_ok_def key_id_pattern_def key_char_def)
  then have "load_key_file (Document (store_document ?rs)) False = Ret ?rs" by (rule load_store_document) simp
  then have rev: "revoke_key ''k2'' True Written (Document (store_document ?rs)) = (Ret (), demo_store)"
    by (simp add: revoke_key_def cbind_def validate_key_id_def store_lock_def key_id_pattern_def key_char_def Let_def
        write_key_file_def demo_store_def)
  have "load_key_file demo_store True = Ret (take 1 ?rs)"
    unfolding demo_store_def using ok load_store_document [of "take 1 ?rs" True] by (simp add: records_ok_def)
  then obtain a where a: "auth_load demo_store (authenticator_new True) = Ret a" by (simp add: auth_load_def authenticator_new_def)
  have "hd (demo_hash t) \<noteq> hd dummy_digest" for t by (simp add: demo_hash_def dummy_digest_def)
  then have "demo_hash t \<noteq> dummy_digest" for t by metis
  with revoked_key_rejected [OF rev a, of demo_hash] a show ?thesis by blast
qed

end
