(* ===== verification/Spec2Isabelle.thy ===== *)
theory Spec2Isabelle
  imports Cuda_Lifecycle Bench_Tool Runtime_Binding Admission Api_Keys
begin

text \<open>
  A verification development for the CUDA inference server (sources under src/cpp and src/python).

  \<^bold>\<open>The program.\<close> A Python server admits a prediction request, authenticates it and calls \<open>predict\<close> of the
  native runtime on a thread of its own. The runtime gives the request an id and submits it to the
  scheduler, which queues it. One worker thread drains the queue in batches of bounded size, waiting a
  bounded time for a batch to fill, concatenates the inputs, calls an execution engine and resolves each
  caller's promise with its own row of the output. There are three engines: a stub that copies rows, one
  that normalises rows with a CUDA kernel on blocks from a memory pool and streams from a stream pool, and
  one that runs an ONNX network on the host path or on bound device blocks.

  \<^bold>\<open>Conventions.\<close> \<open>size_t\<close> and addresses are 64-bit words with their wrap-around, \<open>int\<close> is a 32-bit word,
  Python integers and the clock are unbounded. Floats are correctly rounded rationals with infinities and
  NaN (theory Floats). A result is a value, an exception, a terminated process, undefined behaviour or a call
  that never returns (\<open>res\<close>, theory Prelude); stateful code is a command on an explicit state. The CUDA
  runtime, the ONNX Runtime, SHA-256 and the random generators are parameters: records of functions or
  functions, with the documented behaviour the code relies on as named predicates (\<open>cuda_laws\<close>,
  \<open>copies_succeed\<close>, \<open>ort_laws\<close>), which the simulated runtime and library of theories Cuda_Runtime and
  Onnx_Runtime satisfy. \<open>bucket_for\<close> is the one loop that may not end: it is a partial function whose
  value None is not returning. All other recursion is total; no fuel is used.

  \<^bold>\<open>Theories and what they model.\<close>
  \<^item> Request_Queue: scheduler/request_queue.cpp. Each critical section is an operation; the blocking call
    \<open>wait_and_drain\<close> is a machine whose blocked states a notification or the deadline leaves. First-in
    first-out order, bounded and due batches, no lost wake-up; the interface is the locale \<open>closable_fifo\<close>.
  \<^item> Execution_Engine: engine/execution_engine.cpp. The stub, and the row contract of any engine as the locale
    \<open>row_engine\<close>, interpreted for the stub, the CUDA engine, the ONNX engine and the runtime's backend.
  \<^item> Scheduler, Scheduler_System: scheduler/scheduler.cpp. One iteration of \<open>run_loop\<close>, then the lifecycle
    with worker, callers, clock and \<open>stop\<close> interleaved: own answers, order, isolation of misfits,
    counters, and that \<open>stop\<close> ends with everything served.
  \<^item> Memory_Buffers, Pool_Buckets, Memory_Pool: memory/*. Ownership of blocks by buffers (the locale
    \<open>raii_buffer\<close>) and by the pool and its handles, the bucket sizes, the counters, destruction.
  \<^item> Stream_Pool, Normalize_Kernel: kernels/*. Construction and round robin of streams; the kernel thread by
    thread and its independence of the interleaving.
  \<^item> Device_Work, Cuda_Engine, Cuda_Lifecycle: engine/cuda_execution_engine.cpp. Batches, construction and
    destruction; refinement of the stub on normalised rows, warm-up without allocation, no leaks.
  \<^item> Onnx_Runtime, Onnx_Engine, Onnx_Batches, Onnx_Lifecycle, Onnx_Properties:
    engine/onnx_execution_engine.cpp. Both paths agree, requests never mix, construction with its fallback and
    destruction leave nothing behind; and what the comments describe differently.
  \<^item> Runtime_Binding: bindings/module.cpp. \<open>InferenceRuntime\<close> with concurrent callers; its properties
    span all of the above and stand in this theory.
  \<^item> Bench_Tool: tools/bench_engine.cpp. The bucket list, read and printed by theory Decimal's numbers.
  \<^item> Admission: python server/admission.py. Permits and leases with their threads, and the wait at shutdown.
  \<^item> Api_Keys: python security/keys.py and server/security.py. The key store, its administration and the
    authentication of requests.

  \<^bold>\<open>Interleaving.\<close> A step is a critical section, an atomic access, or a stretch of one thread that touches no
  shared state: \<open>sstep\<close> for the scheduler, \<open>rstep\<close> for the runtime, \<open>astep\<close> for admission. Relaxed atomics are
  read as interleavings. Spurious wake-ups of the queue's waits and failing weak exchanges are included.

  \<^bold>\<open>Not modelled.\<close> Memory exhaustion of the host and the exceptions of the standard library's
  synchronisation primitives; signed overflow of the clock's arithmetic; the conversions of pybind11; the
  printed output and the arithmetic on clock readings of the benchmark; the ASGI plumbing, the routes, the
  settings, the image preprocessing and the logging of the Python server, which are glue between libraries
  outside the repository; the load tests, container and export scripts, which are network, process and file
  I/O; the tests; the compiler probes CMake generates under build-tsan; and the kernels batch_pack,
  layout_convert, resize and unbatch_scatter, whose files are empty.
\<close>

section \<open>Concurrent callers of the runtime\<close>



text \<open>
  C29: The widths of the settings object never reach the ONNX engine, which keeps its own 150528 and 1000:
  a runtime whose settings name other widths is built without an error, and then every batch its scheduler
  can form fails with an \<open>InferenceError\<close> and leaves the engine as it was.
\<close>

theorem runtime_geometry_fixed:
  assumes new: "runtime_new True l g config = Ret r" and p: "rc_model_path config \<noteq> []" and o: "onnx_supported l g config"
    and "rc_input_elems config \<noteq> 150528 \<or> rc_output_elems config \<noteq> 1000"
    and n: "n \<noteq> 0" and xs: "vsize xs = n * rc_input_elems config"
  shows "backend_engine (engine (work (rt_sched r))) xs n (rc_input_elems config) (rc_output_elems config) =
    (Throw (InferenceError ''run_inference called with input/output_elems that differ from the configured geometry''),
     engine (work (rt_sched r)))"
proof -
  from new obtain b where b: "make_engine True l g config = Ret b" and r: "engine (work (rt_sched r)) = b"
    by (rule runtime_new_Ret) (simp add: new_scheduler_def)
  have s: "cuda_laws (api g)" "copies_succeed (api g)" "ort_laws (api g) l" "inflight (gview_of g) = (\<lambda>_. {})"
    "onnx_geometry (backend_options config) l" using o by (auto simp: onnx_supported_def)
  obtain e where e: "b = OnnxBackend e"
    and live: "onnx_live (dev_live (gview_of g)) (host_live (gview_of g)) (stream_live (gview_of g)) (backend_options config) e"
    by (rule make_engine_onnx [OF s p b])
  have "oopts e = backend_options config" using live by (simp add: onnx_live_def)
  with assms(4) n xs show ?thesis by (auto simp: r e onnx_engine_def onnx_run_inference_def Let_def cthrow_def)
qed

theorem runtime_geometry_fixed_witness:
  "\<exists>r. runtime_new True (sim_ort 1000) (sim_gpu 100) narrow_config = Ret r \<and>
     fst (backend_engine (engine (work (rt_sched r))) [fzero, fzero] 1 2 1) =
       Throw (InferenceError ''run_inference called with input/output_elems that differ from the configured geometry'')"
proof -
  have g: "cuda_laws (api (sim_gpu 100))" "copies_succeed (api (sim_gpu 100))" "ort_laws (api (sim_gpu 100)) (sim_ort 1000)"
    "inflight (gview_of (sim_gpu 100)) = (\<lambda>_. {})" "onnx_geometry (backend_options narrow_config) (sim_ort 1000)"
    using narrow_supported by (auto simp: onnx_supported_def)
  obtain res e where e: "onnx_engine_new (backend_options narrow_config) (sim_ort 1000) (sim_gpu 100) = (res, e)" by fastforce
  with narrow_new have "res \<noteq> Throw x" for x by (metis fst_conv)
  then have "res = Ret ()" using onnx_new_cases [OF g e] by blast
  then have "make_engine True (sim_ort 1000) (sim_gpu 100) narrow_config = Ret (OnnxBackend e)"
    using e by (simp add: make_engine_def narrow_config_def runtime_config_init_def)
  then obtain r where r: "runtime_new True (sim_ort 1000) (sim_gpu 100) narrow_config = Ret r"
    by (simp add: runtime_new_def start_def new_scheduler_def)
  moreover have "rc_model_path narrow_config \<noteq> []" "rc_input_elems narrow_config = 2" "rc_output_elems narrow_config = 1"
    by (simp_all add: narrow_config_def runtime_config_init_def)
  ultimately show ?thesis
    using runtime_geometry_fixed [OF r _ narrow_supported, of 1 "[fzero, fzero]"] by (simp add: vsize_def)
qed

end
